(* ===== verification/Enzo_Prelude.thy ===== *)
theory Enzo_Prelude
  imports Main "HOL-Library.Word" "HOL-Library.AList" "HOL-Library.Multiset"
begin

text \<open>
  Shared vocabulary of the development: byte strings, the error values of the Go code,
  sequencing of state transformers that may fail, big-endian integers, the byte-search
  functions of the standard packages \<^verbatim>\<open>bytes\<close> and \<^verbatim>\<open>strings\<close>, and the two ends of a
  connection (a reader and a sink). Everything here is either a model of what the sources
  use of Go's standard library or a generic lemma about lists.
\<close>

unbundle bit_operations_syntax

named_theorems stream_simps \<open>readers, sinks and sequencing\<close>
named_theorems be_simps \<open>big-endian integers\<close>

section \<open>Types\<close>

type_synonym byte = "8 word"
type_synonym bytes = "8 word list"
type_synonym u8 = "8 word"
type_synonym u16 = "16 word"
type_synonym u32 = "32 word"
type_synonym u64 = "64 word"

text \<open>A Go string literal, as the bytes it denotes.\<close>

definition str :: "string \<Rightarrow> bytes" where
  "str s = map of_char s"

text \<open>
  Every way in which an operation of the program can fail. \<^verbatim>\<open>GoPanic\<close> is a run-time panic
  (index or slice bounds out of range, allocation size out of range): the goroutine does
  not return an error but takes the process down.
\<close>

datatype go_error =
    ErrEOF
  | ErrUnexpectedEOF
  | ErrConn
  | ErrClosed
  | ErrAccept
  | ErrWrite
  | ErrCanceled
  | GoPanic
  | ErrFlags u8
  | ErrPayloadTooLarge nat
  | ErrEpochResetLength nat
  | ErrUnknownFrameType u8
  | ErrBadMagic u8
  | ErrBadVersion u8
  | ErrTooShort
  | ErrSegmentCount nat
  | ErrSegNotConst
  | ErrSegNotVar
  | ErrBadVarSegment
  | ErrBadLength
  | ErrLaneCount
  | ErrHTTPBadRequest
  | ErrHTTPUnsupported
  | ErrHTTPBodyTooLarge
  | ErrHeaderTooLarge
  | ErrMissingContentLength
  | ErrHeaderMarkerLost
  | ErrRefBeforeDefine
  | ErrUnsupportedFrameType
  | ErrInvalidFrameType
  | ErrNilDestination
  | ErrUnknownMode
  | ErrNoProgress
  | ErrBufferFull

section \<open>Sequencing\<close>

text \<open>
  The Go idiom \<^verbatim>\<open>if err := f(); err != nil { return err }\<close>: the state changes made
  before the error stay.
\<close>

type_synonym 's act = "'s \<Rightarrow> go_error option \<times> 's"

definition ok :: "'s act" where
  "ok s = (None, s)"

definition and_then :: "'s act \<Rightarrow> 's act \<Rightarrow> 's act" where
  "and_then f g s = (case f s of (None, s') \<Rightarrow> g s' | (Some e, s') \<Rightarrow> (Some e, s'))"

lemma and_then_ok [simp]: "and_then f ok = f"
  by (rule ext) (simp add: and_then_def ok_def split: prod.splits option.splits)

lemma ok_and_then [simp]: "and_then ok f = f"
  by (rule ext) (simp add: and_then_def ok_def)

lemma and_then_assoc: "and_then (and_then f g) h = and_then f (and_then g h)"
  by (rule ext) (simp add: and_then_def split: prod.splits option.splits)

lemma and_then_NoneD:
  "and_then f g s = (None, s'') \<Longrightarrow> \<exists>s'. f s = (None, s') \<and> g s' = (None, s'')"
  by (auto simp: and_then_def split: prod.splits option.splits)

lemma and_then_step [stream_simps]:
  "f s = (None, s') \<Longrightarrow> and_then f g s = g s'"
  by (simp add: and_then_def)

lemma and_then_fail [stream_simps]:
  "f s = (Some e, s') \<Longrightarrow> and_then f g s = (Some e, s')"
  by (simp add: and_then_def)

section \<open>Lists\<close>

lemma take_length_append: "take (length xs + k) (xs @ ys) = xs @ take k ys"
  by simp

section \<open>Big-endian integers (\<^verbatim>\<open>encoding/binary\<close>)\<close>

definition put_u16 :: "u16 \<Rightarrow> bytes" where
  "put_u16 v = [ucast (drop_bit 8 v), ucast v]"

definition put_u32 :: "u32 \<Rightarrow> bytes" where
  "put_u32 v = [ucast (drop_bit 24 v), ucast (drop_bit 16 v), ucast (drop_bit 8 v), ucast v]"

definition join_u16 :: "byte \<Rightarrow> byte \<Rightarrow> u16" where
  "join_u16 a b = push_bit 8 (ucast a) OR ucast b"

definition join_u32 :: "byte \<Rightarrow> byte \<Rightarrow> byte \<Rightarrow> byte \<Rightarrow> u32" where
  "join_u32 a b c d =
     push_bit 24 (ucast a) OR push_bit 16 (ucast b) OR push_bit 8 (ucast c) OR ucast d"

text \<open>
  \<^verbatim>\<open>be.Uint16(p[i:i+2])\<close> for a slice whose capacity is its length: out of range is a panic.
\<close>

definition get_u16 :: "bytes \<Rightarrow> nat \<Rightarrow> go_error + u16" where
  "get_u16 p i = (if i + 2 \<le> length p then Inr (join_u16 (p ! i) (p ! (i + 1))) else Inl GoPanic)"

lemma length_put_u16 [simp]: "length (put_u16 v) = 2"
  by (simp add: put_u16_def)

lemma length_put_u32 [simp]: "length (put_u32 v) = 4"
  by (simp add: put_u32_def)

lemma join_put_u16 [simp, be_simps]: "join_u16 (ucast (drop_bit 8 v)) (ucast v) = v"
  unfolding join_u16_def by (rule bit_word_eqI) (auto simp: bit_simps)

lemma join_put_u32 [simp, be_simps]:
  "join_u32 (ucast (drop_bit 24 v)) (ucast (drop_bit 16 v)) (ucast (drop_bit 8 v)) (ucast v) = v"
  unfolding join_u32_def
proof (rule bit_word_eqI)
  fix n
  assume "n < LENGTH(32)"
  then consider "24 \<le> n" "n < 32" | "16 \<le> n" "n < 24" | "8 \<le> n" "n < 16" | "n < 8"
    by force
  then show "bit ((push_bit 24 (ucast (ucast (drop_bit 24 v) :: byte)) OR
      push_bit 16 (ucast (ucast (drop_bit 16 v) :: byte)) OR
      push_bit 8 (ucast (ucast (drop_bit 8 v) :: byte)) OR ucast (ucast v :: byte)) :: u32) n = bit v n"
    by cases (auto simp: bit_simps less_diff_conv2)
qed

lemma byte_bit_high: "bit (b :: byte) n \<Longrightarrow> n < 8"
  using bit_imp_le_length by force

lemma byte_not_bit_high [simp]: "8 \<le> n \<Longrightarrow> \<not> bit (b :: byte) n"
  using byte_bit_high by force

lemma put_join_u16 [simp, be_simps]: "put_u16 (join_u16 a b) = [a, b]"
  unfolding put_u16_def join_u16_def
  by (auto intro!: bit_word_eqI simp: bit_simps)

lemma put_join_u32 [simp, be_simps]: "put_u32 (join_u32 a b c d) = [a, b, c, d]"
  unfolding put_u32_def join_u32_def
  by (auto intro!: bit_word_eqI simp: bit_simps)

lemma get_u16_append [simp, be_simps]:
  "length pre = i \<Longrightarrow> get_u16 (pre @ put_u16 v @ post) i = Inr v"
  by (simp add: get_u16_def put_u16_def nth_append)

lemma get_u16_Inr_iff: "(\<exists>v. get_u16 p i = Inr v) \<longleftrightarrow> i + 2 \<le> length p"
  by (simp add: get_u16_def)

lemma unat_of_nat_u16 [simp]: "n < 65536 \<Longrightarrow> unat (of_nat n :: u16) = n"
  by (simp add: unat_of_nat)

lemma unat_of_nat_u32 [simp]: "n < 4294967296 \<Longrightarrow> unat (of_nat n :: u32) = n"
  by (simp add: unat_of_nat)

lemma unat_of_nat_u64 [simp]: "n < 18446744073709551616 \<Longrightarrow> unat (of_nat n :: u64) = n"
  by (simp add: unat_of_nat)

lemma unat_u16_lt [simp]: "unat (v :: u16) < 65536"
  using unsigned_less [of v] by simp

lemma unat_u32_lt [simp]: "unat (v :: u32) < 4294967296"
  using unsigned_less [of v] by simp

end
