(* ===== verification/Go_Streams.thy ===== *)
theory Go_Streams
  imports Enzo_Prelude
begin

text \<open>
  The two ends of a TCP connection as the program uses them. A \<^verbatim>\<open>reader\<close> holds every byte
  the peer is still going to send and the error the connection ends with (\<^verbatim>\<open>io.EOF\<close> for an
  orderly close); blocking and segmentation are not visible through \<^verbatim>\<open>io.ReadFull\<close>,
  \<^verbatim>\<open>bufio.Reader.ReadBytes\<close> and \<^verbatim>\<open>Peek\<close>, so they are not part of it. A \<^verbatim>\<open>sink\<close> holds the
  bytes written so far and, when the peer is going to break the connection, how many more
  bytes it accepts.
\<close>

section \<open>Readers\<close>

record reader =
  rd_bytes :: bytes
  rd_end :: go_error

text \<open>\<^verbatim>\<open>io.ReadFull(r, buf)\<close> with \<^verbatim>\<open>len(buf) = n\<close>.\<close>

definition read_full :: "nat \<Rightarrow> reader \<Rightarrow> go_error + (bytes \<times> reader)" where
  "read_full n r =
     (if n \<le> length (rd_bytes r)
      then Inr (take n (rd_bytes r), r\<lparr>rd_bytes := drop n (rd_bytes r)\<rparr>)
      else if rd_bytes r \<noteq> [] \<and> rd_end r = ErrEOF then Inl ErrUnexpectedEOF
      else Inl (rd_end r))"

text \<open>\<^verbatim>\<open>bufio.Reader.ReadBytes(delim)\<close>.\<close>

definition read_bytes :: "byte \<Rightarrow> reader \<Rightarrow> go_error + (bytes \<times> reader)" where
  "read_bytes delim r =
     (if delim \<in> set (rd_bytes r)
      then Inr (takeWhile (\<lambda>b. b \<noteq> delim) (rd_bytes r) @ [delim],
                r\<lparr>rd_bytes := tl (dropWhile (\<lambda>b. b \<noteq> delim) (rd_bytes r))\<rparr>)
      else Inl (rd_end r))"

lemma read_full_append [simp, stream_simps]:
  "length p = n \<Longrightarrow>
     read_full n \<lparr>rd_bytes = p @ q, rd_end = e\<rparr> = Inr (p, \<lparr>rd_bytes = q, rd_end = e\<rparr>)"
  by (simp add: read_full_def)

lemma read_full_eof [simp, stream_simps]:
  "0 < n \<Longrightarrow> read_full n \<lparr>rd_bytes = [], rd_end = e\<rparr> = Inl e"
  by (simp add: read_full_def)

lemma read_full_InrD:
  "read_full n r = Inr (p, r') \<Longrightarrow>
     rd_bytes r = p @ rd_bytes r' \<and> length p = n \<and> rd_end r' = rd_end r"
  by (auto simp: read_full_def split: if_splits)

lemma read_bytes_InrD:
  assumes "read_bytes d r = Inr (l, r')"
  shows "rd_bytes r = l @ rd_bytes r' \<and> rd_end r' = rd_end r \<and>
    (\<exists>c. l = c @ [d] \<and> d \<notin> set c)"
proof -
  from assms have d: "d \<in> set (rd_bytes r)"
    and l: "l = takeWhile (\<lambda>b. b \<noteq> d) (rd_bytes r) @ [d]"
    and r': "rd_bytes r' = tl (dropWhile (\<lambda>b. b \<noteq> d) (rd_bytes r))" "rd_end r' = rd_end r"
    by (auto simp: read_bytes_def split: if_splits)
  from d have "dropWhile (\<lambda>b. b \<noteq> d) (rd_bytes r) \<noteq> []" by simp
  moreover from this have "hd (dropWhile (\<lambda>b. b \<noteq> d) (rd_bytes r)) = d"
    using hd_dropWhile by blast
  ultimately have "dropWhile (\<lambda>b. b \<noteq> d) (rd_bytes r) = d # rd_bytes r'"
    using r'(1) by (metis list.collapse)
  then have "rd_bytes r = takeWhile (\<lambda>b. b \<noteq> d) (rd_bytes r) @ d # rd_bytes r'"
    by (metis takeWhile_dropWhile_id)
  moreover have "d \<notin> set (takeWhile (\<lambda>b. b \<noteq> d) (rd_bytes r))"
    by (auto dest: set_takeWhileD)
  ultimately show ?thesis using l r'(2) by auto
qed

lemma read_bytes_append [simp, stream_simps]:
  assumes "d \<notin> set c"
  shows "read_bytes d \<lparr>rd_bytes = c @ d # q, rd_end = e\<rparr> =
    Inr (c @ [d], \<lparr>rd_bytes = q, rd_end = e\<rparr>)"
proof -
  have "takeWhile (\<lambda>b. b \<noteq> d) (c @ d # q) = c" "dropWhile (\<lambda>b. b \<noteq> d) (c @ d # q) = d # q"
    using assms by (auto simp: takeWhile_append dropWhile_append)
  then show ?thesis by (simp add: read_bytes_def)
qed

section \<open>Sinks\<close>

record sink =
  snk_bytes :: bytes
  snk_room :: "nat option"

text \<open>
  \<^verbatim>\<open>net.Conn.Write(p)\<close>: the number of bytes taken, the error (never nil when the number is
  smaller than \<^verbatim>\<open>len(p)\<close>), the sink after the call.
\<close>

definition conn_write :: "bytes \<Rightarrow> sink \<Rightarrow> nat \<times> go_error option \<times> sink" where
  "conn_write p s =
     (case snk_room s of
        None \<Rightarrow> (length p, None, s\<lparr>snk_bytes := snk_bytes s @ p\<rparr>)
      | Some k \<Rightarrow>
          if length p \<le> k
          then (length p, None, s\<lparr>snk_bytes := snk_bytes s @ p, snk_room := Some (k - length p)\<rparr>)
          else (k, Some ErrWrite, s\<lparr>snk_bytes := snk_bytes s @ take k p, snk_room := Some 0\<rparr>))"

text \<open>\<^verbatim>\<open>_, err := w.Write(p)\<close>.\<close>

definition write_all :: "bytes \<Rightarrow> sink act" where
  "write_all p s = (case conn_write p s of (_, e, s') \<Rightarrow> (e, s'))"

lemma conn_write_open [simp, stream_simps]:
  "snk_room s = None \<Longrightarrow>
     conn_write p s = (length p, None, s\<lparr>snk_bytes := snk_bytes s @ p\<rparr>)"
  by (simp add: conn_write_def)

lemma conn_write_count: "conn_write p s = (n, None, s') \<Longrightarrow> n = length p"
  by (auto simp: conn_write_def split: option.splits if_splits)

lemma conn_write_bytes:
  "conn_write p s = (n, e, s') \<Longrightarrow> n \<le> length p \<and> snk_bytes s' = snk_bytes s @ take n p"
  by (auto simp: conn_write_def split: option.splits if_splits)

lemma write_all_open [simp, stream_simps]:
  "snk_room s = None \<Longrightarrow> write_all p s = (None, s\<lparr>snk_bytes := snk_bytes s @ p\<rparr>)"
  by (simp add: write_all_def)

lemma write_all_okD:
  "write_all p s = (None, s') \<Longrightarrow>
     snk_bytes s' = snk_bytes s @ p \<and> (snk_room s = None \<longleftrightarrow> snk_room s' = None)"
  by (auto simp: write_all_def conn_write_def split: option.splits if_splits)

lemma write_all_prefix:
  "write_all p s = (e, s') \<Longrightarrow> \<exists>k. snk_bytes s' = snk_bytes s @ take k p"
  by (auto simp: write_all_def conn_write_def split: option.splits if_splits
      intro: exI [of _ "length p"])

section \<open>Reads that see the segmentation\<close>

text \<open>
  \<^verbatim>\<open>Read(buf)\<close> returns what happens to be there. A \<open>seg_reader\<close> lists the pieces that
  successive calls find (an empty piece is a call that returns \<^verbatim>\<open>0, nil\<close>); a piece longer than
  the buffer is returned in parts, and after the last one every call returns \<^verbatim>\<open>0\<close> and the
  error.
\<close>

record seg_reader =
  segs :: "bytes list"
  seg_end :: go_error

definition conn_read :: "nat \<Rightarrow> seg_reader \<Rightarrow> bytes \<times> go_error option \<times> seg_reader" where
  "conn_read n r =
     (case segs r of
        [] \<Rightarrow> ([], Some (seg_end r), r)
      | s # rest \<Rightarrow>
          (take n s, None, r\<lparr>segs := (if length s \<le> n then rest else drop n s # rest)\<rparr>))"

definition seg_bytes :: "seg_reader \<Rightarrow> bytes" where
  "seg_bytes r = concat (segs r)"

text \<open>The same connection for a routine to which the segmentation is invisible.\<close>

definition reader_of :: "seg_reader \<Rightarrow> reader" where
  "reader_of r = \<lparr>rd_bytes = seg_bytes r, rd_end = seg_end r\<rparr>"

definition reads_left :: "seg_reader \<Rightarrow> nat" where
  "reads_left r = sum_list (map (\<lambda>s. Suc (length s)) (segs r))"

lemma conn_read_okD:
  assumes "conn_read n r = (chunk, None, r')"
  shows "seg_bytes r = chunk @ seg_bytes r'" "seg_end r' = seg_end r"
    "length chunk \<le> n" "0 < n \<Longrightarrow> reads_left r' < reads_left r"
  using assms
  by (auto simp: conn_read_def seg_bytes_def reads_left_def split: list.splits if_splits)

lemma conn_read_endD:
  "conn_read n r = (chunk, Some e, r') \<Longrightarrow>
     segs r = [] \<and> chunk = [] \<and> e = seg_end r \<and> r' = r"
  by (auto simp: conn_read_def split: list.splits)

end
