(* ===== verification/Wire_Frame.thy ===== *)
theory Wire_Frame
  imports Go_Streams
begin

text \<open>
  The frame layer of the wire protocol (\<^verbatim>\<open>internal/protocol/protocol.go\<close> and
  \<^verbatim>\<open>frameio.go\<close>): the constants, the 8-byte header, writing and reading one frame, the
  structural check of payloads and the EPOCH_RESET payload.
\<close>

section \<open>Constants\<close>

definition ProtocolVersion :: u8 where [simp]: "ProtocolVersion = 0x01"

definition MagicByte :: u8 where [simp]: "MagicByte = 0xEC"

text \<open>\<^verbatim>\<open>type FrameType uint8\<close>: any byte can occur, five have a name.\<close>

type_synonym frame_type = u8

definition FrameEpochReset :: frame_type where [simp]: "FrameEpochReset = 0x01"
definition FrameTemplateDefine :: frame_type where [simp]: "FrameTemplateDefine = 0x02"
definition FrameTemplateRef :: frame_type where [simp]: "FrameTemplateRef = 0x03"
definition FrameRawData :: frame_type where [simp]: "FrameRawData = 0x04"
definition FrameTemplateInline :: frame_type where [simp]: "FrameTemplateInline = 0x05"

definition HeaderSizeBytes :: nat where [simp]: "HeaderSizeBytes = 8"

definition FlagNone :: u8 where [simp]: "FlagNone = 0x00"

definition InitialEpoch :: u32 where [simp]: "InitialEpoch = 0"

definition MaxFramePayloadBytes :: nat where "MaxFramePayloadBytes = 16 * 1024 * 1024"

lemma MaxFramePayloadBytes_eq: "MaxFramePayloadBytes = 16777216"
  by (simp add: MaxFramePayloadBytes_def)

section \<open>Header\<close>

record header =
  Magic :: u8
  Version :: u8
  Type :: frame_type
  Flags :: u8
  Length :: u32

definition write_header :: "header \<Rightarrow> sink act" where
  "write_header h =
     write_all ([Magic h, Version h, Type h, Flags h] @ put_u32 (Length h))"

definition parse_header :: "bytes \<Rightarrow> header" where
  "parse_header buf =
     \<lparr>Magic = buf ! 0, Version = buf ! 1, Type = buf ! 2, Flags = buf ! 3,
      Length = join_u32 (buf ! 4) (buf ! 5) (buf ! 6) (buf ! 7)\<rparr>"

definition read_header :: "reader \<Rightarrow> go_error + (header \<times> reader)" where
  "read_header r =
     (case read_full HeaderSizeBytes r of
        Inl e \<Rightarrow> Inl e
      | Inr (buf, r') \<Rightarrow> Inr (parse_header buf, r'))"

section \<open>Structural validation\<close>

definition validate_payload_shape_v1 :: "frame_type \<Rightarrow> bytes \<Rightarrow> go_error option" where
  "validate_payload_shape_v1 t payload =
     (if t = FrameEpochReset then
        (if length payload \<noteq> 4 then Some (ErrEpochResetLength (length payload)) else None)
      else if t = FrameRawData then None
      else if t = FrameTemplateDefine then None
      else if t = FrameTemplateRef then None
      else if t = FrameTemplateInline then None
      else Some (ErrUnknownFrameType t))"

section \<open>Writing and reading frames\<close>

definition write_frame :: "frame_type \<Rightarrow> u8 \<Rightarrow> bytes \<Rightarrow> sink act" where
  "write_frame t flags payload w =
     (if flags \<noteq> 0 then (Some (ErrFlags flags), w)
      else if length payload > MaxFramePayloadBytes
      then (Some (ErrPayloadTooLarge (length payload)), w)
      else case validate_payload_shape_v1 t payload of
        Some e \<Rightarrow> (Some e, w)
      | None \<Rightarrow>
          (let h = \<lparr>Magic = MagicByte, Version = ProtocolVersion, Type = t, Flags = flags,
                    Length = of_nat (length payload)\<rparr>
           in and_then (write_header h)
                (if length payload = 0 then ok else write_all payload) w))"

definition read_frame :: "reader \<Rightarrow> go_error + (header \<times> bytes \<times> reader)" where
  "read_frame r =
     (case read_header r of
        Inl e \<Rightarrow> Inl e
      | Inr (h, r1) \<Rightarrow>
          if Magic h \<noteq> MagicByte then Inl (ErrBadMagic (Magic h))
          else if Version h \<noteq> ProtocolVersion then Inl (ErrBadVersion (Version h))
          else if Flags h \<noteq> 0 then Inl (ErrFlags (Flags h))
          else if unat (Length h) > MaxFramePayloadBytes
          then Inl (ErrPayloadTooLarge (unat (Length h)))
          else if Length h = 0
          then (case validate_payload_shape_v1 (Type h) [] of
                  Some e \<Rightarrow> Inl e
                | None \<Rightarrow> Inr (h, [], r1))
          else (case read_full (unat (Length h)) r1 of
                  Inl e \<Rightarrow> Inl e
                | Inr (payload, r2) \<Rightarrow>
                    (case validate_payload_shape_v1 (Type h) payload of
                       Some e \<Rightarrow> Inl e
                     | None \<Rightarrow> Inr (h, payload, r2))))"

section \<open>The EPOCH_RESET payload\<close>

definition parse_epoch_reset_payload :: "bytes \<Rightarrow> go_error + u32" where
  "parse_epoch_reset_payload payload =
     (if length payload \<noteq> 4 then Inl (ErrEpochResetLength (length payload))
      else Inr (join_u32 (payload ! 0) (payload ! 1) (payload ! 2) (payload ! 3)))"

definition build_epoch_reset_payload :: "u32 \<Rightarrow> bytes" where
  "build_epoch_reset_payload epochID = put_u32 epochID"

section \<open>The wire image of a frame\<close>

text \<open>
  The specification both directions are measured against: the bytes a frame occupies, and
  which frames are allowed on the wire at all.
\<close>

definition frame_image :: "frame_type \<Rightarrow> bytes \<Rightarrow> bytes" where
  "frame_image t p = [MagicByte, ProtocolVersion, t, 0] @ put_u32 (of_nat (length p)) @ p"

definition frame_ok :: "frame_type \<Rightarrow> bytes \<Rightarrow> bool" where
  "frame_ok t p \<longleftrightarrow>
     length p \<le> MaxFramePayloadBytes \<and> validate_payload_shape_v1 t p = None"

definition frame_header :: "frame_type \<Rightarrow> bytes \<Rightarrow> header" where
  "frame_header t p =
     \<lparr>Magic = MagicByte, Version = ProtocolVersion, Type = t, Flags = 0,
      Length = of_nat (length p)\<rparr>"

lemma length_frame_image [simp]: "length (frame_image t p) = HeaderSizeBytes + length p"
  by (simp add: frame_image_def)

lemma frame_header_sel [simp]:
  "Magic (frame_header t p) = MagicByte" "Version (frame_header t p) = ProtocolVersion"
  "Type (frame_header t p) = t" "Flags (frame_header t p) = 0"
  "Length (frame_header t p) = of_nat (length p)"
  by (simp_all add: frame_header_def)

lemma frame_ok_raw [simp]: "frame_ok FrameRawData p \<longleftrightarrow> length p \<le> MaxFramePayloadBytes"
  and frame_ok_define [simp]:
    "frame_ok FrameTemplateDefine p \<longleftrightarrow> length p \<le> MaxFramePayloadBytes"
  and frame_ok_ref [simp]: "frame_ok FrameTemplateRef p \<longleftrightarrow> length p \<le> MaxFramePayloadBytes"
  and frame_ok_inline [simp]:
    "frame_ok FrameTemplateInline p \<longleftrightarrow> length p \<le> MaxFramePayloadBytes"
  by (simp_all add: frame_ok_def validate_payload_shape_v1_def)

lemma frame_ok_length: "frame_ok t p \<Longrightarrow> length p \<le> 16777216"
  by (simp add: frame_ok_def MaxFramePayloadBytes_def)

lemma frame_ok_unat [simp]:
  "frame_ok t p \<Longrightarrow> unat (of_nat (length p) :: u32) = length p"
  by (drule frame_ok_length) simp

lemma frame_ok_zero [simp]:
  "frame_ok t p \<Longrightarrow> (of_nat (length p) :: u32) = 0 \<longleftrightarrow> p = []"
  by (auto simp: word_of_nat_eq_0_iff dest!: frame_ok_length dvd_imp_le)

subsection \<open>Writing\<close>

lemma write_frame_open:
  assumes "snk_room s = None"
  shows "write_frame t flags p s =
    (if flags \<noteq> 0 then (Some (ErrFlags flags), s)
     else if length p > MaxFramePayloadBytes then (Some (ErrPayloadTooLarge (length p)), s)
     else case validate_payload_shape_v1 t p of
       Some e \<Rightarrow> (Some e, s)
     | None \<Rightarrow> (None, s\<lparr>snk_bytes := snk_bytes s @ frame_image t p\<rparr>))"
  using assms
  by (simp add: write_frame_def Let_def write_header_def and_then_def ok_def frame_image_def
      split: option.splits)

lemma write_frame_ok [stream_simps]:
  "snk_room s = None \<Longrightarrow> frame_ok t p \<Longrightarrow>
     write_frame t 0 p s = (None, s\<lparr>snk_bytes := snk_bytes s @ frame_image t p\<rparr>)"
  by (simp add: write_frame_open frame_ok_def)

lemma write_frame_okD:
  assumes "write_frame t flags p s = (None, s')"
  shows "flags = 0 \<and> frame_ok t p \<and> snk_bytes s' = snk_bytes s @ frame_image t p"
proof -
  from assms have c: "flags = 0" "length p \<le> MaxFramePayloadBytes"
      "validate_payload_shape_v1 t p = None"
    and run: "and_then (write_header (frame_header t p))
      (if length p = 0 then ok else write_all p) s = (None, s')"
    by (auto simp: write_frame_def frame_header_def Let_def split: if_splits option.splits)
  from run obtain s1 where 1: "write_header (frame_header t p) s = (None, s1)"
    and 2: "(if length p = 0 then ok else write_all p) s1 = (None, s')"
    by (blast dest: and_then_NoneD)
  from 1 have "snk_bytes s1 =
      snk_bytes s @ [MagicByte, ProtocolVersion, t, 0] @ put_u32 (of_nat (length p))"
    unfolding write_header_def by (auto dest!: write_all_okD)
  moreover from 2 have "snk_bytes s' = snk_bytes s1 @ p"
    by (auto simp: ok_def dest!: write_all_okD split: if_splits)
  ultimately show ?thesis using c by (simp add: frame_ok_def frame_image_def)
qed

text \<open>A rejected frame leaves no byte on the wire, a broken connection at most a prefix.\<close>

lemma write_frame_prefix:
  assumes "write_frame t flags p s = (e, s')"
  shows "\<exists>k. snk_bytes s' = snk_bytes s @ take k (frame_image t p)"
proof (cases "flags = 0 \<and> frame_ok t p")
  case False
  with assms have "s' = s"
    by (auto simp: write_frame_def frame_ok_def Let_def split: if_splits option.splits)
  then show ?thesis by (auto intro: exI [of _ 0])
next
  case True
  let ?hb = "[MagicByte, ProtocolVersion, t, 0] @ put_u32 (of_nat (length p))"
  from True assms have run: "and_then (write_all ?hb)
      (if length p = 0 then ok else write_all p) s = (e, s')"
    by (simp add: write_frame_def frame_ok_def write_header_def Let_def split: if_splits)
  obtain e1 s1 where 1: "write_all ?hb s = (e1, s1)" by fastforce
  have img: "frame_image t p = ?hb @ p" by (simp add: frame_image_def)
  show ?thesis
  proof (cases e1)
    case (Some x)
    with run 1 have "s' = s1" by (simp add: and_then_def)
    with 1 obtain k where k: "snk_bytes s' = snk_bytes s @ take k ?hb"
      using write_all_prefix by blast
    have "take k ?hb = take (min k (length ?hb)) (frame_image t p)"
      unfolding img by (cases "k \<le> length ?hb") (simp_all del: append.simps)
    with k show ?thesis by metis
  next
    case None
    from 1 None have s1: "snk_bytes s1 = snk_bytes s @ ?hb"
      by (metis write_all_okD)
    from run 1 None have "(if length p = 0 then ok else write_all p) s1 = (e, s')"
      by (simp add: and_then_def)
    then obtain k where "snk_bytes s' = snk_bytes s1 @ take k p"
      by (cases "length p = 0") (auto simp: ok_def dest: write_all_prefix)
    with s1 have "snk_bytes s' = snk_bytes s @ take (length ?hb + k) (frame_image t p)"
      unfolding img take_length_append by simp
    then show ?thesis by blast
  qed
qed

subsection \<open>Reading\<close>

lemma parse_header_image:
  "parse_header ([m, v, t, f] @ put_u32 n) =
     \<lparr>Magic = m, Version = v, Type = t, Flags = f, Length = n\<rparr>"
  by (simp add: parse_header_def put_u32_def)

lemma read_frame_image [stream_simps]:
  assumes "frame_ok t p"
  shows "read_frame \<lparr>rd_bytes = frame_image t p @ q, rd_end = e\<rparr> =
    Inr (frame_header t p, p, \<lparr>rd_bytes = q, rd_end = e\<rparr>)"
proof -
  let ?hb = "[MagicByte, ProtocolVersion, t, 0] @ put_u32 (of_nat (length p))"
  have "read_full HeaderSizeBytes \<lparr>rd_bytes = ?hb @ p @ q, rd_end = e\<rparr> =
      Inr (?hb, \<lparr>rd_bytes = p @ q, rd_end = e\<rparr>)"
    by (rule read_full_append) simp
  then have "read_header \<lparr>rd_bytes = frame_image t p @ q, rd_end = e\<rparr> =
      Inr (frame_header t p, \<lparr>rd_bytes = p @ q, rd_end = e\<rparr>)"
    by (simp only: read_header_def frame_image_def append_assoc)
      (simp add: parse_header_image [simplified] frame_header_def)
  moreover have "validate_payload_shape_v1 t p = None" "\<not> MaxFramePayloadBytes < length p"
    using assms by (auto simp: frame_ok_def)
  ultimately show ?thesis
    using assms by (auto simp: read_frame_def)
qed

lemma read_frame_eof [stream_simps]:
  "read_frame \<lparr>rd_bytes = [], rd_end = e\<rparr> = Inl e"
  by (simp add: read_frame_def read_header_def)

lemma parse_header_bytes:
  assumes "length b = HeaderSizeBytes"
  shows "b = [Magic (parse_header b), Version (parse_header b), Type (parse_header b),
              Flags (parse_header b)] @ put_u32 (Length (parse_header b))"
proof -
  from assms have "b = [b ! 0, b ! 1, b ! 2, b ! 3, b ! 4, b ! 5, b ! 6, b ! 7]"
    by (intro nth_equalityI) (auto simp: less_Suc_eq numeral_eq_Suc)
  then show ?thesis by (simp add: parse_header_def)
qed

lemma read_frame_InrD:
  assumes "read_frame r = Inr (h, p, r')"
  shows "h = frame_header (Type h) p \<and> frame_ok (Type h) p \<and>
    rd_bytes r = frame_image (Type h) p @ rd_bytes r' \<and> rd_end r' = rd_end r"
proof -
  obtain h1 r1 where hd: "read_header r = Inr (h1, r1)"
    using assms by (cases "read_header r") (auto simp: read_frame_def)
  let ?body = "if Length h1 = 0
      then (case validate_payload_shape_v1 (Type h1) [] of
              Some e \<Rightarrow> Inl e | None \<Rightarrow> Inr (h1, [], r1))
      else (case read_full (unat (Length h1)) r1 of
              Inl e \<Rightarrow> Inl e
            | Inr (payload, r2) \<Rightarrow>
                (case validate_payload_shape_v1 (Type h1) payload of
                   Some e \<Rightarrow> Inl e | None \<Rightarrow> Inr (h1, payload, r2)))"
  have m: "Magic h1 = MagicByte" "Version h1 = ProtocolVersion" "Flags h1 = 0"
    and le: "unat (Length h1) \<le> MaxFramePayloadBytes" and body: "?body = Inr (h, p, r')"
    using assms unfolding read_frame_def hd sum.case prod.case by (simp_all split: if_splits)
  have p: "h1 = h \<and> length p = unat (Length h) \<and> rd_bytes r1 = p @ rd_bytes r' \<and>
      rd_end r' = rd_end r1 \<and> validate_payload_shape_v1 (Type h) p = None"
    using body by (auto split: if_splits option.splits sum.splits dest!: read_full_InrD)
  note m = m [unfolded conjunct1 [OF p]] and le = le [unfolded conjunct1 [OF p]]
  from hd p obtain b where b: "read_full HeaderSizeBytes r = Inr (b, r1)" "h = parse_header b"
    by (auto simp: read_header_def split: sum.splits)
  then have rb: "rd_bytes r = b @ rd_bytes r1" "length b = HeaderSizeBytes" "rd_end r1 = rd_end r"
    using read_full_InrD by blast+
  from p have len: "Length h = of_nat (length p)" by simp
  have fok: "frame_ok (Type h) p" using p le by (simp add: frame_ok_def)
  have hh: "h = frame_header (Type h) p"
    using m len by (cases h) (simp add: frame_header_def)
  have "b = [MagicByte, ProtocolVersion, Type h, 0] @ put_u32 (of_nat (length p))"
    using parse_header_bytes [OF rb(2)] b(2) m len by simp
  then have "rd_bytes r = frame_image (Type h) p @ rd_bytes r'"
    using rb(1) p by (simp add: frame_image_def)
  then show ?thesis using fok hh p rb(3) by simp
qed

lemma read_frame_shorter:
  "read_frame r = Inr (h, p, r') \<Longrightarrow> length (rd_bytes r') < length (rd_bytes r)"
  by (drule read_frame_InrD) simp

lemma parse_build_epoch_reset [simp]:
  "parse_epoch_reset_payload (build_epoch_reset_payload n) = Inr n"
  by (simp add: parse_epoch_reset_payload_def build_epoch_reset_payload_def put_u32_def)

lemma frame_ok_epoch_reset [simp]: "frame_ok FrameEpochReset (build_epoch_reset_payload n)"
  by (simp add: frame_ok_def validate_payload_shape_v1_def build_epoch_reset_payload_def
      MaxFramePayloadBytes_def)


section \<open>Properties\<close>

text \<open>
  C17: Frames survive the wire. Every allowed frame is written without an error on a connection
  that takes every byte, and reading back what was written gives the same header and payload
  and leaves the reader exactly behind it.
\<close>

theorem frame_roundtrip:
  assumes "frame_ok t p" "snk_room s = None"
  shows "\<exists>s'. write_frame t FlagNone p s = (None, s') \<and> snk_room s' = None \<and>
    read_frame \<lparr>rd_bytes = drop (length (snk_bytes s)) (snk_bytes s') @ q, rd_end = e\<rparr> =
      Inr (frame_header t p, p, \<lparr>rd_bytes = q, rd_end = e\<rparr>)"
  using write_frame_ok [OF assms(2,1)] read_frame_image [OF assms(1)] assms(2)
  by (simp add: FlagNone_def)

theorem frame_roundtrip_witness:
  "\<exists>s'. write_frame FrameEpochReset FlagNone (put_u32 7) \<lparr>snk_bytes = [1, 2], snk_room = None\<rparr> =
      (None, s') \<and> snk_room s' = None \<and>
    read_frame \<lparr>rd_bytes = drop (length [1::byte, 2]) (snk_bytes s') @ [9], rd_end = ErrEOF\<rparr> =
      Inr (frame_header FrameEpochReset (put_u32 7), put_u32 7, \<lparr>rd_bytes = [9], rd_end = ErrEOF\<rparr>)"
  using frame_roundtrip [of FrameEpochReset "put_u32 7" "\<lparr>snk_bytes = [1, 2], snk_room = None\<rparr>" "[9]" ErrEOF]
  by (simp add: frame_ok_def MaxFramePayloadBytes_def validate_payload_shape_v1_def)

text \<open>
  C16: \<^verbatim>\<open>ReadFrame\<close> accepts only canonical frames. Whatever is on the stream, a frame that is
  returned has the magic byte, the version, no flags, a known type and a payload of at most
  16 MiB of the shape its type demands; the bytes consumed are exactly its wire image and
  nothing behind it is touched.
\<close>

theorem read_frame_canonical:
  assumes "read_frame r = Inr (h, p, r')"
  shows "rd_bytes r = frame_image (Type h) p @ rd_bytes r' \<and> h = frame_header (Type h) p \<and>
    length p \<le> MaxFramePayloadBytes \<and> validate_payload_shape_v1 (Type h) p = None"
  using read_frame_InrD [OF assms] by (simp add: frame_ok_def)

text \<open>An EPOCH_RESET frame of epoch 7 spelled out byte by byte, and one byte of the next.\<close>

theorem read_frame_canonical_witness:
  "\<exists>h p r'. read_frame \<lparr>rd_bytes = [0xEC, 1, 1, 0, 0, 0, 0, 4, 0, 0, 0, 7, 0xEC],
       rd_end = ErrEOF\<rparr> = Inr (h, p, r') \<and>
     Type h = FrameEpochReset \<and> p = [0, 0, 0, 7] \<and> rd_bytes r' = [0xEC] \<and>
     frame_image (Type h) p = [0xEC, 1, 1, 0, 0, 0, 0, 4, 0, 0, 0, 7] \<and>
     h = frame_header (Type h) p \<and> validate_payload_shape_v1 (Type h) p = None"
proof -
  let ?r = "\<lparr>rd_bytes = [0xEC, 1, 1, 0, 0, 0, 0, 4, 0, 0, 0, 7, 0xEC], rd_end = ErrEOF\<rparr>"
  let ?h = "\<lparr>Magic = 0xEC, Version = 1, Type = 1, Flags = 0, Length = 4\<rparr>"
  have run: "read_frame ?r = Inr (?h, [0, 0, 0, 7], \<lparr>rd_bytes = [0xEC], rd_end = ErrEOF\<rparr>)"
    by (simp add: read_frame_def read_header_def read_full_def MaxFramePayloadBytes_def
        validate_payload_shape_v1_def parse_header_def join_u32_def)
  from read_frame_canonical [OF run] run show ?thesis
    by (intro exI [of _ ?h] exI [of _ "[0, 0, 0, 7]"]
        exI [of _ "\<lparr>rd_bytes = [0xEC], rd_end = ErrEOF\<rparr>"]) simp
qed

text \<open>
  Writing is all or nothing as far as the program decides it. \<^verbatim>\<open>WriteFrame\<close> rejects flags,
  an oversized payload, a malformed EPOCH_RESET and an unknown type with the matching error
  before the first byte goes out; in every other case it sends the image of the frame, or a
  beginning of it if the connection breaks.
\<close>

theorem write_frame_all_or_prefix:
  "(flags \<noteq> 0 \<longrightarrow> write_frame t flags p s = (Some (ErrFlags flags), s)) \<and>
   (flags = 0 \<longrightarrow> MaxFramePayloadBytes < length p \<longrightarrow>
      write_frame t flags p s = (Some (ErrPayloadTooLarge (length p)), s)) \<and>
   (flags = 0 \<longrightarrow> length p \<le> MaxFramePayloadBytes \<longrightarrow> validate_payload_shape_v1 t p = Some x \<longrightarrow>
      write_frame t flags p s = (Some x, s)) \<and>
   (write_frame t flags p s = (err, s') \<longrightarrow>
      (\<exists>k. snk_bytes s' = snk_bytes s @ take k (frame_image t p)) \<and>
      (err = None \<longrightarrow> frame_ok t p \<and> snk_bytes s' = snk_bytes s @ frame_image t p))"
proof (intro conjI impI)
  assume run: "write_frame t flags p s = (err, s')"
  show "\<exists>k. snk_bytes s' = snk_bytes s @ take k (frame_image t p)"
    by (rule write_frame_prefix [OF run])
  assume "err = None"
  with write_frame_okD run show "frame_ok t p" "snk_bytes s' = snk_bytes s @ frame_image t p" by blast+
qed (simp_all add: write_frame_def)

theorem write_frame_all_or_prefix_witness:
  "write_frame 9 0 [] \<lparr>snk_bytes = [], snk_room = None\<rparr> =
     (Some (ErrUnknownFrameType 9), \<lparr>snk_bytes = [], snk_room = None\<rparr>)"
  using write_frame_all_or_prefix [of 0 9 "[]" "\<lparr>snk_bytes = [], snk_room = None\<rparr>" "ErrUnknownFrameType 9"]
  by (simp add: validate_payload_shape_v1_def)

end
