(* ===== verification/Wire_Template.thy ===== *)
theory Wire_Template
  imports Wire_Frame
begin

text \<open>
  The three template payloads (\<^verbatim>\<open>internal/protocol/template.go\<close>): TEMPLATE_DEFINE,
  TEMPLATE_REF and TEMPLATE_INLINE, each with its builder and its parser. A payload handed
  to a parser is the slice \<^verbatim>\<open>ReadFrame\<close> has just allocated, so its capacity is its length
  and every read past the end is a panic.
\<close>

section \<open>Builders and parsers\<close>

type_synonym segment_type = u8

definition SegConstBytes :: segment_type where [simp]: "SegConstBytes = 0x01"
definition SegVarLane :: segment_type where [simp]: "SegVarLane = 0x02"

definition get_byte :: "bytes \<Rightarrow> nat \<Rightarrow> go_error + byte" where
  "get_byte p i = (if i < length p then Inr (p ! i) else Inl GoPanic)"

definition len_u16 :: "bytes \<Rightarrow> bytes" where
  "len_u16 xs = put_u16 (of_nat (length xs))"

definition build_template_define_payload :: "u16 \<times> bytes \<times> bytes \<Rightarrow> go_error + bytes" where
  "build_template_define_payload = (\<lambda>(templateID, constA, constB).
     (let total = 2 + 1 + (1 + 2 + length constA) + (1 + 2) + (1 + 2 + length constB)
      in if total > MaxFramePayloadBytes then Inl (ErrPayloadTooLarge total)
         else Inr (put_u16 templateID @ [3]
                   @ [SegConstBytes] @ len_u16 constA @ constA
                   @ [SegVarLane] @ put_u16 0
                   @ [SegConstBytes] @ len_u16 constB @ constB)))"

definition parse_template_define_payload :: "bytes \<Rightarrow> go_error + (u16 \<times> bytes \<times> bytes)" where
  "parse_template_define_payload p =
    (if length p < 3 then Inl ErrTooShort
     else case get_u16 p 0 of Inl e \<Rightarrow> Inl e | Inr templateID \<Rightarrow>
      (let segCount = unat (p ! 2)
       in if segCount \<noteq> 3 then Inl (ErrSegmentCount segCount)
       else (case get_byte p 3 of Inl e \<Rightarrow> Inl e | Inr t0 \<Rightarrow>
        if t0 \<noteq> SegConstBytes then Inl ErrSegNotConst
        else (case get_u16 p 4 of Inl e \<Rightarrow> Inl e | Inr a \<Rightarrow>
         (let aLen = unat a; i = 6
          in if i + aLen > length p then Inl ErrBadLength
          else let constA = take aLen (drop i p); i = i + aLen
          in if i \<ge> length p \<or> p ! i \<noteq> SegVarLane then Inl ErrSegNotVar
          else let i = i + 1
          in if i + 2 > length p then Inl ErrBadVarSegment
          else let i = i + 2
          in if i \<ge> length p \<or> p ! i \<noteq> SegConstBytes then Inl ErrSegNotConst
          else let i = i + 1
          in if i + 2 > length p then Inl ErrBadLength
          else (case get_u16 p i of Inl e \<Rightarrow> Inl e | Inr b \<Rightarrow>
           (let bLen = unat b; i = i + 2
            in if i + bLen > length p then Inl ErrBadLength
            else Inr (templateID, constA, take bLen (drop i p)))))))))"

definition build_template_ref_payload :: "u16 \<times> bytes \<Rightarrow> go_error + bytes" where
  "build_template_ref_payload = (\<lambda>(templateID, lane).
     (let total = 2 + 1 + 2 + length lane
      in if total > MaxFramePayloadBytes then Inl (ErrPayloadTooLarge total)
         else Inr (put_u16 templateID @ [1] @ len_u16 lane @ lane)))"

definition parse_template_ref_payload :: "bytes \<Rightarrow> go_error + (u16 \<times> bytes)" where
  "parse_template_ref_payload p =
    (if length p < 5 then Inl ErrTooShort
     else case get_u16 p 0 of Inl e \<Rightarrow> Inl e | Inr templateID \<Rightarrow>
      if p ! 2 \<noteq> 1 then Inl ErrLaneCount
      else (case get_u16 p 3 of Inl e \<Rightarrow> Inl e | Inr l \<Rightarrow>
       (let lLen = unat l; i = 5
        in if i + lLen > length p then Inl ErrBadLength
        else Inr (templateID, take lLen (drop i p)))))"

definition build_template_inline_payload ::
    "u16 \<times> bytes \<times> bytes \<times> bytes \<Rightarrow> go_error + bytes" where
  "build_template_inline_payload = (\<lambda>(templateID, constA, constB, lane).
     (let total = 2 + 2 + length constA + 2 + length constB + 2 + length lane
      in if total > MaxFramePayloadBytes then Inl (ErrPayloadTooLarge total)
         else Inr (put_u16 templateID @ len_u16 constA @ constA
                   @ len_u16 constB @ constB @ len_u16 lane @ lane)))"

definition parse_template_inline_payload ::
    "bytes \<Rightarrow> go_error + (u16 \<times> bytes \<times> bytes \<times> bytes)" where
  "parse_template_inline_payload p =
    (if length p < 2 + 2 + 2 + 2 then Inl ErrTooShort
     else case get_u16 p 0 of Inl e \<Rightarrow> Inl e | Inr templateID \<Rightarrow>
      (case get_u16 p 2 of Inl e \<Rightarrow> Inl e | Inr a \<Rightarrow>
       (let aLen = unat a; i = 4
        in if i + aLen > length p then Inl ErrBadLength
        else let constA = take aLen (drop i p); i = i + aLen
        in (case get_u16 p i of Inl e \<Rightarrow> Inl e | Inr b \<Rightarrow>
         (let bLen = unat b; i = i + 2
          in if i + bLen > length p then Inl ErrBadLength
          else let constB = take bLen (drop i p); i = i + bLen
          in (case get_u16 p i of Inl e \<Rightarrow> Inl e | Inr l \<Rightarrow>
           (let lLen = unat l; i = i + 2
            in if i + lLen > length p then Inl ErrBadLength
            else Inr (templateID, constA, constB, take lLen (drop i p)))))))))"

section \<open>The codec interface\<close>

text \<open>
  What the encoder and the decoder rely on: every value that fits its length fields has an
  encoding, and parsing that encoding gives the value back.
\<close>

locale payload_codec =
  fixes build :: "'a \<Rightarrow> go_error + bytes"
    and parse :: "bytes \<Rightarrow> go_error + 'a"
    and fits :: "'a \<Rightarrow> bool"
  assumes build_fits: "fits x \<Longrightarrow> \<exists>p. build x = Inr p \<and> length p \<le> MaxFramePayloadBytes"
    and parse_build: "fits x \<Longrightarrow> build x = Inr p \<Longrightarrow> parse p = Inr x"
begin

lemma roundtrip:
  "fits x \<Longrightarrow> \<exists>p. build x = Inr p \<and> length p \<le> MaxFramePayloadBytes \<and> parse p = Inr x"
  using build_fits parse_build by blast

lemma build_inj: "fits x \<Longrightarrow> fits y \<Longrightarrow> build x = build y \<Longrightarrow> x = y"
  by (metis Inr_inject build_fits parse_build)

end

lemma len_u16_get [simp]:
  "length pre = i \<Longrightarrow> length xs < 65536 \<Longrightarrow>
     get_u16 (pre @ len_u16 xs @ post) i = Inr (of_nat (length xs))"
  by (simp add: len_u16_def)

lemma length_len_u16 [simp]: "length (len_u16 xs) = 2"
  by (simp add: len_u16_def)

definition define_fits :: "u16 \<times> bytes \<times> bytes \<Rightarrow> bool" where
  "define_fits = (\<lambda>(_, a, b). length a < 65536 \<and> length b < 65536)"

definition ref_fits :: "u16 \<times> bytes \<Rightarrow> bool" where
  "ref_fits = (\<lambda>(_, l). length l < 65536)"

definition inline_fits :: "u16 \<times> bytes \<times> bytes \<times> bytes \<Rightarrow> bool" where
  "inline_fits = (\<lambda>(_, a, b, l). length a < 65536 \<and> length b < 65536 \<and> length l < 65536)"

subsection \<open>Field positions\<close>

text \<open>Reading a field at a known offset of a concatenation.\<close>

lemma get_u16_at:
  assumes "p = pre @ put_u16 v @ post" "length pre = i"
  shows "get_u16 p i = Inr v"
  using assms by simp

lemma slice_at:
  assumes "p = pre @ xs @ post" "length pre = i" "length xs = n"
  shows "take n (drop i p) = xs"
  using assms by simp

lemma nth_at:
  assumes "p = pre @ x # post" "length pre = i"
  shows "p ! i = x"
  using assms by (metis nth_append_length)

lemma parse_define_image:
  assumes "length a < 65536" "length b < 65536"
  shows "parse_template_define_payload
    (put_u16 tid @ [3] @ [SegConstBytes] @ len_u16 a @ a @ [SegVarLane] @ put_u16 0
      @ [SegConstBytes] @ len_u16 b @ b) = Inr (tid, a, b)"
    (is "parse_template_define_payload ?p = _")
proof -
  let ?i = "6 + length a"
  have len: "length ?p = 12 + length a + length b" by simp
  have tid: "get_u16 ?p 0 = Inr tid" by (rule get_u16_at [where pre = "[]"]) simp_all
  have cnt: "?p ! 2 = 3" by (rule nth_at [where pre = "put_u16 tid"]) simp_all
  have s0: "get_byte ?p 3 = Inr SegConstBytes"
    using nth_at [of ?p "put_u16 tid @ [3]" SegConstBytes _ 3] len by (simp add: get_byte_def)
  have al: "get_u16 ?p 4 = Inr (of_nat (length a))"
    by (rule get_u16_at [where pre = "put_u16 tid @ [3, SegConstBytes]"]) (simp_all add: len_u16_def)
  have a: "take (length a) (drop 6 ?p) = a"
    by (rule slice_at [where pre = "put_u16 tid @ [3, SegConstBytes] @ len_u16 a"]) simp_all
  have v: "?p ! ?i = SegVarLane"
    by (rule nth_at [where pre = "put_u16 tid @ [3, SegConstBytes] @ len_u16 a @ a"]) simp_all
  have s2: "?p ! (?i + 1 + 2) = SegConstBytes"
    by (rule nth_at [where pre = "put_u16 tid @ [3, SegConstBytes] @ len_u16 a @ a @ [SegVarLane]
      @ put_u16 0"]) simp_all
  have bl: "get_u16 ?p (?i + 1 + 2 + 1) = Inr (of_nat (length b))"
    by (rule get_u16_at [where pre = "put_u16 tid @ [3, SegConstBytes] @ len_u16 a @ a
      @ [SegVarLane] @ put_u16 0 @ [SegConstBytes]"]) (simp_all add: len_u16_def)
  have b: "take (length b) (drop (?i + 1 + 2 + 1 + 2) ?p) = b"
    by (rule slice_at [where pre = "put_u16 tid @ [3, SegConstBytes] @ len_u16 a @ a
      @ [SegVarLane] @ put_u16 0 @ [SegConstBytes] @ len_u16 b" and post = "[]"]) simp_all
  have n: "unat (of_nat (length a) :: u16) = length a" "unat (of_nat (length b) :: u16) = length b"
    using assms by simp_all
  show ?thesis
    unfolding parse_template_define_payload_def len tid cnt sum.case s0 al Let_def n a v s2 bl b
    by simp
qed

lemma parse_ref_image:
  assumes "length l < 65536"
  shows "parse_template_ref_payload (put_u16 tid @ [1] @ len_u16 l @ l) = Inr (tid, l)"
    (is "parse_template_ref_payload ?p = _")
proof -
  have len: "length ?p = 5 + length l" by simp
  have tid: "get_u16 ?p 0 = Inr tid" by (rule get_u16_at [where pre = "[]"]) simp_all
  have cnt: "?p ! 2 = 1" by (rule nth_at [where pre = "put_u16 tid"]) simp_all
  have ll: "get_u16 ?p 3 = Inr (of_nat (length l))"
    by (rule get_u16_at [where pre = "put_u16 tid @ [1]"]) (simp_all add: len_u16_def)
  have l: "take (length l) (drop 5 ?p) = l"
    by (rule slice_at [where pre = "put_u16 tid @ [1] @ len_u16 l" and post = "[]"]) simp_all
  have n: "unat (of_nat (length l) :: u16) = length l" using assms by simp
  show ?thesis
    unfolding parse_template_ref_payload_def len tid cnt sum.case ll Let_def n l by simp
qed

lemma parse_inline_image:
  assumes "length a < 65536" "length b < 65536" "length l < 65536"
  shows "parse_template_inline_payload
    (put_u16 tid @ len_u16 a @ a @ len_u16 b @ b @ len_u16 l @ l) = Inr (tid, a, b, l)"
    (is "parse_template_inline_payload ?p = _")
proof -
  let ?i = "4 + length a"
  have len: "length ?p = 8 + length a + length b + length l" by simp
  have tid: "get_u16 ?p 0 = Inr tid" by (rule get_u16_at [where pre = "[]"]) simp_all
  have al: "get_u16 ?p 2 = Inr (of_nat (length a))"
    by (rule get_u16_at [where pre = "put_u16 tid"]) (simp_all add: len_u16_def)
  have a: "take (length a) (drop 4 ?p) = a"
    by (rule slice_at [where pre = "put_u16 tid @ len_u16 a"]) simp_all
  have bl: "get_u16 ?p ?i = Inr (of_nat (length b))"
    by (rule get_u16_at [where pre = "put_u16 tid @ len_u16 a @ a"]) (simp_all add: len_u16_def)
  have b: "take (length b) (drop (?i + 2) ?p) = b"
    by (rule slice_at [where pre = "put_u16 tid @ len_u16 a @ a @ len_u16 b"]) simp_all
  have ll: "get_u16 ?p (?i + 2 + length b) = Inr (of_nat (length l))"
    by (rule get_u16_at [where pre = "put_u16 tid @ len_u16 a @ a @ len_u16 b @ b"])
      (simp_all add: len_u16_def)
  have l: "take (length l) (drop (?i + 2 + length b + 2) ?p) = l"
    by (rule slice_at [where pre = "put_u16 tid @ len_u16 a @ a @ len_u16 b @ b @ len_u16 l"
      and post = "[]"]) simp_all
  have n: "unat (of_nat (length a) :: u16) = length a" "unat (of_nat (length b) :: u16) = length b"
      "unat (of_nat (length l) :: u16) = length l"
    using assms by simp_all
  show ?thesis
    unfolding parse_template_inline_payload_def len tid sum.case al Let_def n a bl b ll l by simp
qed

interpretation define_codec:
  payload_codec build_template_define_payload parse_template_define_payload define_fits
  by unfold_locales
    (auto simp: build_template_define_payload_def define_fits_def Let_def MaxFramePayloadBytes_def
      parse_define_image [simplified] split: if_splits)

interpretation ref_codec:
  payload_codec build_template_ref_payload parse_template_ref_payload ref_fits
  by unfold_locales
    (auto simp: build_template_ref_payload_def ref_fits_def Let_def MaxFramePayloadBytes_def
      parse_ref_image [simplified] split: if_splits)

interpretation inline_codec:
  payload_codec build_template_inline_payload parse_template_inline_payload inline_fits
  by unfold_locales
    (auto simp: build_template_inline_payload_def inline_fits_def Let_def MaxFramePayloadBytes_def
      parse_inline_image [simplified] split: if_splits)

section \<open>Properties of the payload codecs\<close>

subsection \<open>What a parser can return\<close>

lemma get_u16_panic: "get_u16 p i = Inl e \<Longrightarrow> e = GoPanic \<and> length p < i + 2"
  by (auto simp: get_u16_def split: if_splits)

lemma get_byte_panic: "get_byte p i = Inl e \<Longrightarrow> e = GoPanic \<and> length p \<le> i"
  by (auto simp: get_byte_def split: if_splits)

lemma parse_define_InrD:
  assumes "parse_template_define_payload p = Inr (tid, a, b)"
  shows "length a < 65536 \<and> length b < 65536 \<and> 12 + length a + length b \<le> length p"
proof -
  from assms obtain x y where l: "6 + unat (x :: u16) \<le> length p"
    "6 + unat x + 6 + unat (y :: u16) \<le> length p"
    and ab: "a = take (unat x) (drop 6 p)" "b = take (unat y) (drop (6 + unat x + 6) p)"
    by (auto simp: parse_template_define_payload_def Let_def not_less
        split: if_splits sum.splits)
  from l have len: "length a = unat x" "length b = unat y" unfolding ab by simp_all
  have "unat x < 65536" "unat y < 65536" by (rule unat_u16_lt)+
  with l len show ?thesis by linarith
qed

lemma parse_ref_InrD:
  assumes "parse_template_ref_payload p = Inr (tid, l)"
  shows "length l < 65536 \<and> 5 + length l \<le> length p"
proof -
  from assms obtain x where le: "5 + unat (x :: u16) \<le> length p"
    and l: "l = take (unat x) (drop 5 p)"
    by (auto simp: parse_template_ref_payload_def Let_def not_less split: if_splits sum.splits)
  then have "length l = unat x" by simp
  then show ?thesis using le unat_u16_lt [of x] by linarith
qed

text \<open>
  C25: DEFINE payloads survive the wire, if both constants are shorter than 65536 bytes (their
  length fields have 16 bits): \<^verbatim>\<open>BuildTemplateDefinePayload\<close> then succeeds within the frame limit
  and \<^verbatim>\<open>ParseTemplateDefinePayload\<close> returns exactly the template it was given. For longer
  constants the payload is built all the same and is not read back
  (\<open>define_payload_oversize_lost\<close>).
\<close>

theorem define_payload_roundtrip:
  assumes "length a < 65536" "length b < 65536"
  shows "\<exists>p. build_template_define_payload (tid, a, b) = Inr p \<and>
    length p \<le> MaxFramePayloadBytes \<and> parse_template_define_payload p = Inr (tid, a, b)"
  using define_codec.roundtrip [of "(tid, a, b)"] assms by (simp add: define_fits_def)

theorem define_payload_roundtrip_witness:
  "\<exists>p. build_template_define_payload (7, str ''k='', str '','') = Inr p \<and>
    length p \<le> MaxFramePayloadBytes \<and>
    parse_template_define_payload p = Inr (7, str ''k='', str '','')"
  by (rule define_payload_roundtrip) (simp_all add: str_def)

text \<open>
  REF and INLINE payloads survive the wire under the same conditions.
\<close>

theorem ref_inline_payload_roundtrip:
  assumes "length a < 65536" "length b < 65536" "length l < 65536"
  shows "(\<exists>p. build_template_ref_payload (tid, l) = Inr p \<and>
      length p \<le> MaxFramePayloadBytes \<and> parse_template_ref_payload p = Inr (tid, l)) \<and>
    (\<exists>p. build_template_inline_payload (tid, a, b, l) = Inr p \<and>
      length p \<le> MaxFramePayloadBytes \<and>
      parse_template_inline_payload p = Inr (tid, a, b, l))"
  using ref_codec.roundtrip [of "(tid, l)"] inline_codec.roundtrip [of "(tid, a, b, l)"] assms
  by (simp add: ref_fits_def inline_fits_def)

theorem ref_inline_payload_roundtrip_witness:
  "(\<exists>p. build_template_ref_payload (7, str ''42'') = Inr p \<and>
      length p \<le> MaxFramePayloadBytes \<and> parse_template_ref_payload p = Inr (7, str ''42'')) \<and>
    (\<exists>p. build_template_inline_payload (7, str ''k='', str '','', str ''42'') = Inr p \<and>
      length p \<le> MaxFramePayloadBytes \<and>
      parse_template_inline_payload p = Inr (7, str ''k='', str '','', str ''42''))"
  by (rule ref_inline_payload_roundtrip) (simp_all add: str_def)

text \<open>
  The builders do not check that a length fits its 16-bit field: a DEFINE payload with a
  constant of 65536 bytes or more is built without an error (as long as it stays within the
  frame limit), and no receiver can read the template back from it.
\<close>

theorem define_payload_oversize_lost:
  assumes "65536 \<le> length a \<or> 65536 \<le> length b"
    and "length a + length b + 12 \<le> MaxFramePayloadBytes"
  shows "\<exists>p. build_template_define_payload (tid, a, b) = Inr p \<and>
    parse_template_define_payload p \<noteq> Inr (tid, a, b)"
proof -
  obtain p where p: "build_template_define_payload (tid, a, b) = Inr p"
    using assms(2) by (auto simp: build_template_define_payload_def Let_def)
  moreover have "parse_template_define_payload p \<noteq> Inr (tid, a, b)"
    using assms(1) parse_define_InrD [of p tid a b] by auto
  ultimately show ?thesis by blast
qed

theorem define_payload_oversize_lost_witness:
  "\<exists>p. build_template_define_payload (7, replicate 65536 0, str '','') = Inr p \<and>
    parse_template_define_payload p \<noteq> Inr (7, replicate 65536 0, str '','')"
  by (rule define_payload_oversize_lost) (simp_all add: str_def MaxFramePayloadBytes_def)

text \<open>
  C29: Which DEFINE payloads crash the receiver. The only length check before the first
  segment is \<^verbatim>\<open>len(p) < 3\<close>. The parser runs past the end and panics on exactly two kinds of
  payload: those of three bytes with segment count 3, and those of four or five bytes with
  segment count 3 whose fourth byte is the CONST marker. Every other payload, also one of four
  or five bytes with another fourth byte, is parsed or rejected with an error value.
\<close>

theorem define_payload_panic_iff:
  "parse_template_define_payload p = Inl GoPanic \<longleftrightarrow>
     3 \<le> length p \<and> length p \<le> 5 \<and> p ! 2 = 3 \<and>
     (length p = 3 \<or> p ! 3 = SegConstBytes)"
proof -
  have seg: "unat (p ! 2) = 3 \<longleftrightarrow> p ! 2 = 3" by (simp add: word_unat_eq_iff)
  show ?thesis
    by (auto simp: parse_template_define_payload_def Let_def get_u16_def get_byte_def seg)
qed

text \<open>
  \<^verbatim>\<open>ParseTemplateRefPayload\<close> never panics, on any payload.
\<close>

theorem ref_payload_never_panics: "parse_template_ref_payload p \<noteq> Inl GoPanic"
  by (auto simp: parse_template_ref_payload_def Let_def get_u16_def)

text \<open>
  INLINE payloads can crash the receiver: whenever the declared first constant leaves
  fewer than two bytes for the next length field, \<^verbatim>\<open>ParseTemplateInlinePayload\<close> reads past
  the end and panics.
\<close>

theorem inline_payload_panics:
  assumes "8 \<le> length p"
    and "4 + unat (join_u16 (p ! 2) (p ! 3)) \<le> length p"
    and "length p < 4 + unat (join_u16 (p ! 2) (p ! 3)) + 2"
  shows "parse_template_inline_payload p = Inl GoPanic"
  using assms by (simp add: parse_template_inline_payload_def Let_def get_u16_def)

theorem inline_payload_panics_witness:
  "parse_template_inline_payload [0, 0, 0, 4, 0, 0, 0, 0] = Inl GoPanic"
  by (rule inline_payload_panics) (simp_all add: join_u16_def)

end
