(* ===== verification/Raw_Window.thy ===== *)
theory Raw_Window
  imports Enzo_Prelude
begin

text \<open>
  The sliding FIFO observer of recently seen bytes (\<^verbatim>\<open>internal/memory/rawwindow.go\<close>): a ring
  buffer with a write index, refined against its specification \<open>the last cap bytes ever
  appended\<close>. The interface the encoder and the decoder use is the locale
  \<open>stream_observer\<close>.
\<close>

section \<open>The ring buffer\<close>

record raw_window =
  buf :: bytes
  head :: nat
  wsize :: nat

definition new_raw_window :: "int \<Rightarrow> go_error + raw_window" where
  "new_raw_window sizeBytes =
     (if sizeBytes \<le> 0 then Inl GoPanic
      else Inr \<lparr>buf = replicate (nat sizeBytes) 0, head = 0, wsize = 0\<rparr>)"

definition rw_cap :: "raw_window \<Rightarrow> nat" where
  "rw_cap w = length (buf w)"

definition rw_len :: "raw_window \<Rightarrow> nat" where
  "rw_len w = wsize w"

text \<open>\<^verbatim>\<open>copy(dst[i:i+len(src)], src)\<close> on a range inside \<^verbatim>\<open>dst\<close>.\<close>

definition copy_at :: "'a list \<Rightarrow> nat \<Rightarrow> 'a list \<Rightarrow> 'a list" where
  "copy_at dst i src = take i dst @ src @ drop (i + length src) dst"

definition copy_into_ring :: "bytes \<Rightarrow> raw_window \<Rightarrow> raw_window" where
  "copy_into_ring p w =
    (let capacity = length (buf w) in
     if capacity = 0 \<or> length p = 0 then w
     else
       let remaining = length p;
           n = (if capacity - head w > remaining then remaining else capacity - head w);
           w = w\<lparr>buf := copy_at (buf w) (head w) (take n p), head := (head w + n) mod capacity\<rparr>;
           remaining = remaining - n;
           src = n
       in if remaining > 0
          then w\<lparr>buf := copy_at (buf w) 0 (take remaining (drop src p)),
                 head := remaining mod capacity\<rparr>
          else w)"

definition rw_append :: "bytes \<Rightarrow> raw_window \<Rightarrow> raw_window" where
  "rw_append p w =
    (if length p = 0 then w
     else
       let capacity = length (buf w) in
       if capacity = 0 then w
       else if length p \<ge> capacity
       then (copy_into_ring (drop (length p - capacity) p) w)\<lparr>wsize := capacity\<rparr>
       else
         let newSize = wsize w + length p;
             newSize = (if newSize > capacity then capacity else newSize)
         in (copy_into_ring p w)\<lparr>wsize := newSize\<rparr>)"

definition rw_snapshot :: "raw_window \<Rightarrow> bytes" where
  "rw_snapshot w =
    (if wsize w = 0 then []
     else
       let capacity = length (buf w);
           start = int (head w) - int (wsize w);
           start = nat (if start < 0 then start + int capacity else start)
       in if start + wsize w \<le> capacity then take (wsize w) (drop start (buf w))
          else let firstLen = capacity - start
               in drop start (buf w) @ take (wsize w - firstLen) (buf w))"

section \<open>Refinement to the last bytes of the history\<close>

definition lastn :: "nat \<Rightarrow> 'a list \<Rightarrow> 'a list" where
  "lastn n xs = drop (length xs - n) xs"

lemma length_lastn [simp]: "length (lastn n xs) = min n (length xs)"
  by (simp add: lastn_def)

lemma lastn_all [simp]: "length xs \<le> n \<Longrightarrow> lastn n xs = xs"
  by (simp add: lastn_def)

lemma lastn_lastn_append: "lastn n (lastn n xs @ ys) = lastn n (xs @ ys)"
  by (cases "length xs \<le> n") (simp_all add: lastn_def add.commute)

lemma lastn_append_long: "n \<le> length ys \<Longrightarrow> lastn n (xs @ ys) = lastn n ys"
  by (simp add: lastn_def)

definition rw_inv :: "raw_window \<Rightarrow> bool" where
  "rw_inv w \<longleftrightarrow> 0 < length (buf w) \<and> head w < length (buf w) \<and> wsize w \<le> length (buf w)"

text \<open>The ring read from its oldest slot to its newest.\<close>

definition unrolled :: "raw_window \<Rightarrow> bytes" where
  "unrolled w = drop (head w) (buf w) @ take (head w) (buf w)"

lemma length_unrolled [simp]: "head w \<le> length (buf w) \<Longrightarrow> length (unrolled w) = length (buf w)"
  by (simp add: unrolled_def)

lemma length_copy_at [simp]:
  "i + length src \<le> length dst \<Longrightarrow> length (copy_at dst i src) = length dst"
  by (simp add: copy_at_def)

lemma snapshot_unrolled:
  assumes "rw_inv w"
  shows "rw_snapshot w = lastn (wsize w) (unrolled w)"
proof -
  let ?c = "length (buf w)" and ?h = "head w" and ?s = "wsize w"
  have b: "?h < ?c" "?s \<le> ?c" using assms by (auto simp: rw_inv_def)
  show ?thesis
  proof (cases "?h < ?s")
    case False
    then have "lastn ?s (unrolled w) = drop (?h - ?s) (take ?h (buf w))"
      using b by (simp add: lastn_def unrolled_def)
    also have "\<dots> = take ?s (drop (?h - ?s) (buf w))" using False by (simp add: drop_take)
    finally show ?thesis using False b
      by (auto simp: rw_snapshot_def Let_def nat_diff_distrib lastn_def unrolled_def)
  next
    case True
    have st: "nat (int ?h - int ?s + int ?c) = ?c - (?s - ?h)" using True b by linarith
    have "lastn ?s (unrolled w) = drop (?c - ?s) (drop ?h (buf w)) @ take ?h (buf w)"
      using b True by (simp add: lastn_def unrolled_def)
    also have "\<dots> = drop (?c - (?s - ?h)) (buf w) @ take ?h (buf w)"
      using b True by (simp add: add.commute)
    finally show ?thesis using True b
      by (auto simp: rw_snapshot_def Let_def st nat_minus_as_int)
  qed
qed

lemma copy_ring_one_piece:
  assumes "rw_inv w" "length p \<le> length (buf w) - head w" "p \<noteq> []"
  shows "copy_into_ring p w =
    w\<lparr>buf := copy_at (buf w) (head w) p, head := (head w + length p) mod length (buf w)\<rparr>"
proof -
  have "length (buf w) \<noteq> 0" using assms(1) by (auto simp: rw_inv_def)
  moreover have "(if length (buf w) - head w > length p then length p
      else length (buf w) - head w) = length p"
    using assms(2) by simp
  ultimately show ?thesis using assms(3) by (simp add: copy_into_ring_def Let_def)
qed

lemma copy_ring_two_pieces:
  assumes "rw_inv w" "length (buf w) - head w < length p"
  shows "copy_into_ring p w =
    w\<lparr>buf := copy_at (copy_at (buf w) (head w) (take (length (buf w) - head w) p)) 0
               (drop (length (buf w) - head w) p),
      head := (length p - (length (buf w) - head w)) mod length (buf w)\<rparr>"
proof -
  have "length (buf w) \<noteq> 0" using assms(1) by (auto simp: rw_inv_def)
  moreover have "(if length (buf w) - head w > length p then length p
      else length (buf w) - head w) = length (buf w) - head w"
    using assms(2) by simp
  ultimately show ?thesis using assms(2) by (auto simp: copy_into_ring_def Let_def)
qed

lemma copy_into_ring_size [simp]: "wsize (copy_into_ring p w) = wsize w"
  by (simp add: copy_into_ring_def Let_def)

lemma copy_into_ring_unrolled:
  assumes inv: "rw_inv w" and len: "length p \<le> length (buf w)"
  shows "unrolled (copy_into_ring p w) = drop (length p) (unrolled w @ p) \<and>
    length (buf (copy_into_ring p w)) = length (buf w) \<and> rw_inv (copy_into_ring p w)"
proof -
  let ?c = "length (buf w)" and ?h = "head w" and ?n = "length (buf w) - head w"
  have b: "?h < ?c" "0 < ?c" using inv by (auto simp: rw_inv_def)
  consider "p = []" | "p \<noteq> []" "length p < ?n" | "length p = ?n" | "?n < length p" by linarith
  then show ?thesis
  proof cases
    case 1
    then have "copy_into_ring p w = w" by (simp add: copy_into_ring_def Let_def)
    with 1 inv show ?thesis by simp
  next
    case 2
    then have "copy_into_ring p w = w\<lparr>buf := copy_at (buf w) ?h p, head := ?h + length p\<rparr>"
      using copy_ring_one_piece [OF inv _ 2(1)] by simp
    then show ?thesis using 2 b inv
      by (simp add: unrolled_def copy_at_def rw_inv_def add.commute less_diff_conv)
  next
    case 3
    then have "copy_into_ring p w = w\<lparr>buf := copy_at (buf w) ?h p, head := 0\<rparr>"
      using copy_ring_one_piece [OF inv, of p] b by force
    then show ?thesis using 3 b inv
      by (simp add: unrolled_def copy_at_def rw_inv_def)
  next
    case 4
    let ?r = "length p - ?n"
    have r: "0 < ?r" "?r \<le> ?h" using 4 len b by linarith+
    have "copy_into_ring p w =
        w\<lparr>buf := copy_at (copy_at (buf w) ?h (take ?n p)) 0 (drop ?n p), head := ?r\<rparr>"
      using copy_ring_two_pieces [OF inv 4] r b by simp
    moreover have "copy_at (copy_at (buf w) ?h (take ?n p)) 0 (drop ?n p) =
        drop ?n p @ drop ?r (take ?h (buf w)) @ take ?n p"
      using 4 b r by (simp add: copy_at_def drop_take)
    ultimately show ?thesis using 4 b r inv
      by (simp add: unrolled_def rw_inv_def)
  qed
qed

section \<open>The observer interface\<close>

locale stream_observer =
  fixes capacity :: "'w \<Rightarrow> nat"
    and content :: "'w \<Rightarrow> bytes"
    and observe :: "bytes \<Rightarrow> 'w \<Rightarrow> 'w"
    and inv :: "'w \<Rightarrow> bool"
  assumes inv_observe: "inv w \<Longrightarrow> inv (observe p w)"
    and capacity_observe: "inv w \<Longrightarrow> capacity (observe p w) = capacity w"
    and content_observe: "inv w \<Longrightarrow> content (observe p w) = lastn (capacity w) (content w @ p)"
begin

lemma inv_run: "inv w \<Longrightarrow> inv (fold observe ps w)"
  by (induction ps arbitrary: w) (auto simp: inv_observe)

lemma capacity_run: "inv w \<Longrightarrow> capacity (fold observe ps w) = capacity w"
  by (induction ps arbitrary: w) (auto simp: inv_observe capacity_observe)

lemma content_run:
  assumes "inv w" and "length (content w) \<le> capacity w"
  shows "content (fold observe ps w) = lastn (capacity w) (content w @ concat ps)"
  using assms
proof (induction ps arbitrary: w)
  case Nil
  then show ?case by simp
next
  case (Cons p ps)
  have "content (fold observe (p # ps) w) =
      lastn (capacity w) (content (observe p w) @ concat ps)"
    using Cons.IH [OF inv_observe [OF Cons.prems(1)]] Cons.prems
    by (simp add: content_observe capacity_observe)
  also have "\<dots> = lastn (capacity w) (content w @ concat (p # ps))"
    using Cons.prems by (simp add: content_observe lastn_lastn_append)
  finally show ?case .
qed

end

lemma rw_append_refines:
  assumes inv: "rw_inv w"
  shows "rw_inv (rw_append p w) \<and> rw_cap (rw_append p w) = rw_cap w \<and>
    rw_snapshot (rw_append p w) = lastn (rw_cap w) (rw_snapshot w @ p)"
proof -
  let ?c = "length (buf w)"
  have b: "0 < ?c" "wsize w \<le> ?c" "head w < ?c" using inv by (auto simp: rw_inv_def)
  have snap: "length (rw_snapshot w) = wsize w"
    using b by (simp add: snapshot_unrolled [OF inv])
  consider "p = []" | "?c \<le> length p" | "p \<noteq> []" "length p < ?c" by linarith
  then show ?thesis
  proof cases
    case 1
    then show ?thesis using inv b snap by (simp add: rw_append_def rw_cap_def)
  next
    case 2
    let ?q = "drop (length p - ?c) p"
    let ?w = "copy_into_ring ?q w"
    have q: "length ?q = ?c" using 2 by simp
    have Ru: "unrolled ?w = drop ?c (unrolled w @ ?q)" and Rl: "length (buf ?w) = ?c"
      and Ri: "rw_inv ?w"
      using copy_into_ring_unrolled [OF inv, of ?q] q by simp_all
    have u: "length (unrolled w) = ?c" using b by simp
    have eq: "rw_append p w = ?w\<lparr>wsize := ?c\<rparr>"
      using 2 b by (auto simp: rw_append_def Let_def)
    have inv': "rw_inv (?w\<lparr>wsize := ?c\<rparr>)" using Rl Ri by (simp add: rw_inv_def)
    have "rw_snapshot (rw_append p w) = ?q"
      using Ru u q unfolding eq snapshot_unrolled [OF inv'] by (simp add: unrolled_def)
    moreover have "lastn ?c (rw_snapshot w @ p) = ?q"
      using 2 by (simp add: lastn_append_long) (simp add: lastn_def)
    ultimately show ?thesis using inv' Rl by (simp add: eq rw_cap_def)
  next
    case 3
    let ?w = "copy_into_ring p w"
    let ?s = "min ?c (wsize w + length p)"
    have Ru: "unrolled ?w = drop (length p) (unrolled w @ p)" and Rl: "length (buf ?w) = ?c"
      and Ri: "rw_inv ?w"
      using copy_into_ring_unrolled [OF inv less_imp_le [OF 3(2)]] by simp_all
    have u: "length (unrolled w) = ?c" using b by simp
    have eq: "rw_append p w = ?w\<lparr>wsize := ?s\<rparr>"
      using 3 b by (auto simp: rw_append_def Let_def min_def)
    have inv': "rw_inv (?w\<lparr>wsize := ?s\<rparr>)" using Rl Ri by (simp add: rw_inv_def)
    have "rw_snapshot (rw_append p w) = lastn ?s (drop (length p) (unrolled w @ p))"
      using Ru unfolding eq snapshot_unrolled [OF inv'] by (simp add: unrolled_def)
    also have "\<dots> = lastn ?c (lastn (wsize w) (unrolled w) @ p)"
      using b 3 u by (simp add: lastn_def min_def)
    finally show ?thesis using inv' Rl
      by (simp add: eq rw_cap_def snapshot_unrolled [OF inv])
  qed
qed

interpretation window: stream_observer rw_cap rw_snapshot rw_append rw_inv
  by unfold_locales (simp_all add: rw_append_refines)

text \<open>An optional observer that has seen the bytes \<open>h\<close>, and one more append.\<close>

definition observed :: "bytes \<Rightarrow> raw_window option \<Rightarrow> bool" where
  "observed h w \<longleftrightarrow>
     (case w of None \<Rightarrow> True | Some v \<Rightarrow> rw_inv v \<and> rw_snapshot v = lastn (rw_cap v) h)"

lemma observed_append: "observed h w \<Longrightarrow> observed (h @ p) (map_option (rw_append p) w)"
  by (auto simp: observed_def rw_append_refines lastn_lastn_append split: option.splits)

lemma observed_Nil: "new_raw_window n = Inr v \<Longrightarrow> observed [] (Some v)"
  by (auto simp: observed_def new_raw_window_def rw_inv_def rw_snapshot_def split: if_splits)

section \<open>Properties\<close>

lemma new_raw_window_inv:
  "new_raw_window n = Inr w \<Longrightarrow> rw_inv w \<and> rw_cap w = nat n \<and> rw_snapshot w = []"
  by (auto simp: new_raw_window_def rw_inv_def rw_cap_def rw_snapshot_def split: if_splits)

text \<open>
  C23: The window is a sliding FIFO of its capacity. After any sequence of appends to a new
  window, whatever the chunk sizes and however often the ring wraps, \<^verbatim>\<open>Snapshot\<close> is exactly
  the last \<^verbatim>\<open>Cap()\<close> bytes of everything appended, oldest first.
\<close>

theorem raw_window_is_suffix_of_history:
  assumes "new_raw_window n = Inr w"
  shows "rw_snapshot (fold rw_append ps w) = lastn (nat n) (concat ps)"
  using window.content_run [of w ps] new_raw_window_inv [OF assms] by simp

theorem raw_window_is_suffix_of_history_witness:
  "rw_snapshot (fold rw_append [str ''abcd'', str ''ef'', str ''XYZ'']
      \<lparr>buf = replicate 8 0, head = 0, wsize = 0\<rparr>) = str ''bcdefXYZ''"
proof -
  have new: "new_raw_window 8 = Inr \<lparr>buf = replicate 8 0, head = 0, wsize = 0\<rparr>"
    by (simp add: new_raw_window_def)
  show ?thesis
    unfolding raw_window_is_suffix_of_history [OF new] by (simp add: str_def lastn_def)
qed

text \<open>
  The window never grows and its counters stay in range: every append keeps the
  capacity, the write index inside the buffer and \<^verbatim>\<open>Len() <= Cap()\<close>, and \<^verbatim>\<open>Len()\<close> is the
  number of bytes \<^verbatim>\<open>Snapshot\<close> returns.
\<close>

theorem raw_window_invariant:
  assumes "rw_inv w"
  shows "rw_inv (rw_append p w) \<and> rw_cap (rw_append p w) = rw_cap w \<and>
    rw_len (rw_append p w) \<le> rw_cap w \<and>
    length (rw_snapshot (rw_append p w)) = rw_len (rw_append p w)"
proof -
  have i: "rw_inv (rw_append p w)" and c: "rw_cap (rw_append p w) = rw_cap w"
    using rw_append_refines [OF assms] by blast+
  have "rw_len (rw_append p w) \<le> rw_cap w" using i c by (simp add: rw_inv_def rw_len_def rw_cap_def)
  moreover have "length (rw_snapshot (rw_append p w)) = rw_len (rw_append p w)"
    using i by (simp add: snapshot_unrolled rw_len_def) (simp add: rw_inv_def)
  ultimately show ?thesis using i c by blast
qed

theorem raw_window_invariant_witness:
  "rw_len (rw_append (str ''abcdef'') \<lparr>buf = [1, 2, 3, 4], head = 3, wsize = 2\<rparr>) \<le> 4"
  using raw_window_invariant [of "\<lparr>buf = [1, 2, 3, 4], head = 3, wsize = 2\<rparr>" "str ''abcdef''"]
  by (simp add: rw_inv_def rw_cap_def)

end
