(* ===== verification/Conn_State.thy ===== *)
theory Conn_State
  imports Wire_Template Raw_Window
begin

text \<open>
  Per-connection state: the operating mode and its detection (\<^verbatim>\<open>internal/connctx/context.go\<close>,
  \<^verbatim>\<open>internal/accept/listener.go\<close>), the template dictionary (\<^verbatim>\<open>internal/state/dict.go\<close>) and
  the byte counters (\<^verbatim>\<open>internal/state/stats.go\<close>).
\<close>

section \<open>Mode\<close>

datatype mode = ModeEncode | ModeDecode

definition classify_first_byte :: "byte \<Rightarrow> mode" where
  "classify_first_byte b = (if b = MagicByte then ModeDecode else ModeEncode)"

section \<open>Templates\<close>

record template =
  TID :: u16
  TConstA :: bytes
  TConstB :: bytes

type_synonym dict = "u16 \<rightharpoonup> template"

definition new_dict :: dict where
  "new_dict = Map.empty"

section \<open>Counters\<close>

record conn_stats =
  rawIn :: u64
  wireOut :: u64
  fwdRawIn :: u64
  fwdWireOut :: u64
  revRawIn :: u64
  revWireOut :: u64

definition new_conn_stats :: conn_stats where
  "new_conn_stats = \<lparr>rawIn = 0, wireOut = 0, fwdRawIn = 0, fwdWireOut = 0, revRawIn = 0,
     revWireOut = 0\<rparr>"

definition add_raw_in :: "nat \<Rightarrow> conn_stats \<Rightarrow> conn_stats" where
  "add_raw_in n s = s\<lparr>rawIn := rawIn s + of_nat n\<rparr>"

definition add_wire_out :: "nat \<Rightarrow> conn_stats \<Rightarrow> conn_stats" where
  "add_wire_out n s = s\<lparr>wireOut := wireOut s + of_nat n\<rparr>"

definition add_forward_raw :: "u64 \<Rightarrow> conn_stats \<Rightarrow> conn_stats" where
  "add_forward_raw n s = s\<lparr>rawIn := rawIn s + n, fwdRawIn := fwdRawIn s + n\<rparr>"

definition add_forward_wire :: "u64 \<Rightarrow> conn_stats \<Rightarrow> conn_stats" where
  "add_forward_wire n s = s\<lparr>wireOut := wireOut s + n, fwdWireOut := fwdWireOut s + n\<rparr>"

definition add_reverse_raw :: "u64 \<Rightarrow> conn_stats \<Rightarrow> conn_stats" where
  "add_reverse_raw n s = s\<lparr>rawIn := rawIn s + n, revRawIn := revRawIn s + n\<rparr>"

definition add_reverse_wire :: "u64 \<Rightarrow> conn_stats \<Rightarrow> conn_stats" where
  "add_reverse_wire n s = s\<lparr>wireOut := wireOut s + n, revWireOut := revWireOut s + n\<rparr>"

text \<open>The aggregates equal the sums of the directions while only the duplex helpers are used.\<close>

definition stats_balanced :: "conn_stats \<Rightarrow> bool" where
  "stats_balanced s \<longleftrightarrow>
     rawIn s = fwdRawIn s + revRawIn s \<and> wireOut s = fwdWireOut s + revWireOut s"

lemma new_conn_stats_balanced: "stats_balanced new_conn_stats"
  by (simp add: stats_balanced_def new_conn_stats_def)

lemma duplex_helpers_balanced:
  assumes "stats_balanced s"
  shows "stats_balanced (add_forward_raw n s)" "stats_balanced (add_forward_wire n s)"
    "stats_balanced (add_reverse_raw n s)" "stats_balanced (add_reverse_wire n s)"
  using assms
  by (simp_all add: stats_balanced_def add_forward_raw_def add_forward_wire_def
      add_reverse_raw_def add_reverse_wire_def)

section \<open>Mode detection and frames\<close>

text \<open>
  Mode detection and framing agree: every frame image starts with the magic byte, so a
  stream of frames is always classified for decoding, and a stream is classified for
  encoding exactly when it cannot start with a frame.
\<close>

theorem frames_are_classified_decode:
  "classify_first_byte (hd (frame_image t p)) = ModeDecode \<and>
   (classify_first_byte b = ModeEncode \<longleftrightarrow> (\<forall>t p. hd (frame_image t p) \<noteq> b))"
  by (auto simp: classify_first_byte_def frame_image_def)

end
