(* ===== verification/Go_Strings.thy ===== *)
theory Go_Strings
  imports Enzo_Prelude
begin

text \<open>
  What the program uses of Go's \<^verbatim>\<open>bytes\<close>, \<^verbatim>\<open>strings\<close> and \<^verbatim>\<open>strconv\<close>: searching, splitting
  and joining byte strings, trimming and lower-casing, and decimal and hexadecimal numbers.
  Results of a search that Go reports as \<^verbatim>\<open>-1\<close> are \<open>None\<close>.
\<close>

named_theorems text_simps \<open>evaluation of the text functions\<close>

section \<open>Searching\<close>

fun index_byte :: "byte \<Rightarrow> bytes \<Rightarrow> nat option" where
  "index_byte b [] = None"
| "index_byte b (x # xs) = (if x = b then Some 0 else map_option Suc (index_byte b xs))"

fun last_index_byte :: "byte \<Rightarrow> bytes \<Rightarrow> nat option" where
  "last_index_byte b [] = None"
| "last_index_byte b (x # xs) =
     (case last_index_byte b xs of
        Some k \<Rightarrow> Some (Suc k)
      | None \<Rightarrow> if x = b then Some 0 else None)"

definition has_prefix :: "bytes \<Rightarrow> bytes \<Rightarrow> bool" where
  "has_prefix s p \<longleftrightarrow> take (length p) s = p"

definition has_suffix :: "bytes \<Rightarrow> bytes \<Rightarrow> bool" where
  "has_suffix s p \<longleftrightarrow> length p \<le> length s \<and> drop (length s - length p) s = p"

fun index_sub :: "bytes \<Rightarrow> bytes \<Rightarrow> nat option" where
  "index_sub p [] = (if p = [] then Some 0 else None)"
| "index_sub p (x # xs) =
     (if has_prefix (x # xs) p then Some 0 else map_option Suc (index_sub p xs))"

lemma has_prefix_iff: "has_prefix s p \<longleftrightarrow> (\<exists>q. s = p @ q)"
  by (auto simp: has_prefix_def) (metis append_take_drop_id)

lemma has_prefix_append [simp]: "has_prefix (p @ q) p"
  by (simp add: has_prefix_def)

lemma has_prefix_Nil [simp]: "has_prefix s []"
  by (simp add: has_prefix_def)

lemma has_suffix_iff: "has_suffix s p \<longleftrightarrow> (\<exists>q. s = q @ p)"
  by (auto simp: has_suffix_def) (metis append_take_drop_id)

lemma index_byte_Some_iff:
  "index_byte b s = Some k \<longleftrightarrow> k < length s \<and> s ! k = b \<and> b \<notin> set (take k s)"
proof (induction s arbitrary: k)
  case Nil
  then show ?case by simp
next
  case (Cons x xs)
  then show ?case by (cases k) auto
qed

lemma index_byte_None_iff [simp]: "index_byte b s = None \<longleftrightarrow> b \<notin> set s"
  by (induction s) auto

lemma index_byte_split:
  assumes "index_byte b s = Some k"
  shows "s = take k s @ b # drop (Suc k) s \<and> b \<notin> set (take k s) \<and> k < length s"
  using assms id_take_nth_drop [of k s] by (auto simp: index_byte_Some_iff)

lemma index_byte_append [simp]:
  "b \<notin> set xs \<Longrightarrow> index_byte b (xs @ b # ys) = Some (length xs)"
  by (induction xs) auto

lemma index_byte_takeWhile:
  "index_byte b s =
     (case dropWhile (\<lambda>x. x \<noteq> b) s of
        [] \<Rightarrow> None | _ # _ \<Rightarrow> Some (length (takeWhile (\<lambda>x. x \<noteq> b) s)))"
proof (induction s)
  case Nil
  then show ?case by simp
next
  case (Cons x xs)
  show ?case
  proof (cases "x = b")
    case True
    then show ?thesis by simp
  next
    case False
    with Cons show ?thesis by (cases "dropWhile (\<lambda>x. x \<noteq> b) xs") (simp_all del: dropWhile_eq_Nil_conv)
  qed
qed

lemma last_index_byte_None_iff [simp]: "last_index_byte b s = None \<longleftrightarrow> b \<notin> set s"
  by (induction s) (auto split: option.splits)

lemma last_index_byte_Some:
  "last_index_byte b s = Some k \<Longrightarrow> k < length s \<and> s ! k = b \<and> b \<notin> set (drop (Suc k) s)"
proof (induction s arbitrary: k)
  case Nil
  then show ?case by simp
next
  case (Cons x xs)
  then show ?case by (auto split: option.splits if_splits)
qed

lemma index_sub_Some:
  "index_sub p s = Some k \<Longrightarrow> s = take k s @ p @ drop (k + length p) s \<and> k + length p \<le> length s"
proof (induction s arbitrary: k)
  case Nil
  then show ?case by (simp split: if_splits)
next
  case (Cons x xs)
  show ?case
  proof (cases "has_prefix (x # xs) p")
    case True
    with Cons.prems have "k = 0" by simp
    moreover obtain q where q: "x # xs = p @ q" using True by (auto simp: has_prefix_iff)
    ultimately show ?thesis unfolding q by simp
  next
    case False
    with Cons.prems obtain j where "index_sub p xs = Some j" "k = Suc j" by auto
    with Cons.IH [of j] show ?thesis by simp
  qed
qed

lemma index_sub_None_iff: "index_sub p s = None \<longleftrightarrow> (\<forall>a b. s \<noteq> a @ p @ b)"
proof (induction s)
  case Nil
  then show ?case by auto
next
  case (Cons x xs)
  have "(\<exists>a b. x # xs = a @ p @ b) \<longleftrightarrow> has_prefix (x # xs) p \<or> (\<exists>a b. xs = a @ p @ b)"
    unfolding has_prefix_iff
    by (metis (no_types, lifting) append_Cons append_Nil neq_Nil_conv list.inject)
  with Cons show ?case by auto
qed

lemma has_prefix_append_mono: "has_prefix s p \<Longrightarrow> has_prefix (s @ t) p"
  by (auto simp: has_prefix_iff)

lemma has_prefix_take: "has_prefix (take n s) p \<Longrightarrow> has_prefix s p"
  by (metis append_take_drop_id has_prefix_append_mono)

lemma index_sub_extend: "index_sub p s = Some k \<Longrightarrow> index_sub p (s @ t) = Some k"
proof (induction s arbitrary: k)
  case Nil
  then show ?case by (cases t) (simp_all split: if_splits)
next
  case (Cons x xs)
  show ?case
  proof (cases "has_prefix (x # xs) p")
    case True
    with Cons.prems has_prefix_append_mono [OF True, of t] show ?thesis by simp
  next
    case False
    with Cons.prems obtain j where j: "index_sub p xs = Some j" "k = Suc j" by auto
    then have len: "length p \<le> length (x # xs)" using index_sub_Some [of p xs j] by auto
    from len have "take (length p) ((x # xs) @ t) = take (length p) (x # xs)"
      by (simp only: take_append) simp
    then have "\<not> has_prefix (x # xs @ t) p" using False by (simp add: has_prefix_def)
    with Cons.IH [OF j(1)] j show ?thesis by simp
  qed
qed

lemma index_sub_cut:
  "index_sub p s = Some k \<Longrightarrow> n < k + length p \<Longrightarrow> index_sub p (take n s) = None"
proof (induction s arbitrary: k n)
  case Nil
  then show ?case by (simp split: if_splits)
next
  case (Cons x xs)
  show ?case
  proof (cases n)
    case 0
    with Cons.prems show ?thesis by (auto split: if_splits)
  next
    case (Suc m)
    show ?thesis
    proof (cases "has_prefix (x # xs) p")
      case True
      with Cons.prems have "n < length p" by simp
      then have "length (take n (x # xs)) < length p" by simp
      moreover have "length p \<le> length y" if "y = a @ p @ b" for y a b using that by simp
      ultimately have "take n (x # xs) \<noteq> a @ p @ b" for a b by (meson not_le)
      then show ?thesis unfolding index_sub_None_iff by blast
    next
      case False
      with Cons.prems obtain j where j: "index_sub p xs = Some j" "k = Suc j" by auto
      have "\<not> has_prefix (take n (x # xs)) p" using False has_prefix_take by blast
      with Cons.IH [OF j(1), of m] Cons.prems(2) j(2) Suc show ?thesis by simp
    qed
  qed
qed

section \<open>Splitting and joining\<close>

text \<open>\<^verbatim>\<open>bytes.Split(s, sep)\<close> and \<^verbatim>\<open>strings.Split\<close> for a non-empty separator (the only use).\<close>

function split_on :: "bytes \<Rightarrow> bytes \<Rightarrow> bytes list" where
  "split_on sep s =
     (case index_sub sep s of
        None \<Rightarrow> [s]
      | Some m \<Rightarrow> if sep = [] then [s]
                 else take m s # split_on sep (drop (m + length sep) s))"
  by pat_completeness auto
termination
proof (relation "measure (\<lambda>(sep, s). length s)")
  fix sep s :: bytes and m
  assume "index_sub sep s = Some m" and "sep \<noteq> []"
  then have "m + length sep \<le> length s" "0 < length sep"
    using index_sub_Some by auto
  then have "length s - (m + length sep) < length s" by linarith
  then show "((sep, drop (m + length sep) s), sep, s) \<in> measure (\<lambda>(sep, s). length s)"
    by simp
qed simp

declare split_on.simps [simp del]

fun join_with :: "bytes \<Rightarrow> bytes list \<Rightarrow> bytes" where
  "join_with sep [] = []"
| "join_with sep [x] = x"
| "join_with sep (x # y # zs) = x @ sep @ join_with sep (y # zs)"

lemma split_on_not_Nil [simp]: "split_on sep s \<noteq> []"
  by (subst split_on.simps) (simp split: option.splits)

lemma split_on_None [simp]: "index_sub sep s = None \<Longrightarrow> split_on sep s = [s]"
  by (subst split_on.simps) simp

lemma split_on_Some:
  "index_sub sep s = Some m \<Longrightarrow> sep \<noteq> [] \<Longrightarrow>
     split_on sep s = take m s # split_on sep (drop (m + length sep) s)"
  by (subst split_on.simps) simp

lemma join_with_Cons: "ls \<noteq> [] \<Longrightarrow> join_with sep (x # ls) = x @ sep @ join_with sep ls"
  by (cases ls) simp_all

lemma join_split [simp]: "sep \<noteq> [] \<Longrightarrow> join_with sep (split_on sep s) = s"
proof (induction sep s rule: split_on.induct)
  case (1 sep s)
  show ?case
  proof (cases "index_sub sep s")
    case None
    then show ?thesis by simp
  next
    case (Some m)
    then show ?thesis
      using 1 index_sub_Some [OF Some] by (simp add: split_on_Some join_with_Cons)
  qed
qed

section \<open>CRLF lines\<close>

definition CRLF :: bytes where "CRLF = [13, 10]"

lemma length_CRLF [simp]: "length CRLF = 2"
  by (simp add: CRLF_def)

lemma CRLF_not_Nil [simp]: "CRLF \<noteq> []"
  by (simp add: CRLF_def)

abbreviation crlf_free :: "bytes \<Rightarrow> bool" where
  "crlf_free l \<equiv> index_sub CRLF l = None"

lemma has_prefix_CRLF: "has_prefix s CRLF \<longleftrightarrow> (\<exists>q. s = 13 # 10 # q)"
  by (simp add: has_prefix_iff CRLF_def)

lemma crlf_free_Cons:
  "crlf_free (x # xs) \<longleftrightarrow> \<not> (x = 13 \<and> (\<exists>q. xs = 10 # q)) \<and> crlf_free xs"
  by (auto simp: has_prefix_CRLF)

lemma index_crlf [simp]: "crlf_free l \<Longrightarrow> index_sub CRLF (l @ CRLF @ r) = Some (length l)"
proof (induction l)
  case Nil
  then show ?case by (simp add: CRLF_def has_prefix_def)
next
  case (Cons x xs)
  have "\<not> has_prefix (x # xs @ CRLF @ r) CRLF"
    using Cons.prems by (cases xs) (auto simp: has_prefix_CRLF CRLF_def has_prefix_def)
  moreover have "crlf_free xs" using Cons.prems by (simp add: crlf_free_Cons del: index_sub.simps)
  ultimately show ?case using Cons.IH by simp
qed

lemma split_crlf [simp]: "crlf_free l \<Longrightarrow> split_on CRLF (l @ CRLF @ r) = l # split_on CRLF r"
  by (simp add: split_on_Some)

lemma split_crlf_lines:
  "(\<And>l. l \<in> set ls \<Longrightarrow> crlf_free l) \<Longrightarrow>
     split_on CRLF (concat (map (\<lambda>l. l @ CRLF) ls) @ r) = ls @ split_on CRLF r"
  by (induction ls) auto

lemma split_on_crlf_free: "l \<in> set (split_on CRLF s) \<Longrightarrow> crlf_free l"
proof (induction CRLF s rule: split_on.induct)
  case (1 s)
  show ?case
  proof (cases "index_sub CRLF s")
    case None
    then show ?thesis using 1 by simp
  next
    case (Some m)
    have "crlf_free (take m s)"
    proof (rule ccontr)
      assume "\<not> crlf_free (take m s)"
      then obtain a b where ab: "take m s = a @ CRLF @ b" by (auto simp: index_sub_None_iff)
      have pre: "\<exists>k. index_sub CRLF (a @ CRLF @ x) = Some k \<and> k \<le> length a" for x
        by (induction a) (auto simp: has_prefix_def CRLF_def)
      from index_sub_Some [OF Some] ab have "s = a @ CRLF @ (b @ CRLF @ drop (m + 2) s)"
        by (metis append.assoc length_CRLF)
      with pre obtain k where "index_sub CRLF s = Some k" "k \<le> length a" by metis
      with Some have "m \<le> length a" by simp
      moreover have "length (take m s) = length a + 2 + length b" by (simp add: ab)
      ultimately show False by simp
    qed
    with Some 1 show ?thesis by (auto simp: split_on_Some)
  qed
qed

lemma newline_free_crlf_free: "10 \<notin> set l \<Longrightarrow> crlf_free l"
  by (induction l) (auto simp: has_prefix_CRLF)

section \<open>Trimming and lower-casing\<close>

text \<open>
  \<^verbatim>\<open>strings.TrimSpace\<close> and \<^verbatim>\<open>strings.ToLower\<close> work byte by byte as long as they meet ASCII
  only, and hand over to the Unicode tables otherwise. Those tables are parameters: the
  record holds \<^verbatim>\<open>strings.Map(unicode.ToLower, s)\<close>, \<^verbatim>\<open>strings.TrimFunc(s, unicode.IsSpace)\<close>
  and \<^verbatim>\<open>strings.TrimRightFunc(s, unicode.IsSpace)\<close>. No property assumes anything of them.
\<close>

record unicode =
  uni_lower :: "bytes \<Rightarrow> bytes"
  uni_trim :: "bytes \<Rightarrow> bytes"
  uni_trim_right :: "bytes \<Rightarrow> bytes"

definition ascii :: "byte \<Rightarrow> bool" where
  "ascii b \<longleftrightarrow> b < 0x80"

definition ascii_space :: "byte \<Rightarrow> bool" where
  "ascii_space b \<longleftrightarrow> b \<in> {9, 10, 11, 12, 13, 32}"

definition lower_byte :: "byte \<Rightarrow> byte" where
  "lower_byte b = (if 65 \<le> b \<and> b \<le> 90 then b + 32 else b)"

definition to_lower :: "unicode \<Rightarrow> bytes \<Rightarrow> bytes" where
  "to_lower U s = (if list_all ascii s then map lower_byte s else uni_lower U s)"

definition trim_space :: "unicode \<Rightarrow> bytes \<Rightarrow> bytes" where
  "trim_space U s =
     (case dropWhile ascii_space s of
        [] \<Rightarrow> []
      | c # t \<Rightarrow>
          if \<not> ascii c then uni_trim U (c # t)
          else let r = rev (dropWhile ascii_space (rev (c # t)))
               in if \<not> ascii (last r) then uni_trim_right U r else r)"

text \<open>
  \<^verbatim>\<open>strings.EqualFold(s, t)\<close> for an ASCII \<^verbatim>\<open>t\<close> without the letters k and s, the only two
  that a non-ASCII rune folds to.
\<close>

definition equal_fold :: "bytes \<Rightarrow> bytes \<Rightarrow> bool" where
  "equal_fold s t \<longleftrightarrow> map lower_byte s = map lower_byte t"

section \<open>Numbers\<close>

definition digit_val :: "byte \<Rightarrow> nat option" where
  "digit_val c =
     (if 48 \<le> c \<and> c \<le> 57 then Some (unat (c - 48))
      else let l = c OR 0x20
           in if 97 \<le> l \<and> l \<le> 122 then Some (unat (l - 97) + 10) else None)"

fun parse_digits :: "nat \<Rightarrow> nat \<Rightarrow> bytes \<Rightarrow> nat option" where
  "parse_digits base acc [] = Some acc"
| "parse_digits base acc (c # cs) =
     (case digit_val c of
        None \<Rightarrow> None
      | Some d \<Rightarrow> if d \<ge> base then None else parse_digits base (acc * base + d) cs)"

text \<open>
  \<^verbatim>\<open>strconv.ParseInt(s, base, 64)\<close> for an explicit base, and \<^verbatim>\<open>strconv.Atoi\<close>, with
  \<open>None\<close> for any error: an optional sign, at least one digit, the range of \<^verbatim>\<open>int64\<close>.
\<close>

definition parse_int :: "nat \<Rightarrow> bytes \<Rightarrow> int option" where
  "parse_int base s =
     (case s of
        [] \<Rightarrow> None
      | c # cs \<Rightarrow>
          let neg = (c = 45); ds = (if c = 43 \<or> c = 45 then cs else s)
          in if ds = [] then None
             else (case parse_digits base 0 ds of
               None \<Rightarrow> None
             | Some n \<Rightarrow>
                 if \<not> neg \<and> int n \<ge> 2 ^ 63 then None
                 else if neg \<and> int n > 2 ^ 63 then None
                 else Some (if neg then - int n else int n)))"

definition atoi :: "bytes \<Rightarrow> int option" where
  "atoi = parse_int 10"

text \<open>\<^verbatim>\<open>strconv.FormatUint(n, base)\<close> for a base up to 16, and \<^verbatim>\<open>strconv.Itoa\<close>.\<close>

definition digit_char :: "nat \<Rightarrow> byte" where
  "digit_char d = (if d < 10 then 48 + of_nat d else 87 + of_nat d)"

fun format_uint :: "nat \<Rightarrow> nat \<Rightarrow> bytes" where
  "format_uint base n =
     (if n < base \<or> base < 2 then [digit_char n]
      else format_uint base (n div base) @ [digit_char (n mod base)])"

declare format_uint.simps [simp del]

abbreviation decimal :: "nat \<Rightarrow> bytes" where
  "decimal \<equiv> format_uint 10"

definition itoa :: "int \<Rightarrow> bytes" where
  "itoa i = (if i < 0 then 45 # decimal (nat (- i)) else decimal (nat i))"

subsection \<open>Digits\<close>

definition is_digit :: "byte \<Rightarrow> bool" where
  "is_digit b \<longleftrightarrow> 48 \<le> b \<and> b \<le> 57 \<or> 97 \<le> b \<and> b \<le> 102"

lemma digit_char_facts:
  assumes "d < 16"
  shows "is_digit (digit_char d)" "digit_val (digit_char d) = Some d"
proof -
  from assms have "d = 0 \<or> d = 1 \<or> d = 2 \<or> d = 3 \<or> d = 4 \<or> d = 5 \<or> d = 6 \<or> d = 7 \<or>
      d = 8 \<or> d = 9 \<or> d = 10 \<or> d = 11 \<or> d = 12 \<or> d = 13 \<or> d = 14 \<or> d = 15"
    by presburger
  then show "is_digit (digit_char d)" "digit_val (digit_char d) = Some d"
    by (auto simp: is_digit_def digit_val_def digit_char_def)
qed

lemma format_uint_digits: "2 \<le> base \<Longrightarrow> base \<le> 16 \<Longrightarrow> list_all is_digit (format_uint base n)"
proof (induction base n rule: format_uint.induct)
  case (1 base n)
  show ?case
  proof (cases "n < base")
    case True
    then show ?thesis using "1.prems" by (subst format_uint.simps) (simp add: digit_char_facts)
  next
    case False
    with "1.prems" have "n mod base < 16" by (meson less_le_trans mod_less_divisor zero_less_numeral)
    then show ?thesis using 1 False by (subst format_uint.simps) (simp add: digit_char_facts)
  qed
qed

lemma format_uint_not_Nil [simp]: "format_uint base n \<noteq> []"
  by (subst format_uint.simps) simp

lemma parse_digits_append:
  "parse_digits base acc (xs @ ys) =
     (case parse_digits base acc xs of None \<Rightarrow> None | Some v \<Rightarrow> parse_digits base v ys)"
  by (induction xs arbitrary: acc) (auto split: option.splits)

lemma parse_digit_char:
  "d < base \<Longrightarrow> base \<le> 16 \<Longrightarrow> parse_digits base acc [digit_char d] = Some (acc * base + d)"
  by (simp add: digit_char_facts)

lemma parse_format_uint:
  "2 \<le> base \<Longrightarrow> base \<le> 16 \<Longrightarrow> parse_digits base 0 (format_uint base n) = Some n"
proof (induction base n rule: format_uint.induct)
  case (1 base n)
  show ?case
  proof (cases "n < base")
    case True
    then have "format_uint base n = [digit_char n]"
      by (subst format_uint.simps) simp
    then show ?thesis using parse_digit_char [of n base 0] True "1.prems" by simp
  next
    case False
    with "1.prems" have c: "\<not> (n < base \<or> base < 2)" by simp
    then have "format_uint base n = format_uint base (n div base) @ [digit_char (n mod base)]"
      by (subst format_uint.simps) simp
    then show ?thesis
      using "1.IH" [OF c "1.prems"] parse_digit_char [of "n mod base" base] "1.prems"
      by (simp only: parse_digits_append option.case) simp
  qed
qed

lemma length_format_uint:
  "2 \<le> base \<Longrightarrow> n < base ^ k \<Longrightarrow> 0 < k \<Longrightarrow> length (format_uint base n) \<le> k"
proof (induction base n arbitrary: k rule: format_uint.induct)
  case (1 base n)
  show ?case
  proof (cases "n < base")
    case True
    then show ?thesis using "1.prems" by (subst format_uint.simps) simp
  next
    case False
    with "1.prems" have c: "\<not> (n < base \<or> base < 2)" by simp
    from "1.prems" obtain j where k: "k = Suc j" by (cases k) auto
    with False "1.prems" have j: "0 < j" by (cases j) auto
    have "n div base < base ^ j"
      using "1.prems" k by (simp add: less_mult_imp_div_less mult.commute)
    then have "length (format_uint base (n div base)) \<le> j"
      using "1.IH" [OF c] "1.prems" j by blast
    then show ?thesis using c k by (subst format_uint.simps) simp
  qed
qed

lemma digit_facts:
  assumes "is_digit b"
  shows "ascii b" "\<not> ascii_space b" "lower_byte b = b" "b \<noteq> 43" "b \<noteq> 45" "b \<noteq> 13" "b \<noteq> 10"
    "b \<noteq> 32" "b \<noteq> 59"
proof -
  have u: "48 \<le> unat b \<and> unat b \<le> 57 \<or> 97 \<le> unat b \<and> unat b \<le> 102"
    using assms by (auto simp: is_digit_def word_le_nat_alt)
  show "ascii b" using u by (auto simp: ascii_def word_less_nat_alt)
  show "\<not> ascii_space b" "b \<noteq> 43" "b \<noteq> 45" "b \<noteq> 13" "b \<noteq> 10" "b \<noteq> 32" "b \<noteq> 59"
    using u by (auto simp: ascii_space_def)
  show "lower_byte b = b" using u by (auto simp: lower_byte_def word_le_nat_alt)
qed

lemma parse_int_format_uint [text_simps]:
  assumes "2 \<le> base" "base \<le> 16" "n < 2 ^ 63"
  shows "parse_int base (format_uint base n) = Some (int n)"
proof -
  obtain c cs where d: "format_uint base n = c # cs" by (meson format_uint_not_Nil neq_Nil_conv)
  then have "is_digit c" using format_uint_digits [OF assms(1,2), of n] by simp
  then have "c \<noteq> 43" "c \<noteq> 45" by (rule digit_facts)+
  then show ?thesis
    using assms parse_format_uint [OF assms(1,2), of n] by (simp add: parse_int_def d Let_def)
qed

lemma trim_space_digits [text_simps]:
  assumes "list_all is_digit ds" "ds \<noteq> []" "list_all ascii_space pre" "list_all ascii_space post"
  shows "trim_space U (pre @ ds @ post) = ds"
proof -
  obtain c cs where d: "ds = c # cs" using assms(2) by (meson neq_Nil_conv)
  obtain xs z where z: "ds = xs @ [z]" using assms(2) by (metis rev_exhaust)
  have cz: "is_digit c" "is_digit z"
    using assms(1) by (simp add: d, simp add: z)
  have 1: "dropWhile ascii_space (pre @ ds @ post) = c # cs @ post"
    using assms(3) cz(1) by (simp add: d dropWhile_append3 list_all_iff digit_facts)
  have "dropWhile ascii_space (rev post @ z # rev xs) = z # rev xs"
    using assms(4) cz(2) by (simp add: dropWhile_append3 list_all_iff digit_facts)
  then have 2: "rev (dropWhile ascii_space (rev (c # cs @ post))) = ds"
    unfolding append_Cons [symmetric] d [symmetric] z by simp
  have 3: "ascii c" "ascii (last ds)"
    using cz unfolding z by (simp_all add: digit_facts)
  show ?thesis
    unfolding trim_space_def 1 list.case 2 Let_def using 3 by simp
qed

lemma to_lower_ascii [text_simps]: "list_all ascii s \<Longrightarrow> to_lower U s = map lower_byte s"
  by (simp add: to_lower_def)

end
