(* ===== verification/Http_Request.thy ===== *)
theory Http_Request
  imports Go_Streams Go_Strings
begin

text \<open>
  The HTTP adapter (\<^verbatim>\<open>internal/httpio/http_request_body.go\<close>): reading exactly one request,
  with a body framed by Content-Length or by chunked transfer encoding, from a stream.
\<close>

section \<open>Lines\<close>

definition read_line_crlf :: "reader \<Rightarrow> int \<Rightarrow> go_error + (bytes \<times> reader)" where
  "read_line_crlf r maxLen =
     (case read_bytes 10 r of
        Inl e \<Rightarrow> Inl e
      | Inr (line, r') \<Rightarrow>
          if int (length line) > maxLen then Inl ErrHTTPBodyTooLarge
          else if length line < 2 \<or> line ! (length line - 2) \<noteq> 13 \<or> line ! (length line - 1) \<noteq> 10
          then Inl ErrHTTPBadRequest
          else Inr (line, r'))"

lemma read_line_crlf_InrD:
  assumes "read_line_crlf r maxLen = Inr (line, r')"
  shows "\<exists>l. line = l @ CRLF \<and> 10 \<notin> set l \<and> rd_bytes r = line @ rd_bytes r' \<and>
    rd_end r' = rd_end r \<and> int (length line) \<le> maxLen"
proof -
  from assms have rb: "read_bytes 10 r = Inr (line, r')" and le: "int (length line) \<le> maxLen"
    and c: "2 \<le> length line" "line ! (length line - 2) = 13"
    by (auto simp: read_line_crlf_def split: sum.splits if_splits)
  from read_bytes_InrD [OF rb] obtain x where x: "line = x @ [10]" "10 \<notin> set x"
      "rd_bytes r = line @ rd_bytes r'" "rd_end r' = rd_end r"
    by auto
  then obtain y z where yz: "x = y @ [z]" using c(1) by (cases x rule: rev_exhaust) auto
  with c x have "z = 13" by (simp add: nth_append)
  with x yz le show ?thesis by (intro exI [of _ y]) (simp add: CRLF_def)
qed

lemma read_line_crlf_shorter:
  "read_line_crlf r maxLen = Inr (line, r') \<Longrightarrow> length (rd_bytes r') < length (rd_bytes r)"
  by (drule read_line_crlf_InrD) auto

lemma read_line_crlf_line:
  assumes "10 \<notin> set l" and "int (length l + 2) \<le> maxLen"
  shows "read_line_crlf \<lparr>rd_bytes = l @ CRLF @ q, rd_end = e\<rparr> maxLen =
    Inr (l @ CRLF, \<lparr>rd_bytes = q, rd_end = e\<rparr>)"
proof -
  have "read_bytes 10 \<lparr>rd_bytes = l @ CRLF @ q, rd_end = e\<rparr> =
      Inr (l @ CRLF, \<lparr>rd_bytes = q, rd_end = e\<rparr>)"
    using read_bytes_append [of 10 "l @ [13]" q e] assms(1) by (simp add: CRLF_def)
  then show ?thesis
    using assms(2) by (simp add: read_line_crlf_def nth_append CRLF_def)
qed

section \<open>Chunked bodies\<close>

text \<open>Signed 64-bit addition, and the largest slice the allocator accepts (48-bit addresses).\<close>

definition add_int64 :: "int \<Rightarrow> int \<Rightarrow> int" where
  "add_int64 a b = sint (word_of_int (a + b) :: u64)"

definition max_alloc :: int where
  "max_alloc = 2 ^ 48"

text \<open>The trailer section: lines until a blank one.\<close>

function read_trailers :: "reader \<Rightarrow> go_error + reader" where
  "read_trailers r =
     (case read_line_crlf r 1024 of
        Inl e \<Rightarrow> Inl e
      | Inr (trailer, r') \<Rightarrow> if trailer = CRLF then Inr r' else read_trailers r')"
  by pat_completeness auto
termination
  by (relation "measure (\<lambda>r. length (rd_bytes r))") (auto dest: read_line_crlf_shorter)

declare read_trailers.simps [simp del]

function read_chunked_body :: "unicode \<Rightarrow> int \<Rightarrow> bytes \<Rightarrow> reader \<Rightarrow> go_error + (bytes \<times> reader)"
where
  "read_chunked_body U maxBodyBytes body r =
     (case read_line_crlf r 64 of
        Inl e \<Rightarrow> Inl e
      | Inr (line, r1) \<Rightarrow>
         (let sizeHex = trim_space U line;
              sizeHex = (case index_byte 59 sizeHex of Some i \<Rightarrow> take i sizeHex | None \<Rightarrow> sizeHex)
          in (case parse_int 16 sizeHex of
                None \<Rightarrow> Inl ErrHTTPBadRequest
              | Some n \<Rightarrow>
                  if n < 0 then Inl ErrHTTPBadRequest
                  else if n = 0 then map_sum id (\<lambda>r2. (body, r2)) (read_trailers r1)
                  else if add_int64 (int (length body)) n > maxBodyBytes
                  then Inl ErrHTTPBodyTooLarge
                  else if n > max_alloc then Inl GoPanic
                  else (case read_full (nat n) r1 of
                     Inl e \<Rightarrow> Inl e
                   | Inr (chunk, r2) \<Rightarrow>
                      (case read_full 2 r2 of
                         Inl e \<Rightarrow> Inl e
                       | Inr (crlf, r3) \<Rightarrow>
                           if crlf \<noteq> CRLF then Inl ErrHTTPBadRequest
                           else read_chunked_body U maxBodyBytes (body @ chunk) r3)))))"
  by pat_completeness auto
termination
proof (relation "measure (\<lambda>(U, m, b, r). length (rd_bytes r))", goal_cases)
  case 1
  show ?case by simp
next
  case (2 U m body r p line r1 _ _ n q chunk r2 q' crlf r3)
  then have "length (rd_bytes r1) < length (rd_bytes r)" "rd_bytes r1 = chunk @ rd_bytes r2"
      "rd_bytes r2 = crlf @ rd_bytes r3"
    by (auto dest: read_line_crlf_shorter read_full_InrD)
  then show ?case by simp
qed

declare read_chunked_body.simps [simp del]

section \<open>Requests\<close>

record request_meta =
  Method :: bytes
  Path :: bytes
  Proto :: bytes
  TransferChunked :: bool
  ContentLength :: int
  HeaderBytes :: bytes

text \<open>
  What one header line (lower-cased, trimmed) does to the values of Transfer-Encoding and
  Content-Length seen so far, and the header loop itself.
\<close>

definition note_header :: "unicode \<Rightarrow> bytes \<Rightarrow> bytes \<times> bytes \<Rightarrow> bytes \<times> bytes" where
  "note_header U lower = (\<lambda>(transferEncoding, contentLengthStr).
     if has_prefix lower (str ''transfer-encoding:'')
     then (trim_space U (drop (length ''transfer-encoding:'') lower), contentLengthStr)
     else if has_prefix lower (str ''content-length:'')
     then (transferEncoding, trim_space U (drop (length ''content-length:'') lower))
     else (transferEncoding, contentLengthStr))"

function read_header_lines ::
    "unicode \<Rightarrow> int \<Rightarrow> bytes \<Rightarrow> bytes \<times> bytes \<Rightarrow> reader \<Rightarrow>
     go_error + (bytes \<times> (bytes \<times> bytes) \<times> reader)" where
  "read_header_lines U maxHeaderBytes hdr seen r =
     (case read_line_crlf r (maxHeaderBytes - int (length hdr)) of
        Inl e \<Rightarrow> Inl e
      | Inr (line, r') \<Rightarrow>
          if line = CRLF then Inr (hdr @ line, seen, r')
          else read_header_lines U maxHeaderBytes (hdr @ line)
                 (note_header U (to_lower U (trim_space U line)) seen) r')"
  by pat_completeness auto
termination
  by (relation "measure (\<lambda>(U, m, h, s, r). length (rd_bytes r))")
    (auto dest: read_line_crlf_shorter)

declare read_header_lines.simps [simp del]

definition read_http_request_body ::
    "unicode \<Rightarrow> reader \<Rightarrow> int \<Rightarrow> int \<Rightarrow> go_error + (request_meta \<times> bytes \<times> reader)" where
  "read_http_request_body U r maxHeaderBytes maxBodyBytes =
    (case read_line_crlf r maxHeaderBytes of
       Inl e \<Rightarrow> Inl e
     | Inr (reqLine, r1) \<Rightarrow>
      (let parts = split_on (str '' '') (trim_space U reqLine)
       in if length parts < 3 then Inl ErrHTTPBadRequest
       else (case read_header_lines U maxHeaderBytes reqLine ([], []) r1 of
          Inl e \<Rightarrow> Inl e
        | Inr (hdr, (transferEncoding, contentLengthStr), r2) \<Rightarrow>
           (let chunked = (index_sub (str ''chunked'') transferEncoding \<noteq> None);
                contentLength =
                  (if contentLengthStr = [] then Some (- 1)
                   else case parse_int 10 contentLengthStr of
                     Some n \<Rightarrow> if n < 0 then None else Some n
                   | None \<Rightarrow> None)
            in (case contentLength of
                  None \<Rightarrow> Inl ErrHTTPBadRequest
                | Some cl \<Rightarrow>
                   (let meta = \<lparr>Method = parts ! 0, Path = parts ! 1, Proto = parts ! 2,
                                TransferChunked = chunked, ContentLength = cl, HeaderBytes = hdr\<rparr>
                    in if chunked
                       then map_sum id (\<lambda>(body, r3). (meta, body, r3))
                              (read_chunked_body U maxBodyBytes [] r2)
                       else if cl \<ge> 0
                       then (if cl > maxBodyBytes then Inl ErrHTTPBodyTooLarge
                             else map_sum id (\<lambda>(body, r3). (meta, body, r3))
                                    (read_full (nat cl) r2))
                       else Inl ErrHTTPUnsupported))))))"

lemmas http_eval =
  read_http_request_body_def read_header_lines.simps read_line_crlf_def read_bytes_def
  read_full_def note_header_def to_lower_def trim_space_def ascii_def ascii_space_def
  lower_byte_def has_prefix_def split_on.simps parse_int_def digit_val_def CRLF_def str_def Let_def

section \<open>The shape of what is read\<close>

text \<open>
  A header block with the given lines: each line ends in CRLF, and a blank line ends the
  block.
\<close>

definition header_block :: "bytes list \<Rightarrow> bytes" where
  "header_block ls = concat (map (\<lambda>l. l @ CRLF) ls) @ CRLF"

text \<open>
  The values of Transfer-Encoding and Content-Length a list of header lines announces: the
  last occurrence of each counts.
\<close>

definition note_line :: "unicode \<Rightarrow> bytes \<Rightarrow> bytes \<times> bytes \<Rightarrow> bytes \<times> bytes" where
  "note_line U l = note_header U (to_lower U (trim_space U (l @ CRLF)))"

definition announced :: "unicode \<Rightarrow> bytes list \<Rightarrow> bytes \<times> bytes" where
  "announced U ls = fold (note_line U) (tl ls) ([], [])"

definition header_lines_ok :: "bytes list \<Rightarrow> bool" where
  "header_lines_ok ls \<longleftrightarrow> ls \<noteq> [] \<and> list_all (\<lambda>l. l \<noteq> [] \<and> 10 \<notin> set l) ls"

lemma read_header_lines_InrD:
  "read_header_lines U m hdr seen r = Inr (hdr', seen', r') \<Longrightarrow>
     \<exists>ls. hdr' = hdr @ header_block ls \<and> list_all (\<lambda>l. l \<noteq> [] \<and> 10 \<notin> set l) ls \<and>
       rd_bytes r = header_block ls @ rd_bytes r' \<and> rd_end r' = rd_end r \<and>
       int (length hdr') \<le> m \<and> seen' = fold (note_line U) ls seen"
proof (induction U m hdr seen r rule: read_header_lines.induct)
  case (1 U m hdr seen r)
  from "1.prems" obtain line r1 where
      line: "read_line_crlf r (m - int (length hdr)) = Inr (line, r1)"
    by (subst (asm) read_header_lines.simps) (auto split: sum.splits)
  obtain l where l: "line = l @ CRLF" "10 \<notin> set l" "rd_bytes r = line @ rd_bytes r1"
      "rd_end r1 = rd_end r" "int (length line) \<le> m - int (length hdr)"
    using read_line_crlf_InrD [OF line] by blast
  show ?case
  proof (cases "line = CRLF")
    case True
    with "1.prems" line have "hdr' = hdr @ CRLF" "r' = r1" "seen' = seen"
      by (subst (asm) read_header_lines.simps; simp)+
    with l True show ?thesis
      by (intro exI [of _ "[]"]) (auto simp: header_block_def)
  next
    case False
    then have "l \<noteq> []" using l(1) by auto
    from False line "1.prems" have "read_header_lines U m (hdr @ line)
        (note_header U (to_lower U (trim_space U line)) seen) r1 = Inr (hdr', seen', r')"
      by (subst (asm) read_header_lines.simps) simp
    from "1.IH" [OF line refl False this] obtain ls where
      ls: "hdr' = (hdr @ line) @ header_block ls"
        "list_all (\<lambda>l. l \<noteq> [] \<and> 10 \<notin> set l) ls"
        "rd_bytes r1 = header_block ls @ rd_bytes r'" "rd_end r' = rd_end r1"
        "int (length hdr') \<le> m"
        "seen' = fold (note_line U) ls (note_header U (to_lower U (trim_space U line)) seen)"
      by blast
    then show ?thesis using l \<open>l \<noteq> []\<close>
      by (intro exI [of _ "l # ls"]) (simp add: header_block_def note_line_def [abs_def])
  qed
qed

text \<open>
  The wire form of a chunked body. A chunk-size line carries a hexadecimal number, possibly
  followed by a semicolon and extensions; a chunk has exactly the announced length and is
  followed by CRLF; a line of size zero, any trailer lines and a blank line end the body.
\<close>

definition size_line :: "unicode \<Rightarrow> bytes \<Rightarrow> nat \<Rightarrow> bool" where
  "size_line U l n \<longleftrightarrow> 10 \<notin> set l \<and> length l + 2 \<le> 64 \<and>
     parse_int 16 (takeWhile (\<lambda>b. b \<noteq> 59) (trim_space U (l @ CRLF))) = Some (int n)"

definition trailer_line :: "bytes \<Rightarrow> bool" where
  "trailer_line t \<longleftrightarrow> t \<noteq> [] \<and> 10 \<notin> set t \<and> length t + 2 \<le> 1024"

inductive chunked_wire :: "unicode \<Rightarrow> bytes \<Rightarrow> bytes \<Rightarrow> bool" for U where
  last_chunk: "size_line U l 0 \<Longrightarrow> list_all trailer_line ts \<Longrightarrow>
    chunked_wire U (l @ CRLF @ header_block ts) []"
| next_chunk: "size_line U l (length c) \<Longrightarrow> c \<noteq> [] \<Longrightarrow> chunked_wire U w body \<Longrightarrow>
    chunked_wire U (l @ CRLF @ c @ CRLF @ w) (c @ body)"

lemma size_digits_takeWhile:
  "(case index_byte b s of Some i \<Rightarrow> take i s | None \<Rightarrow> s) = takeWhile (\<lambda>x. x \<noteq> b) s"
proof (cases "dropWhile (\<lambda>x. x \<noteq> b) s")
  case Nil
  then have "takeWhile (\<lambda>x. x \<noteq> b) s = s" by (metis append_Nil2 takeWhile_dropWhile_id)
  with Nil show ?thesis by (simp only: index_byte_takeWhile list.case option.case)
next
  case (Cons y ys)
  have "take (length (takeWhile (\<lambda>x. x \<noteq> b) s)) s = takeWhile (\<lambda>x. x \<noteq> b) s"
    by (metis append_eq_conv_conj takeWhile_dropWhile_id)
  with Cons show ?thesis by (simp only: index_byte_takeWhile list.case option.case)
qed

lemma read_trailers_InrD:
  "read_trailers r = Inr r' \<Longrightarrow> \<exists>ts. list_all trailer_line ts \<and>
     rd_bytes r = header_block ts @ rd_bytes r' \<and> rd_end r' = rd_end r"
proof (induction r rule: read_trailers.induct)
  case (1 r)
  from "1.prems" obtain line r1 where line: "read_line_crlf r 1024 = Inr (line, r1)"
    by (subst (asm) read_trailers.simps) (auto split: sum.splits)
  obtain l where l: "line = l @ CRLF" "10 \<notin> set l" "rd_bytes r = line @ rd_bytes r1"
      "rd_end r1 = rd_end r" "int (length line) \<le> 1024"
    using read_line_crlf_InrD [OF line] by blast
  show ?case
  proof (cases "line = CRLF")
    case True
    with "1.prems" line have "r' = r1" by (subst (asm) read_trailers.simps) simp
    with l True show ?thesis by (intro exI [of _ "[]"]) (simp add: header_block_def)
  next
    case False
    with "1.prems" line have "read_trailers r1 = Inr r'"
      by (subst (asm) read_trailers.simps) simp
    from "1.IH" [OF line refl False this] obtain ts where "list_all trailer_line ts"
        "rd_bytes r1 = header_block ts @ rd_bytes r'" "rd_end r' = rd_end r1" by blast
    moreover have "trailer_line l"
      using l False by (auto simp: trailer_line_def CRLF_def)
    ultimately show ?thesis
      using l by (intro exI [of _ "l # ts"]) (simp add: header_block_def)
  qed
qed

lemma add_int64_exact: "0 \<le> a + b \<Longrightarrow> a + b < 2 ^ 63 \<Longrightarrow> add_int64 a b = a + b"
  unfolding add_int64_def sint_sbintrunc' by (simp add: signed_take_bit_int_eq_self)

lemma chunk_within:
  assumes "int (length acc) \<le> mb" "mb < 2 ^ 62" "\<not> n < 0" "\<not> max_alloc < n"
    and "\<not> mb < add_int64 (int (length acc)) n"
  shows "int (length acc) + n \<le> mb"
proof -
  have "n \<le> 281474976710656" using assms(4) by (simp add: max_alloc_def)
  moreover have "mb < 4611686018427387904" using assms(2) by simp
  ultimately have "int (length acc) + n < 2 ^ 63" using assms(1) by simp
  then show ?thesis using assms(3,5) by (simp add: add_int64_exact)
qed

lemma read_chunked_body_InrD:
  "read_chunked_body U mb acc r = Inr (body, r') \<Longrightarrow> int (length acc) \<le> mb \<Longrightarrow> mb < 2 ^ 62 \<Longrightarrow>
    \<exists>w c. chunked_wire U w c \<and> rd_bytes r = w @ rd_bytes r' \<and> rd_end r' = rd_end r \<and>
      body = acc @ c \<and> int (length body) \<le> mb"
proof (induction U mb acc r rule: read_chunked_body.induct)
  case (1 U mb acc r)
  from "1.prems" obtain line r1 where line: "read_line_crlf r 64 = Inr (line, r1)"
    by (subst (asm) read_chunked_body.simps) (auto split: sum.splits)
  obtain l where l: "line = l @ CRLF" "10 \<notin> set l" "rd_bytes r = line @ rd_bytes r1"
      "rd_end r1 = rd_end r" "int (length line) \<le> 64"
    using read_line_crlf_InrD [OF line] by blast
  let ?h = "case index_byte 59 (trim_space U line) of
      Some i \<Rightarrow> take i (trim_space U line) | None \<Rightarrow> trim_space U line"
  from "1.prems"(1) line obtain n where n: "parse_int 16 ?h = Some n" "\<not> n < 0"
    by (subst (asm) read_chunked_body.simps) (auto simp: Let_def split: option.splits if_splits)
  from n l have size: "size_line U l (nat n)"
    unfolding size_digits_takeWhile size_line_def by (simp add: CRLF_def)
  show ?case
  proof (cases "n = 0")
    case True
    with "1.prems"(1) line n have "map_sum id (\<lambda>r2. (acc, r2)) (read_trailers r1) = Inr (body, r')"
      by (subst (asm) read_chunked_body.simps) (simp add: Let_def)
    then have "read_trailers r1 = Inr r'" "body = acc"
      by (cases "read_trailers r1"; simp)+
    from read_trailers_InrD [OF this(1)] obtain ts where ts: "list_all trailer_line ts"
        "rd_bytes r1 = header_block ts @ rd_bytes r'" "rd_end r' = rd_end r1" by blast
    have "chunked_wire U (l @ CRLF @ header_block ts) []"
      using size True ts(1) by (intro chunked_wire.last_chunk) simp_all
    with l ts \<open>body = acc\<close> "1.prems"(2) show ?thesis by (intro exI conjI) simp_all
  next
    case False
    with "1.prems"(1) line n obtain chunk r2 r3 where
      c: "\<not> add_int64 (int (length acc)) n > mb" "\<not> n > max_alloc"
        "read_full (nat n) r1 = Inr (chunk, r2)" "read_full 2 r2 = Inr (CRLF, r3)"
      and rec: "read_chunked_body U mb (acc @ chunk) r3 = Inr (body, r')"
      by (subst (asm) read_chunked_body.simps)
        (auto simp: Let_def split: if_splits sum.splits)
    have ch: "length chunk = nat n" "rd_bytes r1 = chunk @ rd_bytes r2" "rd_end r2 = rd_end r1"
        "rd_bytes r2 = CRLF @ rd_bytes r3" "rd_end r3 = rd_end r2"
      using c(3,4) by (auto dest!: read_full_InrD)
    have "int (length (acc @ chunk)) \<le> mb"
      using chunk_within [OF "1.prems"(2,3) n(2) c(2,1)] ch(1) n(2) by simp
    moreover have "\<not> CRLF \<noteq> CRLF" by simp
    ultimately obtain w b where w: "chunked_wire U w b" "rd_bytes r3 = w @ rd_bytes r'"
        "rd_end r' = rd_end r3" "body = (acc @ chunk) @ b" "int (length body) \<le> mb"
      using "1.IH" [OF line refl refl refl n(1) n(2) False c(1,2,3) refl c(4) refl _ rec] "1.prems"(3)
      by blast
    have "chunked_wire U (l @ CRLF @ chunk @ CRLF @ w) (chunk @ b)"
      using size w(1) ch(1) n(2) False by (intro chunked_wire.next_chunk) auto
    with l ch w show ?thesis by (intro exI conjI) simp_all
  qed
qed

lemma split_blank: "split_on (str '' '') [] = [[]]"
  by (simp add: str_def)

lemma trim_space_CRLF [simp]: "trim_space U CRLF = []"
  by (simp add: trim_space_def CRLF_def ascii_space_def)

text \<open>
  What a successfully read request is, and what it consumed: the request line split at
  blanks, and a body framed the way the headers announce.
\<close>

definition request_parts :: "unicode \<Rightarrow> request_meta \<Rightarrow> bytes \<Rightarrow> bool" where
  "request_parts U meta l \<longleftrightarrow>
     (\<exists>more. split_on (str '' '') (trim_space U (l @ CRLF)) =
        Method meta # Path meta # Proto meta # more)"

definition framed_as :: "unicode \<Rightarrow> request_meta \<Rightarrow> bytes \<times> bytes \<Rightarrow> bytes \<Rightarrow> bytes \<Rightarrow> bool" where
  "framed_as U meta = (\<lambda>(transferEncoding, contentLengthStr) wire body.
     TransferChunked meta = (index_sub (str ''chunked'') transferEncoding \<noteq> None) \<and>
     ContentLength meta =
       (if contentLengthStr = [] then - 1 else the (parse_int 10 contentLengthStr)) \<and>
     (contentLengthStr \<noteq> [] \<longrightarrow> parse_int 10 contentLengthStr \<noteq> None) \<and>
     (if TransferChunked meta then chunked_wire U wire body
      else wire = body \<and> ContentLength meta = int (length body)))"

lemma three_parts: "\<not> length xs < 3 \<Longrightarrow> \<exists>more. xs = xs ! 0 # xs ! 1 # xs ! 2 # more"
  by (cases xs; cases "tl xs"; cases "tl (tl xs)") auto

text \<open>After the header has been read: the metadata and what is left to do.\<close>

lemma read_http_metadata:
  assumes run: "read_http_request_body U r mh mb = Inr (meta, body, r')"
    and line: "read_line_crlf r mh = Inr (l @ CRLF, r1)"
    and hd: "read_header_lines U mh (l @ CRLF) ([], []) r1 = Inr (hdr, (te, cl), r2)"
  shows "HeaderBytes meta = hdr" and "request_parts U meta l"
    and "TransferChunked meta = (index_sub (str ''chunked'') te \<noteq> None)"
    and "ContentLength meta = (if cl = [] then - 1 else the (parse_int 10 cl))"
    and "cl \<noteq> [] \<longrightarrow> parse_int 10 cl \<noteq> None"
    and "(TransferChunked meta \<and> read_chunked_body U mb [] r2 = Inr (body, r')) \<or>
      (\<not> TransferChunked meta \<and> 0 \<le> ContentLength meta \<and> ContentLength meta \<le> mb \<and>
       read_full (nat (ContentLength meta)) r2 = Inr (body, r'))"
proof -
  let ?parts = "split_on (str '' '') (trim_space U (l @ CRLF))"
  have parts: "\<not> length ?parts < 3"
    using run by (auto simp: read_http_request_body_def line Let_def)
  note facts = run [unfolded read_http_request_body_def line hd sum.case prod.case Let_def if_not_P [OF parts]]
  have m: "Method meta = ?parts ! 0 \<and> Path meta = ?parts ! 1 \<and> Proto meta = ?parts ! 2"
    using facts by (auto simp: map_sum_def split: option.splits if_splits sum.splits)
  with three_parts [OF parts] show "request_parts U meta l"
    by (simp add: request_parts_def)
  show "HeaderBytes meta = hdr" "TransferChunked meta = (index_sub (str ''chunked'') te \<noteq> None)"
    "ContentLength meta = (if cl = [] then - 1 else the (parse_int 10 cl))"
    "cl \<noteq> [] \<longrightarrow> parse_int 10 cl \<noteq> None"
    "(TransferChunked meta \<and> read_chunked_body U mb [] r2 = Inr (body, r')) \<or>
      (\<not> TransferChunked meta \<and> 0 \<le> ContentLength meta \<and> ContentLength meta \<le> mb \<and>
       read_full (nat (ContentLength meta)) r2 = Inr (body, r'))"
    using facts by (auto simp: map_sum_def split: option.splits if_splits sum.splits)
qed

lemma read_http_InrD:
  assumes run: "read_http_request_body U r mh mb = Inr (meta, body, r')"
    and mb: "0 \<le> mb" "mb < 2 ^ 62"
  shows "\<exists>ls wire. HeaderBytes meta = header_block ls \<and> header_lines_ok ls \<and>
    rd_bytes r = HeaderBytes meta @ wire @ rd_bytes r' \<and> rd_end r' = rd_end r \<and>
    int (length body) \<le> mb \<and> int (length (HeaderBytes meta)) \<le> mh \<and>
    request_parts U meta (hd ls) \<and> framed_as U meta (announced U ls) wire body"
proof -
  obtain reqLine r1 where line: "read_line_crlf r mh = Inr (reqLine, r1)"
    using run by (cases "read_line_crlf r mh") (auto simp: read_http_request_body_def)
  obtain l where l: "reqLine = l @ CRLF" "10 \<notin> set l" "rd_bytes r = reqLine @ rd_bytes r1"
      "rd_end r1 = rd_end r"
    using read_line_crlf_InrD [OF line] by blast
  have parts: "\<not> length (split_on (str '' '') (trim_space U reqLine)) < 3"
    using run by (auto simp: read_http_request_body_def line Let_def)
  then have ne: "l \<noteq> []" using l(1) by (auto simp: split_blank)
  obtain hdr te cl r2 where hd: "read_header_lines U mh reqLine ([], []) r1 = Inr (hdr, (te, cl), r2)"
    using run parts by (cases "read_header_lines U mh reqLine ([], []) r1")
      (auto simp: read_http_request_body_def line Let_def)
  obtain ls where ls: "hdr = reqLine @ header_block ls" "list_all (\<lambda>l. l \<noteq> [] \<and> 10 \<notin> set l) ls"
      "rd_bytes r1 = header_block ls @ rd_bytes r2" "rd_end r2 = rd_end r1" "int (length hdr) \<le> mh"
      "(te, cl) = fold (note_line U) ls ([], [])"
    using read_header_lines_InrD [OF hd] by blast
  note meta = read_http_metadata [OF run line [unfolded l(1)] hd [unfolded l(1)]]
  have block: "hdr = header_block (l # ls)" "header_lines_ok (l # ls)"
      "announced U (l # ls) = (te, cl)" "rd_bytes r = hdr @ rd_bytes r2" "rd_end r2 = rd_end r"
    using l ls ne by (simp_all add: header_block_def header_lines_ok_def announced_def)
  have "\<exists>wire. rd_bytes r2 = wire @ rd_bytes r' \<and> rd_end r' = rd_end r2 \<and> int (length body) \<le> mb \<and>
      (if TransferChunked meta then chunked_wire U wire body
       else wire = body \<and> ContentLength meta = int (length body))"
    using meta(6)
  proof
    assume "TransferChunked meta \<and> read_chunked_body U mb [] r2 = Inr (body, r')"
    then show ?thesis
      using read_chunked_body_InrD [of U mb "[]" r2 body r'] mb by auto
  next
    assume "\<not> TransferChunked meta \<and> 0 \<le> ContentLength meta \<and> ContentLength meta \<le> mb \<and>
       read_full (nat (ContentLength meta)) r2 = Inr (body, r')"
    then show ?thesis by (intro exI [of _ body]) (auto dest: read_full_InrD)
  qed
  then obtain wire where "rd_bytes r2 = wire @ rd_bytes r'" "rd_end r' = rd_end r2"
      "int (length body) \<le> mb" "framed_as U meta (te, cl) wire body"
    using meta(3-5) unfolding framed_as_def prod.case by blast
  with meta(1,2) block ls(5) show ?thesis
    by (intro exI [of _ "l # ls"] exI [of _ wire]) simp
qed

lemma read_http_shorter:
  assumes "read_http_request_body U r mh mb = Inr (meta, body, r')" "0 \<le> mb" "mb < 2 ^ 62"
  shows "length (rd_bytes r') < length (rd_bytes r)"
  using read_http_InrD [OF assms] by (auto simp: header_block_def)

section \<open>Chunked encoding\<close>

text \<open>The wire form of a chunk and of a chunked body without trailers.\<close>

definition chunk_image :: "bytes \<Rightarrow> bytes" where
  "chunk_image c = format_uint 16 (length c) @ CRLF @ c @ CRLF"

definition chunked_image :: "bytes list \<Rightarrow> bytes" where
  "chunked_image cs = concat (map chunk_image cs) @ format_uint 16 0 @ CRLF @ CRLF"

lemma ascii_space_CRLF: "list_all ascii_space CRLF"
  by (simp add: CRLF_def ascii_space_def)

lemma hex_digits: "list_all is_digit (format_uint 16 n)"
  by (rule format_uint_digits) simp_all

lemma hex_not_in:
  "10 \<notin> set (format_uint 16 n)" "59 \<notin> set (format_uint 16 n)"
  using hex_digits [of n] by (auto simp: list_all_iff dest: digit_facts)

text \<open>Reading the size line of a chunk.\<close>

lemma chunk_size_line:
  assumes "n < 2 ^ 63"
  shows "read_line_crlf \<lparr>rd_bytes = format_uint 16 n @ CRLF @ q, rd_end = e\<rparr> 64 =
      Inr (format_uint 16 n @ CRLF, \<lparr>rd_bytes = q, rd_end = e\<rparr>)"
    and "trim_space U (format_uint 16 n @ CRLF) = format_uint 16 n"
    and "index_byte 59 (format_uint 16 n) = None"
    and "parse_int 16 (format_uint 16 n) = Some (int n)"
proof -
  have "length (format_uint 16 n) \<le> 16"
    by (rule length_format_uint) (use assms in simp_all)
  then show "read_line_crlf \<lparr>rd_bytes = format_uint 16 n @ CRLF @ q, rd_end = e\<rparr> 64 =
      Inr (format_uint 16 n @ CRLF, \<lparr>rd_bytes = q, rd_end = e\<rparr>)"
    by (intro read_line_crlf_line) (simp_all add: hex_not_in)
  show "trim_space U (format_uint 16 n @ CRLF) = format_uint 16 n"
    using trim_space_digits [of "format_uint 16 n" "[]" CRLF] hex_digits ascii_space_CRLF by simp
  show "index_byte 59 (format_uint 16 n) = None" by (simp add: hex_not_in)
  show "parse_int 16 (format_uint 16 n) = Some (int n)"
    using assms by (simp add: parse_int_format_uint)
qed

lemma read_chunk:
  assumes "c \<noteq> []" "int (length acc + length c) \<le> mb" "mb \<le> max_alloc"
  shows "read_chunked_body U mb acc \<lparr>rd_bytes = chunk_image c @ q, rd_end = e\<rparr> =
    read_chunked_body U mb (acc @ c) \<lparr>rd_bytes = q, rd_end = e\<rparr>"
proof -
  have n: "length c < 2 ^ 63" "int (length acc) + int (length c) < 2 ^ 63"
    and le: "\<not> max_alloc < int (length c)"
    using assms(2,3) by (auto simp: max_alloc_def)
  note line = chunk_size_line [OF n(1)]
  have sum: "add_int64 (int (length acc)) (int (length c)) = int (length acc) + int (length c)"
    by (rule add_int64_exact) (use n in simp_all)
  show ?thesis
    using assms n le
    by (subst read_chunked_body.simps) (simp add: chunk_image_def line sum Let_def)
qed

lemma read_chunk_end:
  "read_chunked_body U mb acc \<lparr>rd_bytes = format_uint 16 0 @ CRLF @ CRLF @ q, rd_end = e\<rparr> =
     Inr (acc, \<lparr>rd_bytes = q, rd_end = e\<rparr>)"
proof -
  have z: "(0::nat) < 2 ^ 63" by simp
  note line = chunk_size_line [OF z]
  have "read_line_crlf \<lparr>rd_bytes = CRLF @ q, rd_end = e\<rparr> 1024 =
      Inr (CRLF, \<lparr>rd_bytes = q, rd_end = e\<rparr>)"
    using read_line_crlf_line [of "[]" 1024 q e] by simp
  then have "read_trailers \<lparr>rd_bytes = CRLF @ q, rd_end = e\<rparr> = Inr \<lparr>rd_bytes = q, rd_end = e\<rparr>"
    by (subst read_trailers.simps) simp
  then show ?thesis by (subst read_chunked_body.simps) (simp add: line Let_def)
qed

lemma read_chunks:
  assumes "list_all (\<lambda>c. c \<noteq> []) cs" "int (length acc + length (concat cs)) \<le> mb"
    "mb \<le> max_alloc"
  shows "read_chunked_body U mb acc \<lparr>rd_bytes = chunked_image cs @ q, rd_end = e\<rparr> =
    Inr (acc @ concat cs, \<lparr>rd_bytes = q, rd_end = e\<rparr>)"
  using assms
proof (induction cs arbitrary: acc)
  case Nil
  then show ?case by (simp add: chunked_image_def read_chunk_end)
next
  case (Cons c cs)
  have "chunked_image (c # cs) @ q = chunk_image c @ chunked_image cs @ q"
    by (simp add: chunked_image_def)
  then show ?case using Cons by (simp add: read_chunk)
qed

text \<open>
  Conversely every wire form is read back, extensions and trailers included: \<open>chunked_wire\<close>
  is neither too wide nor too narrow.
\<close>

lemma trailers_read:
  "list_all trailer_line ts \<Longrightarrow> read_trailers \<lparr>rd_bytes = header_block ts @ q, rd_end = e\<rparr> =
     Inr \<lparr>rd_bytes = q, rd_end = e\<rparr>"
proof (induction ts)
  case Nil
  have "read_line_crlf \<lparr>rd_bytes = CRLF @ q, rd_end = e\<rparr> 1024 =
      Inr (CRLF, \<lparr>rd_bytes = q, rd_end = e\<rparr>)"
    using read_line_crlf_line [of "[]" 1024 q e] by simp
  then show ?case by (subst read_trailers.simps) (simp add: header_block_def)
next
  case (Cons t ts)
  let ?q = "header_block ts @ q"
  have "read_line_crlf \<lparr>rd_bytes = t @ CRLF @ ?q, rd_end = e\<rparr> 1024 =
      Inr (t @ CRLF, \<lparr>rd_bytes = ?q, rd_end = e\<rparr>)"
    by (rule read_line_crlf_line) (use Cons.prems in \<open>simp_all add: trailer_line_def\<close>)
  moreover have "header_block (t # ts) @ q = t @ CRLF @ ?q" by (simp add: header_block_def)
  moreover have "t @ CRLF \<noteq> CRLF" using Cons.prems by (simp add: trailer_line_def)
  ultimately show ?case using Cons by (subst read_trailers.simps) simp
qed

lemma size_line_read:
  assumes "size_line U l n"
  shows "read_line_crlf \<lparr>rd_bytes = l @ CRLF @ q, rd_end = e\<rparr> 64 =
      Inr (l @ CRLF, \<lparr>rd_bytes = q, rd_end = e\<rparr>)"
  by (rule read_line_crlf_line) (use assms in \<open>simp_all add: size_line_def\<close>)

lemma chunked_wire_read:
  assumes "chunked_wire U w body" "mb \<le> max_alloc"
  shows "int (length acc + length body) \<le> mb \<Longrightarrow>
    read_chunked_body U mb acc \<lparr>rd_bytes = w @ q, rd_end = e\<rparr> =
      Inr (acc @ body, \<lparr>rd_bytes = q, rd_end = e\<rparr>)"
  using assms(1)
proof (induction arbitrary: acc)
  case (last_chunk l ts)
  then show ?case
    using size_line_read [OF last_chunk.hyps(1)] trailers_read [OF last_chunk.hyps(2)]
    by (subst read_chunked_body.simps) (simp add: size_line_def size_digits_takeWhile Let_def)
next
  case (next_chunk l c w body)
  have n: "int (length acc) + int (length c) < 2 ^ 63" "\<not> max_alloc < int (length c)"
    "int (length acc) + int (length c) \<le> mb"
    using next_chunk.prems assms(2) by (auto simp: max_alloc_def)
  then have sum: "add_int64 (int (length acc)) (int (length c)) = int (length acc) + int (length c)"
    by (intro add_int64_exact) simp_all
  have rec: "read_chunked_body U mb (acc @ c) \<lparr>rd_bytes = w @ q, rd_end = e\<rparr> =
      Inr (acc @ c @ body, \<lparr>rd_bytes = q, rd_end = e\<rparr>)"
    using next_chunk.IH [of "acc @ c"] next_chunk.prems by simp
  show ?case
    using size_line_read [OF next_chunk.hyps(1)] next_chunk.hyps(1,2) n sum rec
    by (subst read_chunked_body.simps) (simp add: size_line_def size_digits_takeWhile Let_def)
qed

section \<open>Properties\<close>

text \<open>
  C22: Dechunking is exact. Whatever way a body of at most the permitted size is cut into
  non-empty chunks, \<^verbatim>\<open>readChunkedBody\<close> returns precisely the body, without size lines or
  CRLF framing, and leaves the stream right after the terminating chunk.
\<close>

theorem dechunk_exact:
  assumes "list_all (\<lambda>c. c \<noteq> []) cs" "int (length (concat cs)) \<le> mb" "mb \<le> max_alloc"
  shows "read_chunked_body U mb [] \<lparr>rd_bytes = chunked_image cs @ q, rd_end = e\<rparr> =
    Inr (concat cs, \<lparr>rd_bytes = q, rd_end = e\<rparr>)"
  using read_chunks [of cs "[]" mb U q e] assms by simp

theorem dechunk_exact_witness:
  "read_chunked_body \<lparr>uni_lower = id, uni_trim = id, uni_trim_right = id\<rparr> 16777216 []
     \<lparr>rd_bytes = chunked_image [str ''cpu=1'', str '',mem=2''] @ str ''GET'', rd_end = ErrEOF\<rparr> =
   Inr (str ''cpu=1,mem=2'', \<lparr>rd_bytes = str ''GET'', rd_end = ErrEOF\<rparr>)"
  by (subst dechunk_exact) (simp_all add: str_def max_alloc_def)

text \<open>
  C28: A chunk size can crash the process. The size check adds the announced size to the
  bytes already read in signed 64-bit arithmetic; after one non-empty chunk, a size near
  \<^verbatim>\<open>2^63\<close> makes the sum negative, passes the check and reaches \<^verbatim>\<open>make([]byte, n)\<close>, which
  panics.
\<close>

theorem chunk_size_overflow_panics:
  assumes "c \<noteq> []" "int (length c) \<le> mb" "mb \<le> max_alloc"
    and "2 ^ 63 - length c \<le> n" "n < 2 ^ 63"
  shows "read_chunked_body U mb []
      \<lparr>rd_bytes = chunk_image c @ format_uint 16 n @ CRLF @ q, rd_end = e\<rparr> = Inl GoPanic"
proof -
  have c: "length c \<le> 281474976710656" using assms(2,3) by (simp add: max_alloc_def)
  have n: "9223372036854775808 \<le> n + length c" "n < 9223372036854775808"
    using assms(4,5) c by simp_all
  have "word_of_int (int (length c) + int n) = (word_of_int (int (length c) + int n - 2 ^ 64) :: u64)"
    by (simp add: word_of_int_eq_iff take_bit_eq_mod)
  then have "add_int64 (int (length c)) (int n) = int (length c) + int n - 2 ^ 64"
    unfolding add_int64_def using n c
    by (simp only: sint_sbintrunc') (simp add: signed_take_bit_int_eq_self)
  then have ok: "\<not> mb < add_int64 (int (length c)) (int n)" using n c assms(1,2) by simp
  have big: "max_alloc < int n" "n \<noteq> 0" using n c by (simp_all add: max_alloc_def)
  note line = chunk_size_line [OF assms(5)]
  have "read_chunked_body U mb c \<lparr>rd_bytes = format_uint 16 n @ CRLF @ q, rd_end = e\<rparr> =
      Inl GoPanic"
    using ok big by (subst read_chunked_body.simps) (simp add: line Let_def)
  then show ?thesis using read_chunk [of c "[]" mb] assms by simp
qed

theorem chunk_size_overflow_panics_witness:
  "read_chunked_body \<lparr>uni_lower = id, uni_trim = id, uni_trim_right = id\<rparr> 16777216 []
      \<lparr>rd_bytes = chunk_image (str ''A'') @ format_uint 16 9223372036854775807 @ CRLF @ [],
       rd_end = ErrEOF\<rparr> = Inl GoPanic"
  by (rule chunk_size_overflow_panics) (simp_all add: str_def max_alloc_def)

text \<open>
  C24: A request that is returned was consumed exactly. \<^verbatim>\<open>HeaderBytes\<close> is the verbatim header
  block (a non-empty request line, non-empty header lines, one blank line); method, path and
  protocol are the first three words of the request line; whether the body is chunked, and
  its \<^verbatim>\<open>ContentLength\<close>, are what the last Transfer-Encoding and Content-Length lines say. The
  header is followed on the stream by the wire form of the body and then by the unread rest.
  Without chunking the wire form is the body itself, of exactly \<^verbatim>\<open>ContentLength\<close> bytes. With
  chunking it is a chunked body: every chunk of the length its size line announces and closed
  by CRLF, the last chunk of size zero, trailer lines and a blank line; the body is the
  concatenation of the chunks. Header and body respect the limits given by the caller.
\<close>

theorem http_request_consumed_exactly:
  assumes "read_http_request_body U r mh mb = Inr (meta, body, r')"
    and "0 \<le> mb" "mb < 2 ^ 62"
  shows "\<exists>ls wire te cl more. HeaderBytes meta = header_block ls \<and> header_lines_ok ls \<and>
    rd_bytes r = HeaderBytes meta @ wire @ rd_bytes r' \<and> rd_end r' = rd_end r \<and>
    split_on (str '' '') (trim_space U (hd ls @ CRLF)) =
      Method meta # Path meta # Proto meta # more \<and>
    announced U ls = (te, cl) \<and>
    TransferChunked meta = (index_sub (str ''chunked'') te \<noteq> None) \<and>
    (if cl = [] then ContentLength meta = - 1 else parse_int 10 cl = Some (ContentLength meta)) \<and>
    (if TransferChunked meta then chunked_wire U wire body
     else wire = body \<and> ContentLength meta = int (length body)) \<and>
    int (length body) \<le> mb \<and> int (length (HeaderBytes meta)) \<le> mh"
proof -
  from read_http_InrD [OF assms] obtain ls wire where
    ls: "HeaderBytes meta = header_block ls" "header_lines_ok ls"
      "rd_bytes r = HeaderBytes meta @ wire @ rd_bytes r'" "rd_end r' = rd_end r"
      "int (length body) \<le> mb" "int (length (HeaderBytes meta)) \<le> mh"
    and parts: "request_parts U meta (hd ls)" and framed: "framed_as U meta (announced U ls) wire body"
    by blast
  obtain te cl where an: "announced U ls = (te, cl)" by fastforce
  from parts obtain more where words: "split_on (str '' '') (trim_space U (hd ls @ CRLF)) =
      Method meta # Path meta # Proto meta # more"
    unfolding request_parts_def by blast
  have "TransferChunked meta = (index_sub (str ''chunked'') te \<noteq> None)"
    "if cl = [] then ContentLength meta = - 1 else parse_int 10 cl = Some (ContentLength meta)"
    "if TransferChunked meta then chunked_wire U wire body
     else wire = body \<and> ContentLength meta = int (length body)"
    using framed unfolding an framed_as_def prod.case by (auto simp del: not_None_eq)
  with ls an words show ?thesis
    by (intro exI [of _ ls] exI [of _ wire] exI [of _ te] exI [of _ cl] exI [of _ more] conjI)
qed

text \<open>A chunked request with an extension on a size line and a trailer, and one byte of the next.\<close>

theorem http_request_consumed_exactly_witness:
  "\<exists>meta. read_http_request_body \<lparr>uni_lower = id, uni_trim = id, uni_trim_right = id\<rparr>
      \<lparr>rd_bytes = header_block [str ''PUT /w H'', str ''Transfer-Encoding: chunked''] @
         (str ''2;x'' @ CRLF @ str ''ab'' @ CRLF @ str ''0'' @ CRLF @ header_block [str ''T: 1'']) @
         str ''c'', rd_end = ErrEOF\<rparr> 100 10 =
      Inr (meta, str ''ab'', \<lparr>rd_bytes = str ''c'', rd_end = ErrEOF\<rparr>) \<and>
    chunked_wire \<lparr>uni_lower = id, uni_trim = id, uni_trim_right = id\<rparr>
      (str ''2;x'' @ CRLF @ str ''ab'' @ CRLF @ str ''0'' @ CRLF @ header_block [str ''T: 1''])
      (str ''ab'')"
proof -
  let ?U = "\<lparr>uni_lower = id, uni_trim = id, uni_trim_right = id\<rparr>"
  let ?hdr = "header_block [str ''PUT /w H'', str ''Transfer-Encoding: chunked'']"
  let ?wire = "str ''2;x'' @ CRLF @ str ''ab'' @ CRLF @ str ''0'' @ CRLF @ header_block [str ''T: 1'']"
  let ?m = "\<lparr>Method = str ''PUT'', Path = str ''/w'', Proto = str ''H'', TransferChunked = True,
      ContentLength = - 1, HeaderBytes = ?hdr\<rparr>"
  have "read_line_crlf \<lparr>rd_bytes = str ''2;x'' @ CRLF @ q, rd_end = ErrEOF\<rparr> 64 =
      Inr (str ''2;x'' @ CRLF, \<lparr>rd_bytes = q, rd_end = ErrEOF\<rparr>)" for q
    by (rule read_line_crlf_line) (simp_all add: str_def)
  then have chunk: "read_chunked_body ?U 10 [] \<lparr>rd_bytes = ?wire @ str ''c'', rd_end = ErrEOF\<rparr> =
      read_chunked_body ?U 10 (str ''ab'') \<lparr>rd_bytes = str ''0'' @ CRLF @
        header_block [str ''T: 1''] @ str ''c'', rd_end = ErrEOF\<rparr>"
    by (subst read_chunked_body.simps) (simp add: http_eval add_int64_exact max_alloc_def)
  moreover have "read_chunked_body ?U 10 (str ''ab'') \<lparr>rd_bytes = str ''0'' @ CRLF @
      header_block [str ''T: 1''] @ str ''c'', rd_end = ErrEOF\<rparr> =
      Inr (str ''ab'', \<lparr>rd_bytes = str ''c'', rd_end = ErrEOF\<rparr>)"
    by (subst read_chunked_body.simps)
      (simp add: http_eval read_trailers.simps header_block_def)
  ultimately have chunks: "read_chunked_body ?U 10 [] \<lparr>rd_bytes = ?wire @ str ''c'', rd_end = ErrEOF\<rparr> =
      Inr (str ''ab'', \<lparr>rd_bytes = str ''c'', rd_end = ErrEOF\<rparr>)" by simp
  have run: "read_http_request_body ?U \<lparr>rd_bytes = ?hdr @ ?wire @ str ''c'', rd_end = ErrEOF\<rparr> 100 10 =
      Inr (?m, str ''ab'', \<lparr>rd_bytes = str ''c'', rd_end = ErrEOF\<rparr>)"
    using chunks by (simp add: http_eval header_block_def)
  have "(0::int) \<le> 10" "(10::int) < 2 ^ 62" by simp_all
  from http_request_consumed_exactly [OF run this] have "chunked_wire ?U ?wire (str ''ab'')"
    by auto
  with run show ?thesis by blast
qed

end
