(* ===== verification/Go_Collections.thy ===== *)
theory Go_Collections
  imports Enzo_Prelude
begin

text \<open>
  Go maps and \<^verbatim>\<open>sort.Slice\<close>. A map that the code ranges over is an association list with
  distinct keys; its order stands for the order of a \<^verbatim>\<open>range\<close> loop, which Go leaves open.
  \<^verbatim>\<open>sort.Slice\<close> is not stable and its result is any permutation sorted by the given
  comparison, so the routines that sort take the sorting function as an argument and their
  properties hold for every function that meets the contract \<open>slice_sort\<close>.
\<close>

section \<open>The contract of \<^verbatim>\<open>sort.Slice\<close>\<close>

locale slice_sort =
  fixes srt :: "('a \<Rightarrow> 'a \<Rightarrow> bool) \<Rightarrow> 'a list \<Rightarrow> 'a list"
  assumes mset_srt: "mset (srt lt xs) = mset xs"
    and sorted_srt:
      "\<lbrakk>\<And>x y z. \<not> lt y x \<Longrightarrow> \<not> lt z y \<Longrightarrow> \<not> lt z x; \<And>x y. lt x y \<Longrightarrow> \<not> lt y x\<rbrakk> \<Longrightarrow>
         sorted_wrt (\<lambda>x y. \<not> lt y x) (srt lt xs)"
begin

lemma set_srt [simp]: "set (srt lt xs) = set xs"
  using mset_srt mset_eq_setD by blast

lemma length_srt [simp]: "length (srt lt xs) = length xs"
  using mset_srt mset_eq_length by blast

lemma distinct_srt [simp]: "distinct (srt lt xs) = distinct xs"
  by (rule mset_eq_imp_distinct_iff) (rule mset_srt)

lemma sorted_by_key:
  fixes f :: "'a \<Rightarrow> 'k::linorder"
  shows "sorted_wrt (\<lambda>x y. f x \<le> f y) (srt (\<lambda>x y. f x < f y) xs)"
  using sorted_srt [of "\<lambda>x y. f x < f y" xs] by (simp add: not_less)

text \<open>Everything before a cut is no greater than everything after it.\<close>

lemma cut_le:
  fixes f :: "'a \<Rightarrow> 'k::linorder"
  assumes "x \<in> set (take n (srt (\<lambda>x y. f x < f y) xs))"
    and "y \<in> set (drop n (srt (\<lambda>x y. f x < f y) xs))"
  shows "f x \<le> f y"
proof -
  have "sorted_wrt (\<lambda>x y. f x \<le> f y)
      (take n (srt (\<lambda>x y. f x < f y) xs) @ drop n (srt (\<lambda>x y. f x < f y) xs))"
    using sorted_by_key [of f xs] by simp
  with assms show ?thesis unfolding sorted_wrt_append by blast
qed

lemma map_fst_srt_distinct:
  fixes p :: "'a \<Rightarrow> 'b"
  assumes "distinct (map p xs)"
  shows "distinct (map p (srt lt xs))"
proof -
  have "mset (map p (srt lt xs)) = mset (map p xs)" by (simp add: mset_srt)
  then show ?thesis using assms mset_eq_imp_distinct_iff by blast
qed

end

text \<open>
  The insertion sort that \<^verbatim>\<open>sort.Slice\<close> runs on short slices: each element moves left past
  the elements it is less than.
\<close>

definition go_insert :: "('a \<Rightarrow> 'a \<Rightarrow> bool) \<Rightarrow> 'a list \<Rightarrow> 'a \<Rightarrow> 'a list" where
  "go_insert lt acc x =
     (let r = dropWhile (\<lambda>y. lt x y) (rev acc)
      in rev r @ x # rev (takeWhile (\<lambda>y. lt x y) (rev acc)))"

definition go_insertion_sort :: "('a \<Rightarrow> 'a \<Rightarrow> bool) \<Rightarrow> 'a list \<Rightarrow> 'a list" where
  "go_insertion_sort lt xs = foldl (go_insert lt) [] xs"

lemma mset_go_insert: "mset (go_insert lt acc x) = add_mset x (mset acc)"
proof -
  have "mset (takeWhile (\<lambda>y. lt x y) (rev acc)) + mset (dropWhile (\<lambda>y. lt x y) (rev acc)) =
      mset acc"
    by (metis mset_append mset_rev takeWhile_dropWhile_id)
  then show ?thesis by (simp add: go_insert_def Let_def add.commute)
qed

lemma mset_foldl_go_insert: "mset (foldl (go_insert lt) acc xs) = mset acc + mset xs"
  by (induction xs arbitrary: acc) (simp_all add: mset_go_insert)

lemma sorted_go_insert:
  assumes trans: "\<And>x y z. \<not> lt y x \<Longrightarrow> \<not> lt z y \<Longrightarrow> \<not> lt z x"
    and asym: "\<And>x y. lt x y \<Longrightarrow> \<not> lt y x"
    and acc: "sorted_wrt (\<lambda>x y. \<not> lt y x) acc"
  shows "sorted_wrt (\<lambda>x y. \<not> lt y x) (go_insert lt acc x)"
proof -
  let ?t = "takeWhile (\<lambda>y. lt x y) (rev acc)" and ?d = "dropWhile (\<lambda>y. lt x y) (rev acc)"
  have split: "acc = rev ?d @ rev ?t"
    by (metis rev_append rev_rev_ident takeWhile_dropWhile_id)
  then have s: "sorted_wrt (\<lambda>x y. \<not> lt y x) (rev ?d)" "sorted_wrt (\<lambda>x y. \<not> lt y x) (rev ?t)"
    "\<And>a b. a \<in> set ?d \<Longrightarrow> b \<in> set ?t \<Longrightarrow> \<not> lt b a"
    using acc sorted_wrt_append [of "\<lambda>x y. \<not> lt y x" "rev ?d" "rev ?t"] by auto
  have gt: "\<not> lt b x" if "b \<in> set ?t" for b
    using that asym by (auto dest: set_takeWhileD)
  have le: "\<not> lt x a" if a: "a \<in> set ?d" for a
  proof (cases ?d)
    case Nil
    with a show ?thesis by simp
  next
    case (Cons h tl)
    then have h: "\<not> lt x h" using hd_dropWhile [of "\<lambda>y. lt x y" "rev acc"] by simp
    from s(1) Cons have "\<And>c. c \<in> set tl \<Longrightarrow> \<not> lt h c"
      by (simp add: sorted_wrt_append)
    with a Cons h show ?thesis using trans by (metis set_ConsD)
  qed
  have "sorted_wrt (\<lambda>x y. \<not> lt y x) (x # rev ?t)"
    using s(2) gt by simp
  moreover have "\<And>a b. a \<in> set (rev ?d) \<Longrightarrow> b \<in> set (x # rev ?t) \<Longrightarrow> \<not> lt b a"
    using s(3) le by (metis set_ConsD set_rev)
  ultimately show ?thesis
    using s(1) unfolding go_insert_def Let_def sorted_wrt_append by blast
qed

lemma sorted_foldl_go_insert:
  assumes "\<And>x y z. \<not> lt y x \<Longrightarrow> \<not> lt z y \<Longrightarrow> \<not> lt z x" "\<And>x y. lt x y \<Longrightarrow> \<not> lt y x"
    "sorted_wrt (\<lambda>x y. \<not> lt y x) acc"
  shows "sorted_wrt (\<lambda>x y. \<not> lt y x) (foldl (go_insert lt) acc xs)"
  using assms(3)
proof (induction xs arbitrary: acc)
  case Nil
  then show ?case by simp
next
  case (Cons x xs)
  have "sorted_wrt (\<lambda>x y. \<not> lt y x) (go_insert lt acc x)"
    using assms(1,2) Cons.prems by (rule sorted_go_insert)
  then show ?case by (simp add: Cons.IH)
qed

interpretation insertion: slice_sort go_insertion_sort
proof
  show "mset (go_insertion_sort lt xs) = mset xs" for lt and xs :: "'a list"
    by (simp add: go_insertion_sort_def mset_foldl_go_insert)
next
  fix lt :: "'a \<Rightarrow> 'a \<Rightarrow> bool" and xs :: "'a list"
  assume t: "\<And>x y z. \<not> lt y x \<Longrightarrow> \<not> lt z y \<Longrightarrow> \<not> lt z x" and a: "\<And>x y. lt x y \<Longrightarrow> \<not> lt y x"
  show "sorted_wrt (\<lambda>x y. \<not> lt y x) (go_insertion_sort lt xs)"
    unfolding go_insertion_sort_def
  proof (rule sorted_foldl_go_insert)
    show "\<not> lt z x" if "\<not> lt y x" "\<not> lt z y" for x y z using that by (rule t)
    show "\<not> lt y x" if "lt x y" for x y using that by (rule a)
    show "sorted_wrt (\<lambda>x y. \<not> lt y x) []" by simp
  qed
qed

section \<open>The contract of \<^verbatim>\<open>range\<close> over a map\<close>

text \<open>The order in which a map is ranged over: any permutation.\<close>

locale map_range =
  fixes rng :: "'a list \<Rightarrow> 'a list"
  assumes mset_rng: "mset (rng xs) = mset xs"
begin

lemma set_rng [simp]: "set (rng xs) = set xs"
  using mset_rng mset_eq_setD by blast

lemma length_rng [simp]: "length (rng xs) = length xs"
  using mset_rng mset_eq_length by blast

lemma distinct_keys_rng:
  fixes p :: "'a \<Rightarrow> 'b"
  assumes "distinct (map p xs)"
  shows "distinct (map p (rng xs))"
proof -
  have "mset (map p (rng xs)) = mset (map p xs)" by (simp add: mset_rng)
  then show ?thesis using assms mset_eq_imp_distinct_iff by blast
qed

end

definition range_in_order :: "'a list \<Rightarrow> 'a list" where
  "range_in_order xs = xs"

interpretation in_order: map_range range_in_order
  by unfold_locales (simp add: range_in_order_def)

section \<open>Association lists\<close>

lemma map_of_alist_delete [simp]: "map_of (AList.delete k xs) = (map_of xs)(k := None)"
  by (rule ext) (simp add: delete_conv')

lemma set_delete: "set (AList.delete k xs) = {x \<in> set xs. fst x \<noteq> k}"
  by (auto simp: AList.delete_eq)

lemma delete_filter: "AList.delete k xs = filter (\<lambda>x. fst x \<noteq> k) xs"
  unfolding AList.delete_eq by (rule filter_cong) auto

lemma delete_absent: "k \<notin> fst ` set xs \<Longrightarrow> AList.delete k xs = xs"
  by (force simp: delete_filter filter_id_conv)

lemma delete_append: "AList.delete k (xs @ ys) = AList.delete k xs @ AList.delete k ys"
  by (simp add: delete_filter)

lemma length_delete_present:
  assumes "distinct (map fst xs)" "k \<in> fst ` set xs"
  shows "Suc (length (AList.delete k xs)) = length xs"
proof -
  from assms(2) obtain v where "(k, v) \<in> set xs" by auto
  then obtain ys zs where xs: "xs = ys @ (k, v) # zs" by (meson split_list)
  with assms(1) have "k \<notin> fst ` set ys" "k \<notin> fst ` set zs" by auto
  then have "AList.delete k xs = ys @ zs"
    by (simp add: xs delete_append delete_absent)
  then show ?thesis by (simp add: xs)
qed

text \<open>What is left of a map after deleting some keys.\<close>

definition without :: "'k set \<Rightarrow> ('k \<times> 'v) list \<Rightarrow> ('k \<times> 'v) list" where
  "without ids es = filter (\<lambda>x. fst x \<notin> ids) es"

lemma without_delete: "without ids (AList.delete i es) = without (insert i ids) es"
  by (simp add: without_def delete_filter conj_commute)

lemma without_none [simp]: "without {} es = es"
  by (simp add: without_def)

lemma update_absent: "i \<notin> fst ` set es \<Longrightarrow> AList.update i e es = es @ [(i, e)]"
  by (induction es) auto

section \<open>Bounded stores\<close>

text \<open>
  The contract both dictionaries of the program promise their users: a state that is well
  formed stays so, under a cap that never moves and is never exceeded.
\<close>

locale capped_store =
  fixes used :: "'s \<Rightarrow> int" and cap :: "'s \<Rightarrow> int" and inv :: "'s \<Rightarrow> bool"
    and step :: "'s \<Rightarrow> 's \<Rightarrow> bool"
  assumes inv_used: "inv s \<Longrightarrow> 0 \<le> used s \<and> used s \<le> cap s"
    and step_inv: "inv s \<Longrightarrow> step s t \<Longrightarrow> inv t \<and> cap t = cap s"
begin

lemma steps_inv: "step\<^sup>*\<^sup>* s t \<Longrightarrow> inv s \<Longrightarrow> inv t \<and> cap t = cap s"
  by (induction rule: rtranclp_induct) (auto dest: step_inv)

lemma never_exceeds: "step\<^sup>*\<^sup>* s t \<Longrightarrow> inv s \<Longrightarrow> 0 \<le> used t \<and> used t \<le> cap s"
  using steps_inv inv_used by metis

end

end
