(* ===== verification/Span_Learner.thy ===== *)
theory Span_Learner
  imports Go_Collections
begin

text \<open>
  The dictionary learner (\<^verbatim>\<open>internal/dictionary\<close>: \<^verbatim>\<open>span.go\<close>, \<^verbatim>\<open>index.go\<close>,
  \<^verbatim>\<open>candidate_stats.go\<close>, \<^verbatim>\<open>aggregate.go\<close>, \<^verbatim>\<open>worth.go\<close>, \<^verbatim>\<open>partition.go\<close>,
  \<^verbatim>\<open>evict_candidate.go\<close>): counting, packet by packet, how often a pattern
  [CONST][VAR][CONST] occurs, and evicting the least useful old candidate under memory
  pressure. A \<^verbatim>\<open>*CandidateStats\<close> pointer is identified with the key it is stored under:
  the aggregator allocates one per key and never shares it.
\<close>

section \<open>Data\<close>

record span_observation =
  ConstA :: bytes
  ConstB :: bytes
  IntraHits :: u16
  SpanSize :: u32
  LastSeenOffset :: u64

datatype pattern_key = PatternKey (Hash: u64)

record candidate_stats =
  Hits :: u32
  Size :: u32
  FirstSeenEpoch :: u64
  LastSeenEpoch :: u64

type_synonym stats_map = "(pattern_key \<times> candidate_stats) list"

record aggregator =
  WindowStart :: u64
  WindowEnd :: u64
  Stats :: stats_map

definition DictionaryMaxBytes :: u32 where "DictionaryMaxBytes = push_bit 20 1"

definition CandidateOverheadBytes :: u32 where "CandidateOverheadBytes = 32"

definition new_aggregator :: "u64 \<Rightarrow> aggregator" where
  "new_aggregator windowSize = \<lparr>WindowStart = 0, WindowEnd = windowSize, Stats = []\<rparr>"

section \<open>Operations\<close>

definition fnv1a_64_step :: "byte \<Rightarrow> u64 \<Rightarrow> u64" where
  "fnv1a_64_step b h = (h XOR ucast b) * 1099511628211"

definition make_pattern_key :: "bytes \<Rightarrow> bytes \<Rightarrow> pattern_key" where
  "make_pattern_key aBytes bBytes =
     PatternKey (fold fnv1a_64_step bBytes (fold fnv1a_64_step aBytes 1469598103934665603))"

text \<open>\<^verbatim>\<open>Worth\<close>; \<open>None\<close> is the nil pointer.\<close>

definition worth :: "candidate_stats option \<Rightarrow> u64" where
  "worth stats =
     (case stats of None \<Rightarrow> 0 | Some s \<Rightarrow> ucast (Hits s) * ucast (Size s))"

record partition_result =
  Protected :: stats_map
  Evictable :: stats_map

definition partition_stats_by_age ::
    "((pattern_key \<times> candidate_stats \<Rightarrow> pattern_key \<times> candidate_stats \<Rightarrow> bool) \<Rightarrow>
      stats_map \<Rightarrow> stats_map) \<Rightarrow> stats_map \<Rightarrow> u64 \<Rightarrow> partition_result" where
  "partition_stats_by_age srt stats currentEpoch =
     (if length stats = 0 then \<lparr>Protected = [], Evictable = []\<rparr>
      else
        let stats = srt (\<lambda>si sj. currentEpoch - LastSeenEpoch (snd si)
                               < currentEpoch - LastSeenEpoch (snd sj)) stats;
            half = length stats div 2
        in \<lparr>Protected = take half stats, Evictable = drop half stats\<rparr>)"

text \<open>
  The body of the two nested loops that look for the lowest worth: \<open>found\<close> is the triple
  \<^verbatim>\<open>(lowestKey, lowestWorth, found)\<close>, with \<open>None\<close> for \<^verbatim>\<open>found == false\<close>.
\<close>

definition scan_candidate ::
    "stats_map \<Rightarrow> pattern_key \<times> candidate_stats \<Rightarrow> (pattern_key \<times> u64) option \<Rightarrow>
     (pattern_key \<times> u64) option" where
  "scan_candidate evictable = (\<lambda>(key, s).
     fold (\<lambda>ev found.
       if fst ev \<noteq> key then found
       else let w = worth (Some s)
            in (case found of
                  None \<Rightarrow> Some (key, w)
                | Some (lowestKey, lowestWorth) \<Rightarrow>
                    if w < lowestWorth then Some (key, w) else found)) evictable)"

text \<open>
  \<^verbatim>\<open>EvictOne\<close>; \<open>rng1\<close> is the order in which the loop that collects the candidates ranges
  over the map, \<open>rng2\<close> that of the loop that looks for the lowest worth. Go leaves the two
  orders open, independently of each other.
\<close>

definition evict_one ::
    "((pattern_key \<times> candidate_stats \<Rightarrow> pattern_key \<times> candidate_stats \<Rightarrow> bool) \<Rightarrow>
      stats_map \<Rightarrow> stats_map) \<Rightarrow> (stats_map \<Rightarrow> stats_map) \<Rightarrow> (stats_map \<Rightarrow> stats_map) \<Rightarrow>
     stats_map \<Rightarrow> u64 \<Rightarrow> bool \<times> stats_map" where
  "evict_one srt rng1 rng2 stats currentEpoch =
     (if length stats = 0 then (False, stats)
      else
        let part = partition_stats_by_age srt (rng1 stats) currentEpoch
        in if length (Evictable part) = 0 then (False, stats)
           else (case fold (scan_candidate (Evictable part)) (rng2 stats) None of
                   None \<Rightarrow> (False, stats)
                 | Some (lowestKey, _) \<Rightarrow> (True, AList.delete lowestKey stats)))"

definition total_bytes :: "stats_map \<Rightarrow> u32" where
  "total_bytes stats = fold (\<lambda>(_, s) total. total + (Size s + CandidateOverheadBytes)) stats 0"

text \<open>
  From here on \<open>rng\<close> gives each \<^verbatim>\<open>range\<close> loop its own order: loop 0 sums the bytes, loops 1
  and 2 are those of \<^verbatim>\<open>EvictOne\<close>.
\<close>

definition maybe_evict ::
    "((pattern_key \<times> candidate_stats \<Rightarrow> pattern_key \<times> candidate_stats \<Rightarrow> bool) \<Rightarrow>
      stats_map \<Rightarrow> stats_map) \<Rightarrow> (nat \<Rightarrow> stats_map \<Rightarrow> stats_map) \<Rightarrow> u64 \<Rightarrow> aggregator \<Rightarrow>
     aggregator"
where
  "maybe_evict srt rng currentEpoch a =
     (if total_bytes (rng 0 (Stats a)) \<le> DictionaryMaxBytes then a
      else a\<lparr>Stats := snd (evict_one srt (rng 1) (rng 2) (Stats a) currentEpoch)\<rparr>)"

text \<open>One iteration of the loop of \<^verbatim>\<open>ObservePacket\<close>; the second component is \<^verbatim>\<open>seenThisPacket\<close>.\<close>

definition observe_span ::
    "u64 \<Rightarrow> span_observation \<Rightarrow> stats_map \<times> pattern_key list \<Rightarrow> stats_map \<times> pattern_key list"
where
  "observe_span packetID ob = (\<lambda>(stats, seenThisPacket).
     (let key = make_pattern_key (ConstA ob) (ConstB ob);
          (s, stats) =
            (case map_of stats key of
               Some s \<Rightarrow> (s, stats)
             | None \<Rightarrow>
                (let s = \<lparr>Hits = 0, Size = SpanSize ob,
                          FirstSeenEpoch = packetID, LastSeenEpoch = packetID\<rparr>
                 in (s, AList.update key s stats)))
      in if key \<notin> set seenThisPacket
         then (AList.update key (s\<lparr>Hits := Hits s + 1, LastSeenEpoch := packetID\<rparr>) stats,
               key # seenThisPacket)
         else (stats, seenThisPacket)))"

definition observe_packet ::
    "((pattern_key \<times> candidate_stats \<Rightarrow> pattern_key \<times> candidate_stats \<Rightarrow> bool) \<Rightarrow>
      stats_map \<Rightarrow> stats_map) \<Rightarrow> (nat \<Rightarrow> stats_map \<Rightarrow> stats_map) \<Rightarrow> u64 \<Rightarrow>
     span_observation list \<Rightarrow> aggregator \<Rightarrow> aggregator" where
  "observe_packet srt rng packetID obs a =
     maybe_evict srt rng packetID
       (a\<lparr>Stats := fst (fold (observe_span packetID) obs (Stats a, []))\<rparr>)"

section \<open>Eviction\<close>

lemma scan_candidate_absent:
  "key \<notin> fst ` set ev \<Longrightarrow> scan_candidate ev (key, s) found = found"
  by (induction ev arbitrary: found) (auto simp: scan_candidate_def)

lemma scan_candidate_present:
  assumes "distinct (map fst ev)" "key \<in> fst ` set ev"
  shows "scan_candidate ev (key, s) found =
    (case found of
       None \<Rightarrow> Some (key, worth (Some s))
     | Some (k, w) \<Rightarrow> if worth (Some s) < w then Some (key, worth (Some s)) else found)"
proof -
  from assms(2) obtain v where "(key, v) \<in> set ev" by auto
  then obtain xs ys where ev: "ev = xs @ (key, v) # ys" by (meson split_list)
  with assms(1) have k: "key \<notin> fst ` set xs" "key \<notin> fst ` set ys" by auto
  have "scan_candidate ev (key, s) found =
      scan_candidate ys (key, s) (scan_candidate [(key, v)] (key, s)
        (scan_candidate xs (key, s) found))"
    by (simp add: scan_candidate_def ev)
  then show ?thesis
    using k by (simp add: scan_candidate_absent) (simp add: scan_candidate_def Let_def)
qed

text \<open>After scanning a prefix, the lowest worth among its evictable entries has been found.\<close>

definition lowest_in :: "stats_map \<Rightarrow> stats_map \<Rightarrow> (pattern_key \<times> u64) option \<Rightarrow> bool" where
  "lowest_in ev scanned found =
     (case found of
        None \<Rightarrow> (\<forall>(k, s) \<in> set scanned. k \<notin> fst ` set ev)
      | Some (k, w) \<Rightarrow> (\<exists>s. (k, s) \<in> set scanned \<and> k \<in> fst ` set ev \<and> w = worth (Some s)) \<and>
          (\<forall>(k', s') \<in> set scanned. k' \<in> fst ` set ev \<longrightarrow> w \<le> worth (Some s')))"

lemma lowest_in_step:
  assumes "distinct (map fst ev)" "lowest_in ev scanned found"
  shows "lowest_in ev (scanned @ [(k, s)]) (scan_candidate ev (k, s) found)"
proof (cases "k \<in> fst ` set ev")
  case False
  with assms(2) show ?thesis
    by (auto simp: scan_candidate_absent lowest_in_def split: option.splits)
next
  case True
  show ?thesis
  proof (cases found)
    case None
    with assms True show ?thesis
      by (auto simp: scan_candidate_present lowest_in_def)
  next
    case (Some kw)
    obtain k0 w0 where kw: "kw = (k0, w0)" by fastforce
    have old: "\<exists>s. (k0, s) \<in> set scanned \<and> k0 \<in> fst ` set ev \<and> w0 = worth (Some s)"
      "\<And>k' s'. (k', s') \<in> set scanned \<Longrightarrow> k' \<in> fst ` set ev \<Longrightarrow> w0 \<le> worth (Some s')"
      using assms(2) unfolding Some kw lowest_in_def by auto
    show ?thesis
    proof (cases "worth (Some s) < w0")
      case True': True
      then have "\<And>k' s'. (k', s') \<in> set scanned \<Longrightarrow> k' \<in> fst ` set ev \<Longrightarrow>
          worth (Some s) \<le> worth (Some s')"
        using old(2) by (meson less_imp_le order_trans)
      with True True' assms(1) show ?thesis
        unfolding Some kw lowest_in_def by (auto simp: scan_candidate_present)
    next
      case False
      with True assms(1) old show ?thesis
        unfolding Some kw lowest_in_def by (auto simp: scan_candidate_present not_less)
    qed
  qed
qed

lemma lowest_in_fold:
  assumes "distinct (map fst ev)" "lowest_in ev scanned found"
  shows "lowest_in ev (scanned @ xs) (fold (scan_candidate ev) xs found)"
  using assms(2)
proof (induction xs arbitrary: scanned found)
  case Nil
  then show ?case by simp
next
  case (Cons x xs)
  have "lowest_in ev (scanned @ [x]) (scan_candidate ev x found)"
    using lowest_in_step [OF assms(1) Cons.prems, of "fst x" "snd x"] by simp
  from Cons.IH [OF this] show ?case by simp
qed

definition age :: "u64 \<Rightarrow> pattern_key \<times> candidate_stats \<Rightarrow> u64" where
  "age currentEpoch = (\<lambda>(_, s). currentEpoch - LastSeenEpoch s)"

lemma partition_facts:
  fixes e :: u64
  assumes srt: "slice_sort srt" and ne: "stats \<noteq> []"
    and dist: "distinct (map fst stats)"
  defines "part \<equiv> partition_stats_by_age srt stats e"
  shows "length (Protected part) = length stats div 2"
    and "length (Evictable part) = length stats - length stats div 2"
    and "set (Protected part) \<union> set (Evictable part) = set stats"
    and "fst ` set (Protected part) \<inter> fst ` set (Evictable part) = {}"
    and "distinct (map fst (Evictable part))"
    and "\<And>x y. x \<in> set (Protected part) \<Longrightarrow> y \<in> set (Evictable part) \<Longrightarrow> age e x \<le> age e y"
proof -
  let ?lt = "\<lambda>si sj. age e si < age e sj"
  let ?s = "srt ?lt stats" and ?h = "length stats div 2"
  have part: "Protected part = take ?h ?s" "Evictable part = drop ?h ?s"
    using ne slice_sort.length_srt [OF srt, of ?lt stats]
    by (simp_all add: part_def partition_stats_by_age_def Let_def age_def case_prod_unfold)
  have len: "length ?s = length stats" by (rule slice_sort.length_srt [OF srt])
  show "length (Protected part) = ?h" "length (Evictable part) = length stats - ?h"
    by (simp_all add: part len)
  show "set (Protected part) \<union> set (Evictable part) = set stats"
    by (simp add: part slice_sort.set_srt [OF srt] set_append [symmetric] del: set_append)
  have "distinct (map fst ?s)" by (rule slice_sort.map_fst_srt_distinct [OF srt dist])
  then have d: "distinct (map fst (take ?h ?s) @ map fst (drop ?h ?s))"
    by (simp add: map_append [symmetric] del: map_append)
  then show "fst ` set (Protected part) \<inter> fst ` set (Evictable part) = {}"
    "distinct (map fst (Evictable part))"
    unfolding part by (simp_all only: distinct_append set_map)
  show "age e x \<le> age e y" if "x \<in> set (Protected part)" "y \<in> set (Evictable part)" for x y
    using slice_sort.cut_le [OF srt, of x ?h "age e" stats y] that by (simp add: part)
qed

text \<open>
  The outcome of \<^verbatim>\<open>EvictOne\<close> as a relation: \<open>prot\<close> is a newest half of the candidates, and
  \<open>(k, s)\<close> is one of lowest worth among the others.
\<close>

definition newest_half :: "u64 \<Rightarrow> stats_map \<Rightarrow> stats_map \<Rightarrow> bool" where
  "newest_half e stats prot \<longleftrightarrow> distinct prot \<and> set prot \<subseteq> set stats \<and>
     length prot = length stats div 2 \<and>
     (\<forall>x \<in> set prot. \<forall>y \<in> set stats - set prot. age e x \<le> age e y)"

lemma partition_newest_half:
  fixes e :: u64
  assumes srt: "slice_sort srt" and rng: "map_range rng"
    and ne: "stats \<noteq> []" and dist: "distinct (map fst stats)"
  defines "part \<equiv> partition_stats_by_age srt (rng stats) e"
  shows "newest_half e stats (Protected part)"
    and "set (Evictable part) = set stats - set (Protected part)"
    and "distinct (map fst (Evictable part))" and "Evictable part \<noteq> []"
proof -
  have r: "rng stats \<noteq> []" "distinct (map fst (rng stats))" "length (rng stats) = length stats"
      "set (rng stats) = set stats"
    using ne map_range.length_rng [OF rng, of stats] map_range.distinct_keys_rng [OF rng dist]
      map_range.set_rng [OF rng, of stats] by auto
  note P = partition_facts [OF srt r(1,2), where e = e, folded part_def, unfolded r(3,4)]
  show ev: "set (Evictable part) = set stats - set (Protected part)"
    using P(3,4) by blast
  show "distinct (map fst (Evictable part))" by (rule P(5))
  have "length stats - length stats div 2 \<noteq> 0" using ne by (cases stats) auto
  then show "Evictable part \<noteq> []" using P(2) by auto
  have "distinct (Protected part)"
    using slice_sort.distinct_srt [OF srt] r(1,2)
    by (simp add: part_def partition_stats_by_age_def Let_def distinct_map)
  then show "newest_half e stats (Protected part)"
    using P(1,3,6) unfolding newest_half_def ev [symmetric] by blast
qed

lemma evict_one_cases:
  assumes srt: "slice_sort srt" and rng1: "map_range rng1" and rng2: "map_range rng2"
    and ne: "stats \<noteq> []" and dist: "distinct (map fst stats)"
  shows "\<exists>k s prot. newest_half e stats prot \<and> (k, s) \<in> set stats - set prot \<and>
    (\<forall>y \<in> set stats - set prot. worth (Some s) \<le> worth (Some (snd y))) \<and>
    evict_one srt rng1 rng2 stats e = (True, AList.delete k stats)"
proof -
  define part where "part = partition_stats_by_age srt (rng1 stats) e"
  note P = partition_newest_half [OF srt rng1 ne dist, where e = e, folded part_def]
  have key: "y \<in> set (Evictable part)"
    if "y \<in> set stats" "fst y \<in> fst ` set (Evictable part)" for y
  proof -
    from that(2) obtain z where z: "z \<in> set (Evictable part)" "fst z = fst y" by force
    with P(2) that(1) dist have "z = y" by (auto simp: distinct_map dest: inj_onD)
    with z show ?thesis by simp
  qed
  have "lowest_in (Evictable part) [] None" by (simp add: lowest_in_def)
  from lowest_in_fold [OF P(3) this, of "rng2 stats"]
  have low: "lowest_in (Evictable part) (rng2 stats)
      (fold (scan_candidate (Evictable part)) (rng2 stats) None)" by simp
  show ?thesis
  proof (cases "fold (scan_candidate (Evictable part)) (rng2 stats) None")
    case None
    from P(4) obtain x where x: "x \<in> set (Evictable part)" by (cases "Evictable part") auto
    from low None have "\<forall>(k, s) \<in> set stats. k \<notin> fst ` set (Evictable part)"
      by (simp add: lowest_in_def map_range.set_rng [OF rng2])
    moreover have "x \<in> set stats" using x P(2) by simp
    ultimately have "fst x \<notin> fst ` set (Evictable part)" by (auto simp: case_prod_unfold)
    with imageI [OF x, of fst] show ?thesis by contradiction
  next
    case (Some kw)
    obtain k w where kw: "kw = (k, w)" by fastforce
    have low': "(\<exists>s. (k, s) \<in> set stats \<and> k \<in> fst ` set (Evictable part) \<and> w = worth (Some s)) \<and>
        (\<forall>(k', s') \<in> set stats. k' \<in> fst ` set (Evictable part) \<longrightarrow> w \<le> worth (Some s'))"
      using low unfolding Some kw lowest_in_def option.case prod.case map_range.set_rng [OF rng2] .
    then obtain s where s: "(k, s) \<in> set stats" "k \<in> fst ` set (Evictable part)"
        "w = worth (Some s)" by blast
    have "(k, s) \<in> set stats - set (Protected part)" using key [of "(k, s)"] s P(2) by simp
    moreover have "worth (Some s) \<le> worth (Some (snd y))"
      if "y \<in> set stats - set (Protected part)" for y
      using low' that s(3) P(2) by force
    moreover have "evict_one srt rng1 rng2 stats e = (True, AList.delete k stats)"
      using ne P(4) Some kw by (simp add: evict_one_def part_def [symmetric] Let_def)
    ultimately show ?thesis using P(1) by blast
  qed
qed

section \<open>Counting\<close>

definition key_of :: "span_observation \<Rightarrow> pattern_key" where
  "key_of ob = make_pattern_key (ConstA ob) (ConstB ob)"

text \<open>What the first sighting of a pattern in a packet does to its statistics.\<close>

definition noted :: "u64 \<Rightarrow> span_observation \<Rightarrow> candidate_stats option \<Rightarrow> candidate_stats" where
  "noted packetID ob old =
     (case old of
        None \<Rightarrow> \<lparr>Hits = 1, Size = SpanSize ob, FirstSeenEpoch = packetID,
                LastSeenEpoch = packetID\<rparr>
      | Some s \<Rightarrow> s\<lparr>Hits := Hits s + 1, LastSeenEpoch := packetID\<rparr>)"

lemma map_of_update [simp]: "map_of (AList.update k v xs) = (map_of xs)(k \<mapsto> v)"
  by (rule update_conv')

lemma observe_span_effect:
  assumes "set seen \<subseteq> dom (map_of stats)"
  shows "map_of (fst (observe_span p ob (stats, seen))) =
      (if key_of ob \<in> set seen then map_of stats
       else (map_of stats)(key_of ob \<mapsto> noted p ob (map_of stats (key_of ob))))"
    and "snd (observe_span p ob (stats, seen)) =
      (if key_of ob \<in> set seen then seen else key_of ob # seen)"
  using assms
  by (auto simp: observe_span_def key_of_def noted_def Let_def split: option.splits)

lemma observe_span_distinct:
  "distinct (map fst (fst st)) \<Longrightarrow> distinct (map fst (fst (observe_span p ob st)))"
  by (auto simp: observe_span_def Let_def case_prod_unfold distinct_update split: option.splits)

lemma fold_observe_distinct:
  "distinct (map fst (fst st)) \<Longrightarrow> distinct (map fst (fst (fold (observe_span p) obs st)))"
  by (induction obs arbitrary: st) (auto simp: observe_span_distinct)

lemma fold_observe_effect:
  assumes "set seen \<subseteq> dom (map_of stats)"
  shows "map_of (fst (fold (observe_span p) obs (stats, seen))) k =
    (if k \<in> set seen then map_of stats k
     else case find (\<lambda>ob. key_of ob = k) obs of
       None \<Rightarrow> map_of stats k
     | Some ob \<Rightarrow> Some (noted p ob (map_of stats k)))"
  using assms
proof (induction obs arbitrary: stats seen)
  case Nil
  then show ?case by simp
next
  case (Cons ob obs)
  obtain stats1 seen1 where st: "observe_span p ob (stats, seen) = (stats1, seen1)" by fastforce
  have e: "map_of stats1 = (if key_of ob \<in> set seen then map_of stats
       else (map_of stats)(key_of ob \<mapsto> noted p ob (map_of stats (key_of ob))))"
    "seen1 = (if key_of ob \<in> set seen then seen else key_of ob # seen)"
    using observe_span_effect [OF Cons.prems, of p ob] by (simp_all add: st)
  have "set seen1 \<subseteq> dom (map_of stats1)" using Cons.prems e by auto
  from Cons.IH [OF this] show ?case
    by (cases "key_of ob \<in> set seen") (auto simp: st e split: option.splits)
qed

lemma maybe_evict_stats:
  assumes "slice_sort srt" "\<And>i. map_range (rng i)" "distinct (map fst (Stats a))"
  shows "Stats (maybe_evict srt rng e a) = Stats a \<or>
    (\<exists>k. Stats (maybe_evict srt rng e a) = AList.delete k (Stats a))"
proof (cases "Stats a = []")
  case True
  then show ?thesis by (simp add: maybe_evict_def evict_one_def)
next
  case False
  with evict_one_cases [OF assms(1) assms(2) [of 1] assms(2) [of 2] False assms(3), of e]
  show ?thesis by (auto simp: maybe_evict_def)
qed

section \<open>Properties\<close>

lemma unat_ucast_u32: "unat (ucast (x :: u32) :: u64) = unat x"
  using less_trans [OF unat_u32_lt [of x], of "2 ^ 64"]
  by (simp add: unsigned_ucast_eq take_bit_nat_eq_self)

text \<open>
  The worth of a candidate is computed without overflow: \<^verbatim>\<open>Worth\<close> is the product of hits
  and size as natural numbers, so comparing worths compares those products.
\<close>

theorem worth_exact: "unat (worth (Some s)) = unat (Hits s) * unat (Size s)"
proof -
  have "unat (Hits s) * unat (Size s) \<le> 4294967295 * 4294967295"
    by (rule mult_le_mono) (use unat_u32_lt [of "Hits s"] unat_u32_lt [of "Size s"] in linarith)+
  then have "unat (Hits s) * unat (Size s) < 2 ^ 64" by simp
  then show ?thesis
    by (simp add: worth_def unat_word_ariths unat_ucast_u32)
qed

text \<open>
  C26: Eviction removes exactly one candidate, and the right one. On a non-empty map, for
  every sorting function that meets the contract of \<^verbatim>\<open>sort.Slice\<close> and every order of each of
  the two \<^verbatim>\<open>range\<close> loops, \<^verbatim>\<open>EvictOne\<close> reports true and deletes one key. The candidates split
  into a newest half, of \<open>length div 2\<close> entries none of which is older than any entry outside
  it, and the old rest; the deleted candidate is in the rest and has the lowest worth there.
\<close>

theorem evict_one_lowest_worth_of_old_half:
  assumes "slice_sort srt" "map_range rng1" "map_range rng2" "stats \<noteq> []"
    and "distinct (map fst stats)"
  shows "\<exists>k s prot. evict_one srt rng1 rng2 stats e = (True, AList.delete k stats) \<and>
    distinct prot \<and> set prot \<subseteq> set stats \<and> length prot = length stats div 2 \<and>
    (\<forall>x \<in> set prot. \<forall>y \<in> set stats - set prot. age e x \<le> age e y) \<and>
    (k, s) \<in> set stats - set prot \<and>
    (\<forall>y \<in> set stats - set prot. worth (Some s) \<le> worth (Some (snd y)))"
  using evict_one_cases [OF assms, of e] unfolding newest_half_def by blast

text \<open>
  Four candidates last seen at 3, 2, 1 and 0 with worths 1, 10, 1 and 5: the third leaves, not
  the first (as cheap but new) and not the fourth (oldest but worth more).
\<close>

definition sample_stats :: stats_map where
  "sample_stats =
     [(PatternKey 1, \<lparr>Hits = 1, Size = 1, FirstSeenEpoch = 0, LastSeenEpoch = 3\<rparr>),
      (PatternKey 2, \<lparr>Hits = 5, Size = 2, FirstSeenEpoch = 0, LastSeenEpoch = 2\<rparr>),
      (PatternKey 3, \<lparr>Hits = 1, Size = 1, FirstSeenEpoch = 0, LastSeenEpoch = 1\<rparr>),
      (PatternKey 4, \<lparr>Hits = 1, Size = 5, FirstSeenEpoch = 0, LastSeenEpoch = 0\<rparr>)]"

theorem evict_one_lowest_worth_of_old_half_witness:
  "evict_one go_insertion_sort range_in_order rev sample_stats 3 =
      (True, AList.delete (PatternKey 3) sample_stats) \<and>
   (\<exists>s prot. distinct prot \<and> set prot \<subseteq> set sample_stats \<and> length prot = 2 \<and>
      (\<forall>x \<in> set prot. \<forall>y \<in> set sample_stats - set prot. age 3 x \<le> age 3 y) \<and>
      (PatternKey 3, s) \<in> set sample_stats - set prot \<and>
      (\<forall>y \<in> set sample_stats - set prot. worth (Some s) \<le> worth (Some (snd y))))"
proof -
  let ?run = "evict_one go_insertion_sort range_in_order rev sample_stats 3"
  have run: "?run = (True, AList.delete (PatternKey 3) sample_stats)"
    by (simp add: evict_one_def partition_stats_by_age_def sample_stats_def range_in_order_def
        go_insertion_sort_def go_insert_def scan_candidate_def worth_def)
  have len: "length sample_stats div 2 = 2" by (simp add: sample_stats_def)
  have key: "k = PatternKey 3" if "AList.delete k sample_stats = AList.delete (PatternKey 3) sample_stats"
      "(k, s) \<in> set sample_stats" for k s
    using that by (auto simp: sample_stats_def)
  have other: "map_range (rev :: stats_map \<Rightarrow> stats_map)" by unfold_locales simp
  have ok: "sample_stats \<noteq> []" "distinct (map fst sample_stats)"
    by (simp_all add: sample_stats_def)
  from evict_one_lowest_worth_of_old_half [OF insertion.slice_sort_axioms
      in_order.map_range_axioms other ok, of 3, unfolded len run]
  obtain k s prot where *: "AList.delete k sample_stats = AList.delete (PatternKey 3) sample_stats"
      "distinct prot" "set prot \<subseteq> set sample_stats" "length prot = 2"
      "\<forall>x \<in> set prot. \<forall>y \<in> set sample_stats - set prot. age 3 x \<le> age 3 y"
      "(k, s) \<in> set sample_stats - set prot"
      "\<forall>y \<in> set sample_stats - set prot. worth (Some s) \<le> worth (Some (snd y))"
    by auto
  then have "k = PatternKey 3" using key by blast
  with * run show ?thesis by blast
qed

text \<open>
  Each pattern is counted once per packet. After \<^verbatim>\<open>ObservePacket\<close>, every key that occurs
  among the observations has exactly one hit more than before (its size and first epoch
  fixed by its first sighting ever), all other keys are untouched, and at most one key is
  missing because of pressure eviction.
\<close>

theorem observe_packet_counts_once:
  assumes "slice_sort srt" "\<And>i. map_range (rng i)" "distinct (map fst (Stats a))"
  shows "\<exists>evicted. card evicted \<le> 1 \<and> finite evicted \<and>
    (\<forall>k. map_of (Stats (observe_packet srt rng p obs a)) k =
       (if k \<in> evicted then None
        else case find (\<lambda>ob. key_of ob = k) obs of
          None \<Rightarrow> map_of (Stats a) k
        | Some ob \<Rightarrow> Some (noted p ob (map_of (Stats a) k)))) \<and>
    distinct (map fst (Stats (observe_packet srt rng p obs a)))"
proof -
  let ?st = "fst (fold (observe_span p) obs (Stats a, []))"
  let ?a = "a\<lparr>Stats := ?st\<rparr>"
  have d: "distinct (map fst ?st)" using fold_observe_distinct [of "(Stats a, [])" p obs] assms(3) by simp
  have e: "map_of ?st k = (case find (\<lambda>ob. key_of ob = k) obs of
          None \<Rightarrow> map_of (Stats a) k
        | Some ob \<Rightarrow> Some (noted p ob (map_of (Stats a) k)))" for k
    using fold_observe_effect [of "[]" "Stats a" p obs k] by simp
  have "Stats (maybe_evict srt rng p ?a) = ?st \<or>
      (\<exists>k. Stats (maybe_evict srt rng p ?a) = AList.delete k ?st)"
    using maybe_evict_stats [of srt rng ?a p, OF assms(1,2)] d by simp
  then show ?thesis
  proof
    assume "Stats (maybe_evict srt rng p ?a) = ?st"
    then show ?thesis
      by (intro exI [of _ "{}"]) (simp add: observe_packet_def e d)
  next
    assume "\<exists>k. Stats (maybe_evict srt rng p ?a) = AList.delete k ?st"
    then obtain k where "Stats (maybe_evict srt rng p ?a) = AList.delete k ?st" ..
    then show ?thesis
      by (intro exI [of _ "{k}"]) (simp add: observe_packet_def e d distinct_delete)
  qed
qed

theorem observe_packet_counts_once_witness:
  "\<exists>evicted. card evicted \<le> 1 \<and> finite evicted \<and>
    (\<forall>k. map_of (Stats (observe_packet go_insertion_sort (\<lambda>_. range_in_order) 2
        [\<lparr>ConstA = str ''cpu='', ConstB = str '','', IntraHits = 1, SpanSize = 6,
          LastSeenOffset = 0\<rparr>] (new_aggregator 0))) k =
       (if k \<in> evicted then None
        else if k = make_pattern_key (str ''cpu='') (str '','')
        then Some \<lparr>Hits = 1, Size = 6, FirstSeenEpoch = 2, LastSeenEpoch = 2\<rparr> else None))"
  using observe_packet_counts_once
    [OF insertion.slice_sort_axioms in_order.map_range_axioms, of "new_aggregator 0" 2
      "[\<lparr>ConstA = str ''cpu='', ConstB = str '','', IntraHits = 1, SpanSize = 6,
          LastSeenOffset = 0\<rparr>]"]
  by (auto simp: new_aggregator_def key_of_def noted_def cong: if_cong)

text \<open>
  The pattern key does not identify the pattern: it hashes the concatenation of the two
  constants, so moving bytes from one constant to the other never changes it.
\<close>

theorem pattern_key_ignores_the_cut:
  "make_pattern_key (a @ c) b = make_pattern_key a (c @ b)"
  by (simp add: make_pattern_key_def)

end
