(* ===== verification/Encoder.thy ===== *)
theory Encoder
  imports Conn_State Http_Request Span_Learner
begin

text \<open>
  The encoder lane (\<^verbatim>\<open>internal/state/encode_v1.go\<close>, \<^verbatim>\<open>encode_helpers.go\<close>): header
  normalisation, factoring of header lines and of Influx line-protocol bodies into
  [CONST][VAR][CONST] segments, delayed promotion of a pattern to a template, and the
  request loop.
\<close>

section \<open>State\<close>

definition promoteAfterHits :: u32 where "promoteAfterHits = 3"

record span_stat =
  SHits :: u32
  Defined :: bool

record enc =
  Destination :: "sink option"
  Templates :: dict
  SpanStats :: "u16 \<rightharpoonup> span_stat"
  CStats :: conn_stats
  Obs :: "span_observation list option"

section \<open>The single write path\<close>

definition write_frame_count :: "frame_type \<Rightarrow> bytes \<Rightarrow> enc act" where
  "write_frame_count t payload cc =
     (case Destination cc of
        None \<Rightarrow> (Some ErrNilDestination, cc)
      | Some w \<Rightarrow>
          if t \<noteq> FrameRawData \<and> t \<noteq> FrameTemplateDefine \<and> t \<noteq> FrameTemplateRef \<and>
             t \<noteq> FrameTemplateInline \<and> t \<noteq> FrameEpochReset
          then (Some ErrInvalidFrameType, cc)
          else
            let cc = cc\<lparr>CStats := add_wire_out (HeaderSizeBytes + length payload) (CStats cc)\<rparr>;
                (err, w) = write_frame t FlagNone payload w
            in (err, cc\<lparr>Destination := Some w\<rparr>))"

definition count_raw_in :: "nat \<Rightarrow> enc act" where
  "count_raw_in n cc = (None, cc\<lparr>CStats := add_raw_in n (CStats cc)\<rparr>)"

section \<open>Delayed promotion\<close>

definition fnv1a_32_step :: "byte \<Rightarrow> u32 \<Rightarrow> u32" where
  "fnv1a_32_step b h = (h XOR ucast b) * 16777619"

definition template_id_for :: "bytes \<Rightarrow> bytes \<Rightarrow> u16" where
  "template_id_for constA constB =
     ucast (fold fnv1a_32_step constB (fold fnv1a_32_step constA 2166136261) AND 0xFFFF)"

text \<open>REF when it is smaller than RAW, else RAW (the tail of both promoted branches).\<close>

definition emit_ref_or_raw :: "u16 \<Rightarrow> bytes \<Rightarrow> bytes \<Rightarrow> enc act" where
  "emit_ref_or_raw tid lane raw =
     (case build_template_ref_payload (tid, lane) of
        Inr refPayload \<Rightarrow>
          if length refPayload < length raw then write_frame_count FrameTemplateRef refPayload
          else write_frame_count FrameRawData raw
      | Inl _ \<Rightarrow> write_frame_count FrameRawData raw)"

definition emit_with_delayed_promotion :: "bytes \<Rightarrow> bytes \<Rightarrow> bytes \<Rightarrow> enc act" where
  "emit_with_delayed_promotion constA lane constB cc =
     (let raw = constA @ lane @ constB
      in if length constA + length constB \<le> length lane
         then write_frame_count FrameRawData raw cc
         else
           let tid = template_id_for constA constB;
               st = (case SpanStats cc tid of Some st \<Rightarrow> st | None \<Rightarrow> \<lparr>SHits = 0, Defined = False\<rparr>);
               st = st\<lparr>SHits := SHits st + 1\<rparr>;
               cc = cc\<lparr>SpanStats := (SpanStats cc)(tid \<mapsto> st)\<rparr>
           in if SHits st < promoteAfterHits then write_frame_count FrameRawData raw cc
              else if \<not> Defined st
              then (case build_template_define_payload (tid, constA, constB) of
                      Inl _ \<Rightarrow> write_frame_count FrameRawData raw cc
                    | Inr defPayload \<Rightarrow>
                        and_then (write_frame_count FrameTemplateDefine defPayload)
                          (\<lambda>cc. emit_ref_or_raw tid lane raw
                             (cc\<lparr>Templates := (Templates cc)(tid \<mapsto>
                                   \<lparr>TID = tid, TConstA = constA, TConstB = constB\<rparr>),
                                 SpanStats := (SpanStats cc)(tid \<mapsto> st\<lparr>Defined := True\<rparr>)\<rparr>)) cc)
              else emit_ref_or_raw tid lane raw cc)"

section \<open>Headers\<close>

definition normalize_http_headers :: "unicode \<Rightarrow> bytes \<Rightarrow> int \<Rightarrow> bytes" where
  "normalize_http_headers U rawHdr bodyLen =
     (let lines = split_on CRLF rawHdr;
          kept = filter (\<lambda>line. let lower = to_lower U line in
                   \<not> has_prefix lower (str ''transfer-encoding:'') \<and>
                   \<not> has_prefix lower (str ''content-length:''))
                 (takeWhile (\<lambda>line. line \<noteq> []) (tl lines))
      in hd lines @ CRLF @ concat (map (\<lambda>line. line @ CRLF) kept)
         @ str ''Content-Length: '' @ itoa bodyLen @ CRLF @ CRLF)"

definition try_split_header_line :: "bytes \<Rightarrow> (bytes \<times> bytes \<times> bytes) option" where
  "try_split_header_line line =
     (if length line < 2 \<or> \<not> has_suffix line CRLF then None
      else case index_sub (str '': '') line of
        None \<Rightarrow> None
      | Some idx \<Rightarrow>
          if idx = 0 then None
          else Some (take (idx + 2) line,
                     take (length line - 2 - (idx + 2)) (drop (idx + 2) line), CRLF))"

text \<open>The loop over the lines of a header; \<open>rest = []\<close> marks the last one.\<close>

fun encode_lines :: "bytes list \<Rightarrow> enc act" where
  "encode_lines [] = ok"
| "encode_lines (line # rest) =
     (let line = (if rest \<noteq> [] then line @ CRLF else line)
      in if length line = 0 then encode_lines rest
         else and_then (count_raw_in (length line))
          (case try_split_header_line line of
             Some (constA, lane, constB) \<Rightarrow>
               and_then (emit_with_delayed_promotion constA lane constB) (encode_lines rest)
           | None \<Rightarrow> and_then (write_frame_count FrameRawData line) (encode_lines rest)))"

definition encode_header_lines :: "bytes \<Rightarrow> enc act" where
  "encode_header_lines hdr = encode_lines (split_on CRLF hdr)"

section \<open>Bodies\<close>

text \<open>
  \<^verbatim>\<open>selectDelim\<close>: keep the delimiter with the smallest absolute index, the earlier call
  winning ties; \<open>None\<close> for \<^verbatim>\<open>delimIdx < 0\<close>.
\<close>

definition select_delim ::
    "nat \<Rightarrow> nat option \<times> byte \<Rightarrow> (nat \<times> byte) option \<Rightarrow> (nat \<times> byte) option" where
  "select_delim valStart = (\<lambda>(idx, b) sel.
     case idx of
       None \<Rightarrow> sel
     | Some i \<Rightarrow>
        (let a = valStart + i
         in (case sel of
               None \<Rightarrow> Some (a, b)
             | Some (delimIdx, _) \<Rightarrow> if a < delimIdx then Some (a, b) else sel)))"

definition find_delim :: "bytes \<Rightarrow> nat \<Rightarrow> (nat \<times> byte) option" where
  "find_delim line valStart =
     (let rest = drop valStart line
      in select_delim valStart (index_byte 10 rest, 10)
          (select_delim valStart (index_byte 32 rest, 32)
            (select_delim valStart (index_byte 44 rest, 44) None)))"

definition observe :: "span_observation \<Rightarrow> enc act" where
  "observe ob cc = (None, cc\<lparr>Obs := map_option (\<lambda>obs. obs @ [ob]) (Obs cc)\<rparr>)"

lemma find_delim_ge: "find_delim line v = Some (d, b) \<Longrightarrow> v \<le> d"
  by (auto simp: find_delim_def select_delim_def Let_def split: option.splits if_splits)

function encode_influx_from :: "bytes \<Rightarrow> u64 \<Rightarrow> nat \<Rightarrow> enc act" where
  "encode_influx_from line lineStartOffset cur =
     (case index_byte 61 (drop cur line) of
        None \<Rightarrow> write_frame_count FrameRawData (drop cur line)
      | Some e \<Rightarrow>
         (let eq = cur + e;
              constA = take (eq + 1 - cur) (drop cur line);
              valStart = eq + 1
          in (case find_delim line valStart of
                None \<Rightarrow> write_frame_count FrameRawData (drop cur line)
              | Some (delimIdx, delimByte) \<Rightarrow>
                  if delimIdx \<le> valStart then write_frame_count FrameRawData (drop cur line)
                  else
                    let lane = take (delimIdx - valStart) (drop valStart line);
                        constB = [delimByte];
                        lastSeen = lineStartOffset + of_nat (delimIdx + 1)
                    in and_then
                         (observe \<lparr>ConstA = constA, ConstB = constB, IntraHits = 1,
                            SpanSize = of_nat (length constA + length lane + length constB),
                            LastSeenOffset = lastSeen\<rparr>)
                       (and_then (emit_with_delayed_promotion constA lane constB)
                         (if delimByte = 44
                          then encode_influx_from line lineStartOffset (delimIdx + 1)
                          else if delimByte = 32
                          then write_frame_count FrameRawData (drop (delimIdx + 1) line)
                          else ok)))))"
  by pat_completeness auto
termination
proof (relation "measure (\<lambda>(line, off, cur). length line - cur)", goal_cases)
  case 1
  show ?case by simp
next
  case (2 line off cur e)
  then have "drop cur line \<noteq> []" by (auto simp: index_byte_Some_iff)
  with 2 show ?case by auto
qed

declare encode_influx_from.simps [simp del]

definition encode_influx_line_kv :: "bytes \<Rightarrow> u64 \<Rightarrow> enc act" where
  "encode_influx_line_kv line lineStartOffset =
     (if length line < 2 \<or> line ! (length line - 1) \<noteq> 10
      then write_frame_count FrameRawData line
      else encode_influx_from line lineStartOffset 0)"

function encode_body_from :: "bytes \<Rightarrow> u64 \<Rightarrow> nat \<Rightarrow> enc act" where
  "encode_body_from body bodyBaseOffset i =
     (if i < length body
      then (case index_byte 10 (drop i body) of
              None \<Rightarrow> write_frame_count FrameRawData (drop i body)
            | Some k \<Rightarrow>
               (let j = i + k + 1;
                    line = take (j - i) (drop i body)
                in and_then (count_raw_in (length line))
                  (and_then (encode_influx_line_kv line (bodyBaseOffset + of_nat i))
                    (encode_body_from body bodyBaseOffset j))))
      else ok)"
  by pat_completeness auto
termination
  by (relation "measure (\<lambda>(body, off, i). length body - i)") auto

declare encode_body_from.simps [simp del]

definition encode_body_as_lines :: "bytes \<Rightarrow> u64 \<Rightarrow> enc act" where
  "encode_body_as_lines body bodyBaseOffset = encode_body_from body bodyBaseOffset 0"

section \<open>The request loop\<close>

definition rawWindowSizeBytes :: nat where "rawWindowSizeBytes = 2 * 1024 * 1024"

text \<open>
  What the environment decides: when the context is found cancelled (by loop iteration),
  the Unicode tables, the outcome of \<^verbatim>\<open>sort.Slice\<close> and the order of each of the
  \<^verbatim>\<open>range\<close> loops over the candidates.
\<close>

record go_env =
  ctx_done :: "nat \<Rightarrow> bool"
  tables :: unicode
  sort_slice :: "(pattern_key \<times> candidate_stats \<Rightarrow> pattern_key \<times> candidate_stats \<Rightarrow> bool) \<Rightarrow>
    stats_map \<Rightarrow> stats_map"
  range_order :: "nat \<Rightarrow> stats_map \<Rightarrow> stats_map"

record enc_lane =
  Enc :: enc
  Learner :: aggregator
  PacketID :: u64
  TruthOffset :: u64
  RawWindowFwd :: "raw_window option"

definition observe_window :: "bytes \<Rightarrow> raw_window option \<Rightarrow> raw_window option" where
  "observe_window p w = (if length p > 0 then map_option (rw_append p) w else w)"

text \<open>One iteration of the loop of \<^verbatim>\<open>runEncodeTemplateV1\<close>, after a request has been read.\<close>

definition encode_request :: "go_env \<Rightarrow> request_meta \<Rightarrow> bytes \<Rightarrow> enc_lane act" where
  "encode_request E meta body st =
    (let packetID = PacketID st + 1;
         hdr = normalize_http_headers (tables E) (HeaderBytes meta) (int (length body));
         pktStart = TruthOffset st;
         bodyBase = pktStart + of_nat (length hdr);
         pktEnd = pktStart + of_nat (length hdr + length body);
         learner = (Learner st)\<lparr>WindowEnd := pktEnd,
           WindowStart := (if pktEnd > of_nat rawWindowSizeBytes
                           then pktEnd - of_nat rawWindowSizeBytes else 0)\<rparr>;
         window = observe_window body (observe_window hdr (RawWindowFwd st));
         st = st\<lparr>PacketID := packetID, Learner := learner, RawWindowFwd := window\<rparr>
     in (case encode_header_lines hdr (Enc st) of
           (Some err, cc) \<Rightarrow> (Some err, st\<lparr>Enc := cc\<rparr>)
         | (None, cc) \<Rightarrow>
             if length body > 0
             then (case and_then (count_raw_in (length body)) (encode_body_as_lines body bodyBase)
                          (cc\<lparr>Obs := Some []\<rparr>) of
                     (Some err, cc) \<Rightarrow> (Some err, st\<lparr>Enc := cc\<rparr>)
                   | (None, cc) \<Rightarrow>
                      (let obs = (case Obs cc of Some obs \<Rightarrow> obs | None \<Rightarrow> []);
                           learner = (if length obs > 0
                             then observe_packet (sort_slice E) (range_order E) packetID obs learner
                             else learner)
                       in (None, st\<lparr>Enc := cc, Learner := learner, TruthOffset := pktEnd\<rparr>)))
             else (None, st\<lparr>Enc := cc, TruthOffset := pktEnd\<rparr>)))"

definition maxHeaderBytes :: int where "maxHeaderBytes = 64 * 1024"
definition maxBodyBytes :: int where "maxBodyBytes = 16 * 1024 * 1024"

lemma maxBodyBytes_bounds: "0 \<le> maxBodyBytes" "maxBodyBytes < 2 ^ 62"
  by (simp_all add: maxBodyBytes_def)

function encode_loop :: "go_env \<Rightarrow> nat \<Rightarrow> reader \<Rightarrow> enc_lane act" where
  "encode_loop E k r st =
     (if ctx_done E k then (Some ErrCanceled, st)
      else case read_http_request_body (tables E) r maxHeaderBytes maxBodyBytes of
        Inl err \<Rightarrow> (if err = ErrEOF then None else Some err, st)
      | Inr (meta, body, r') \<Rightarrow>
         (case encode_request E meta body st of
            (Some err, st') \<Rightarrow> (Some err, st')
          | (None, st') \<Rightarrow> encode_loop E (Suc k) r' st'))"
  by pat_completeness auto
termination
  by (relation "measure (\<lambda>(E, k, r, st). length (rd_bytes r))")
    (auto dest: read_http_shorter [OF _ maxBodyBytes_bounds])

declare encode_loop.simps [simp del]

text \<open>
  \<^verbatim>\<open>runEncodeTemplateV1\<close>: fresh per-connection promotion statistics and learner, the
  dictionary, destination, counters and observer of the connection.
\<close>

definition run_encode_template_v1 ::
    "go_env \<Rightarrow> sink option \<Rightarrow> dict option \<Rightarrow> conn_stats \<Rightarrow> raw_window option \<Rightarrow> reader \<Rightarrow>
     go_error option \<times> enc_lane" where
  "run_encode_template_v1 E dst d stats window r =
     encode_loop E 0 r
       \<lparr>Enc = \<lparr>Destination = dst, Templates = (case d of Some m \<Rightarrow> m | None \<Rightarrow> new_dict),
               SpanStats = Map.empty, CStats = stats, Obs = None\<rparr>,
        Learner = (new_aggregator (1 * 1024 * 1024))\<lparr>WindowStart := 0, WindowEnd := 0\<rparr>,
        PacketID = 0, TruthOffset = 0, RawWindowFwd = window\<rparr>"

end
