(* ===== verification/Frame_Semantics.thy ===== *)
theory Frame_Semantics
  imports Encoder
begin

text \<open>
  What a sequence of frames means, independently of the code of either end: the templates a
  receiver holds after it and the byte strings it stands for. The second half shows that
  the encoder's operations emit frames that mean the bytes they were given.
\<close>

section \<open>The meaning of frames\<close>

type_synonym frame = "frame_type \<times> bytes"

definition wire_of :: "frame list \<Rightarrow> bytes" where
  "wire_of fs = concat (map (\<lambda>(t, p). frame_image t p) fs)"

definition frames_ok :: "frame list \<Rightarrow> bool" where
  "frames_ok = list_all (\<lambda>(t, p). frame_ok t p)"

fun frame_meaning :: "dict \<Rightarrow> frame \<Rightarrow> (dict \<times> bytes list) option" where
  "frame_meaning T (t, p) =
     (if t = FrameRawData then Some (T, [p])
      else if t = FrameTemplateDefine then
        (case parse_template_define_payload p of
           Inl _ \<Rightarrow> None
         | Inr (tid, a, b) \<Rightarrow> Some (T(tid \<mapsto> \<lparr>TID = tid, TConstA = a, TConstB = b\<rparr>), []))
      else if t = FrameTemplateRef then
        (case parse_template_ref_payload p of
           Inl _ \<Rightarrow> None
         | Inr (tid, lane) \<Rightarrow>
             map_option (\<lambda>tm. (T, [TConstA tm @ lane @ TConstB tm])) (T tid))
      else None)"

fun expand :: "dict \<Rightarrow> frame list \<Rightarrow> (dict \<times> bytes list) option" where
  "expand T [] = Some (T, [])"
| "expand T (f # fs) =
     (case frame_meaning T f of
        None \<Rightarrow> None
      | Some (T', cs) \<Rightarrow> map_option (\<lambda>(T'', cs'). (T'', cs @ cs')) (expand T' fs))"

declare frame_meaning.simps [simp del]

lemma frame_meaning_raw [simp]: "frame_meaning T (FrameRawData, p) = Some (T, [p])"
  by (simp add: frame_meaning.simps)

lemma frame_meaning_define:
  "parse_template_define_payload p = Inr (tid, a, b) \<Longrightarrow>
     frame_meaning T (FrameTemplateDefine, p) =
       Some (T(tid \<mapsto> \<lparr>TID = tid, TConstA = a, TConstB = b\<rparr>), [])"
  by (simp add: frame_meaning.simps)

lemma frame_meaning_ref:
  "parse_template_ref_payload p = Inr (tid, lane) \<Longrightarrow> T tid = Some tm \<Longrightarrow>
     frame_meaning T (FrameTemplateRef, p) = Some (T, [TConstA tm @ lane @ TConstB tm])"
  by (simp add: frame_meaning.simps)

lemma wire_of_simps [simp]:
  "wire_of [] = []" "wire_of ((t, p) # fs) = frame_image t p @ wire_of fs"
  "wire_of (fs @ gs) = wire_of fs @ wire_of gs"
  by (simp_all add: wire_of_def)

lemma frames_ok_simps [simp]:
  "frames_ok []" "frames_ok ((t, p) # fs) \<longleftrightarrow> frame_ok t p \<and> frames_ok fs"
  "frames_ok (fs @ gs) \<longleftrightarrow> frames_ok fs \<and> frames_ok gs"
  by (simp_all add: frames_ok_def)

lemma expand_append:
  "expand T fs = Some (T', cs) \<Longrightarrow> expand T' gs = Some (T'', ds) \<Longrightarrow>
     expand T (fs @ gs) = Some (T'', cs @ ds)"
  by (induction fs arbitrary: T cs) (auto split: option.splits)

section \<open>Emitting\<close>

definition sent :: "enc \<Rightarrow> bytes" where
  "sent cc = (case Destination cc of None \<Rightarrow> [] | Some w \<Rightarrow> snk_bytes w)"

type_synonym pattern = "bytes \<times> bytes"

text \<open>
  The patterns a session uses are unambiguous when the 16-bit ids tell them apart and their
  constants (and so every lane shorter than them) fit the 16-bit length fields.
\<close>

definition unambiguous :: "pattern set \<Rightarrow> bool" where
  "unambiguous P \<longleftrightarrow>
     inj_on (\<lambda>(a, b). template_id_for a b) P \<and> (\<forall>(a, b) \<in> P. length a + length b < 65536)"

lemma unambiguous_eq:
  assumes "unambiguous P" "(a, b) \<in> P" "(c, d) \<in> P"
    and "template_id_for a b = template_id_for c d"
  shows "a = c \<and> b = d"
proof -
  have "inj_on (\<lambda>(a, b). template_id_for a b) P" using assms(1) by (simp add: unambiguous_def)
  from inj_onD [OF this, of "(a, b)" "(c, d)"] assms(2-4) show ?thesis by simp
qed

lemma unambiguous_small: "unambiguous P \<Longrightarrow> (a, b) \<in> P \<Longrightarrow> length a + length b < 65536"
  by (auto simp: unambiguous_def)

text \<open>Every id marked as defined has its template, made of one of the patterns, on the wire.\<close>

definition defined_ok :: "pattern set \<Rightarrow> enc \<Rightarrow> bool" where
  "defined_ok P cc \<longleftrightarrow>
     (\<forall>tid st. SpanStats cc tid = Some st \<longrightarrow> Defined st \<longrightarrow>
        (\<exists>a b. (a, b) \<in> P \<and> template_id_for a b = tid \<and>
           Templates cc tid = Some \<lparr>TID = tid, TConstA = a, TConstB = b\<rparr>))"

text \<open>
  \<open>step_means P cc cc' text\<close>: between the two states the encoder has sent a sequence of
  allowed frames which, for a receiver holding the encoder's templates, means \<open>text\<close> and
  leaves the receiver with the encoder's templates again; what they define are patterns of \<open>P\<close>
  under their own ids.
\<close>

definition defines_from :: "pattern set \<Rightarrow> frame \<Rightarrow> bool" where
  "defines_from P = (\<lambda>(t, p). t = FrameTemplateDefine \<longrightarrow>
     (\<exists>a b. (a, b) \<in> P \<and> parse_template_define_payload p = Inr (template_id_for a b, a, b)))"

definition step_means :: "pattern set \<Rightarrow> enc \<Rightarrow> enc \<Rightarrow> bytes \<Rightarrow> bool" where
  "step_means P cc cc' text \<longleftrightarrow>
     (\<exists>fs cs. sent cc' = sent cc @ wire_of fs \<and> frames_ok fs \<and> list_all (defines_from P) fs \<and>
        expand (Templates cc) fs = Some (Templates cc', cs) \<and> concat cs = text)"

definition emits :: "pattern set \<Rightarrow> enc act \<Rightarrow> bytes \<Rightarrow> bool" where
  "emits P f text \<longleftrightarrow>
     (\<forall>cc cc'. defined_ok P cc \<longrightarrow> f cc = (None, cc') \<longrightarrow>
        defined_ok P cc' \<and> step_means P cc cc' text)"

lemma step_means_trans:
  assumes "step_means P cc cc' x" "step_means P cc' cc'' y"
  shows "step_means P cc cc'' (x @ y)"
proof -
  obtain fs cs gs ds where
      1: "sent cc' = sent cc @ wire_of fs" "frames_ok fs" "list_all (defines_from P) fs"
        "expand (Templates cc) fs = Some (Templates cc', cs)" "concat cs = x"
    and 2: "sent cc'' = sent cc' @ wire_of gs" "frames_ok gs" "list_all (defines_from P) gs"
        "expand (Templates cc') gs = Some (Templates cc'', ds)" "concat ds = y"
    using assms unfolding step_means_def by blast
  then show ?thesis
    unfolding step_means_def
    by (intro exI [of _ "fs @ gs"] exI [of _ "cs @ ds"]) (simp add: expand_append)
qed

lemma emitsI:
  "(\<And>cc cc'. defined_ok P cc \<Longrightarrow> f cc = (None, cc') \<Longrightarrow>
      defined_ok P cc' \<and> step_means P cc cc' text) \<Longrightarrow> emits P f text"
  by (simp add: emits_def)

lemma emitsD:
  "emits P f text \<Longrightarrow> defined_ok P cc \<Longrightarrow> f cc = (None, cc') \<Longrightarrow>
     defined_ok P cc' \<and> step_means P cc cc' text"
  unfolding emits_def by blast

lemma emits_and_then:
  assumes "emits P f x" "emits P g y"
  shows "emits P (and_then f g) (x @ y)"
proof (rule emitsI)
  fix cc cc'
  assume inv: "defined_ok P cc" and "and_then f g cc = (None, cc')"
  then obtain c where "f cc = (None, c)" "g c = (None, cc')"
    by (blast dest: and_then_NoneD)
  with inv assms show "defined_ok P cc' \<and> step_means P cc cc' (x @ y)"
    by (blast dest: emitsD intro: step_means_trans)
qed

text \<open>Acts that touch neither the wire nor the templates.\<close>

lemma emits_silent:
  assumes "\<And>cc. \<exists>cc'. f cc = (None, cc') \<and> Destination cc' = Destination cc \<and>
    Templates cc' = Templates cc \<and> SpanStats cc' = SpanStats cc"
  shows "emits P f []"
proof (rule emitsI)
  fix cc cc'
  assume "defined_ok P cc" "f cc = (None, cc')"
  moreover from this assms [of cc] have "Destination cc' = Destination cc"
      "Templates cc' = Templates cc" "SpanStats cc' = SpanStats cc"
    by auto
  ultimately show "defined_ok P cc' \<and> step_means P cc cc' []"
    unfolding step_means_def defined_ok_def sent_def
    by (auto intro!: exI [of _ "[]"])
qed

lemma emits_count_raw_in [simp]: "emits P (count_raw_in n) []"
  by (rule emits_silent) (simp add: count_raw_in_def)

lemma emits_observe [simp]: "emits P (observe ob) []"
  by (rule emits_silent) (simp add: observe_def)

lemma emits_ok [simp]: "emits P ok []"
  by (rule emits_silent) (simp add: ok_def)

lemma emits_silent_then:
  "emits P f [] \<Longrightarrow> emits P g y \<Longrightarrow> emits P (and_then f g) y"
  using emits_and_then [of P f "[]" g y] by simp

subsection \<open>Single frames\<close>

lemma write_frame_count_okD:
  assumes "write_frame_count t p cc = (None, cc')"
  shows "sent cc' = sent cc @ frame_image t p \<and> frame_ok t p \<and>
    Templates cc' = Templates cc \<and> SpanStats cc' = SpanStats cc \<and> Obs cc' = Obs cc"
proof -
  from assms obtain w w' where w: "Destination cc = Some w"
    and wf: "write_frame t FlagNone p w = (None, w')"
    and cc': "cc' = cc\<lparr>CStats := add_wire_out (HeaderSizeBytes + length p) (CStats cc),
      Destination := Some w'\<rparr>"
    by (auto simp: write_frame_count_def Let_def split: option.splits if_splits prod.splits)
  from write_frame_okD [OF wf] w cc' show ?thesis by (simp add: sent_def)
qed

lemma frame_means:
  assumes "write_frame_count t p cc = (None, cc')"
    and "frame_meaning (Templates cc) (t, p) = Some (Templates cc, [text])" "t \<noteq> FrameTemplateDefine"
  shows "step_means P cc cc' text"
  using write_frame_count_okD [OF assms(1)] assms(2,3) unfolding step_means_def
  by (intro exI [of _ "[(t, p)]"] exI [of _ "[text]"]) (simp add: defines_from_def)

lemma defined_ok_cong:
  "SpanStats cc' = SpanStats cc \<Longrightarrow> Templates cc' = Templates cc \<Longrightarrow>
     defined_ok P cc' = defined_ok P cc"
  by (simp add: defined_ok_def)

lemma emits_raw: "emits P (write_frame_count FrameRawData p) p"
proof (rule emitsI)
  fix cc cc'
  assume inv: "defined_ok P cc" and w: "write_frame_count FrameRawData p cc = (None, cc')"
  have "defined_ok P cc'"
    using defined_ok_cong [of cc' cc P] write_frame_count_okD [OF w] inv by simp
  moreover have "step_means P cc cc' p"
    by (rule frame_means [OF w]) (rule frame_meaning_raw, simp)
  ultimately show "defined_ok P cc' \<and> step_means P cc cc' p" ..
qed

lemma build_ref_fits:
  assumes "length lane < 65536"
  shows "\<exists>p. build_template_ref_payload (tid, lane) = Inr p \<and>
    parse_template_ref_payload p = Inr (tid, lane)"
  using ref_codec.roundtrip [of "(tid, lane)"] assms by (auto simp: ref_fits_def)

text \<open>A REF or RAW frame for a template both ends hold.\<close>

lemma emit_ref_or_raw_means:
  assumes "emit_ref_or_raw tid lane (a @ lane @ b) cc = (None, cc')"
    and "Templates cc tid = Some \<lparr>TID = tid, TConstA = a, TConstB = b\<rparr>"
    and "length lane < 65536"
  shows "step_means P cc cc' (a @ lane @ b) \<and> Templates cc' = Templates cc \<and>
    SpanStats cc' = SpanStats cc"
proof -
  obtain p where p: "build_template_ref_payload (tid, lane) = Inr p"
      "parse_template_ref_payload p = Inr (tid, lane)"
    using build_ref_fits [OF assms(3)] by blast
  from assms(1) p(1) obtain t q where w: "write_frame_count t q cc = (None, cc')"
    and tq: "t = FrameTemplateRef \<and> q = p \<or> t = FrameRawData \<and> q = a @ lane @ b"
    by (auto simp: emit_ref_or_raw_def split: if_splits)
  have "frame_meaning (Templates cc) (t, q) = Some (Templates cc, [a @ lane @ b])"
    using tq frame_meaning_ref [OF p(2), of "Templates cc", OF assms(2)]
      frame_meaning_raw [of "Templates cc"] by auto
  moreover have "t \<noteq> FrameTemplateDefine" using tq by auto
  ultimately show ?thesis using frame_means [OF w] write_frame_count_okD [OF w] by simp
qed

lemma define_means:
  assumes "write_frame_count FrameTemplateDefine p cc = (None, cc')"
    and "build_template_define_payload (tid, a, b) = Inr p"
    and "length a < 65536" "length b < 65536" "(a, b) \<in> P" "tid = template_id_for a b"
  shows "step_means P cc
    (cc'\<lparr>Templates := (Templates cc')(tid \<mapsto> \<lparr>TID = tid, TConstA = a, TConstB = b\<rparr>),
         SpanStats := S\<rparr>) []"
proof -
  have p: "parse_template_define_payload p = Inr (tid, a, b)"
    using define_codec.parse_build [OF _ assms(2)] assms(3,4) by (simp add: define_fits_def)
  note m = frame_meaning_define [OF p, of "Templates cc"]
  have "defines_from P (FrameTemplateDefine, p)" using p assms(5,6) by (auto simp: defines_from_def)
  with write_frame_count_okD [OF assms(1)] m show ?thesis
    unfolding step_means_def
    by (intro exI [of _ "[(FrameTemplateDefine, p)]"] exI [of _ "[]"]) (simp add: sent_def)
qed


subsection \<open>Delayed promotion\<close>

lemma defined_ok_count:
  assumes "defined_ok P cc" and "Defined st \<Longrightarrow> \<exists>st0. SpanStats cc tid = Some st0 \<and> Defined st0"
  shows "defined_ok P (cc\<lparr>SpanStats := (SpanStats cc)(tid \<mapsto> st)\<rparr>)"
  using assms unfolding defined_ok_def by (auto split: if_splits)

lemma defined_ok_define:
  assumes "defined_ok P cc" "(a, b) \<in> P" 
  shows "defined_ok P (cc\<lparr>Templates := (Templates cc)(template_id_for a b \<mapsto>
        \<lparr>TID = template_id_for a b, TConstA = a, TConstB = b\<rparr>),
      SpanStats := (SpanStats cc)(template_id_for a b \<mapsto> st)\<rparr>)"
  using assms by (auto simp: defined_ok_def)

lemma step_means_start:
  "sent c1 = sent c2 \<Longrightarrow> Templates c1 = Templates c2 \<Longrightarrow> step_means P c1 cc' x = step_means P c2 cc' x"
  by (simp add: step_means_def)

text \<open>
  The three outcomes of a promotion: RAW, DEFINE followed by REF or RAW, REF or RAW for a
  template that is already defined.
\<close>

lemma emit_promotion_cases:
  assumes "emit_with_delayed_promotion a lane b cc = (None, cc')"
  obtains (raw) "write_frame_count FrameRawData (a @ lane @ b) cc = (None, cc')"
  | (young) st where "write_frame_count FrameRawData (a @ lane @ b)
        (cc\<lparr>SpanStats := (SpanStats cc)(template_id_for a b \<mapsto> st)\<rparr>) = (None, cc')"
      "Defined st \<Longrightarrow> \<exists>st0. SpanStats cc (template_id_for a b) = Some st0 \<and> Defined st0"
  | (defining) st p c where "length lane < length a + length b"
      "build_template_define_payload (template_id_for a b, a, b) = Inr p"
      "write_frame_count FrameTemplateDefine p
        (cc\<lparr>SpanStats := (SpanStats cc)(template_id_for a b \<mapsto> st)\<rparr>) = (None, c)"
      "emit_ref_or_raw (template_id_for a b) lane (a @ lane @ b)
        (c\<lparr>Templates := (Templates c)(template_id_for a b \<mapsto>
              \<lparr>TID = template_id_for a b, TConstA = a, TConstB = b\<rparr>),
           SpanStats := (SpanStats c)(template_id_for a b \<mapsto> st\<lparr>Defined := True\<rparr>)\<rparr>) = (None, cc')"
      "\<not> Defined st"
  | (promoted) st where "length lane < length a + length b" "Defined st"
      "\<exists>st0. SpanStats cc (template_id_for a b) = Some st0 \<and> Defined st0"
      "emit_ref_or_raw (template_id_for a b) lane (a @ lane @ b)
        (cc\<lparr>SpanStats := (SpanStats cc)(template_id_for a b \<mapsto> st)\<rparr>) = (None, cc')"
proof -
  let ?tid = "template_id_for a b"
  let ?st0 = "case SpanStats cc ?tid of Some st \<Rightarrow> st | None \<Rightarrow> \<lparr>SHits = 0, Defined = False\<rparr>"
  let ?st = "?st0\<lparr>SHits := SHits ?st0 + 1\<rparr>"
  let ?cc = "cc\<lparr>SpanStats := (SpanStats cc)(?tid \<mapsto> ?st)\<rparr>"
  have old: "Defined ?st \<Longrightarrow> \<exists>st0. SpanStats cc ?tid = Some st0 \<and> Defined st0"
    by (auto split: option.splits)
  note run = assms [unfolded emit_with_delayed_promotion_def Let_def]
  show thesis
  proof (cases "length a + length b \<le> length lane")
    case True
    with run show thesis by (intro raw) simp
  next
    case big: False
    then have lane: "length lane < length a + length b" by simp
    show thesis
    proof (cases "SHits ?st < promoteAfterHits")
      case True
      with run big have "write_frame_count FrameRawData (a @ lane @ b) ?cc = (None, cc')" by simp
      then show thesis by (rule young [OF _ old])
    next
      case hits: False
      show thesis
      proof (cases "Defined ?st")
        case True
        with run big hits have "emit_ref_or_raw ?tid lane (a @ lane @ b) ?cc = (None, cc')" by simp
        then show thesis by (rule promoted [OF lane True old [OF True]])
      next
        case undef: False
        show thesis
        proof (cases "build_template_define_payload (?tid, a, b)")
          case (Inl e)
          with run big hits undef
          have "write_frame_count FrameRawData (a @ lane @ b) ?cc = (None, cc')" by simp
          then show thesis by (rule young [OF _ old])
        next
          case (Inr p)
          with run big hits undef
          have "and_then (write_frame_count FrameTemplateDefine p)
              (\<lambda>c. emit_ref_or_raw ?tid lane (a @ lane @ b)
                (c\<lparr>Templates := (Templates c)(?tid \<mapsto> \<lparr>TID = ?tid, TConstA = a, TConstB = b\<rparr>),
                   SpanStats := (SpanStats c)(?tid \<mapsto> ?st\<lparr>Defined := True\<rparr>)\<rparr>)) ?cc = (None, cc')"
            by simp
          from and_then_NoneD [OF this] obtain c where
            "write_frame_count FrameTemplateDefine p ?cc = (None, c)"
            "emit_ref_or_raw ?tid lane (a @ lane @ b)
                (c\<lparr>Templates := (Templates c)(?tid \<mapsto> \<lparr>TID = ?tid, TConstA = a, TConstB = b\<rparr>),
                   SpanStats := (SpanStats c)(?tid \<mapsto> ?st\<lparr>Defined := True\<rparr>)\<rparr>) = (None, cc')"
            by blast
          then show thesis by (rule defining [OF lane Inr _ _ undef])
        qed
      qed
    qed
  qed
qed


lemma emits_promotion:
  assumes P: "unambiguous P" and ab: "(a, b) \<in> P"
  shows "emits P (emit_with_delayed_promotion a lane b) (a @ lane @ b)"
proof (rule emitsI)
  fix cc cc'
  assume inv: "defined_ok P cc" and run: "emit_with_delayed_promotion a lane b cc = (None, cc')"
  let ?tid = "template_id_for a b"
  note small = unambiguous_small [OF P ab]
  have plain: "defined_ok P cc' \<and> step_means P cc cc' (a @ lane @ b)"
    if "write_frame_count FrameRawData (a @ lane @ b) c = (None, cc')" "defined_ok P c"
      "sent c = sent cc" "Templates c = Templates cc" for c
    using emitsD [OF emits_raw that(2,1)] step_means_start that(3,4) by blast
  from run show "defined_ok P cc' \<and> step_means P cc cc' (a @ lane @ b)"
  proof (cases rule: emit_promotion_cases)
    case raw
    then show ?thesis by (rule plain) (simp_all add: inv)
  next
    case (young st)
    show ?thesis
      by (rule plain [OF young(1)]) (use inv young(2) in \<open>auto intro!: defined_ok_count simp: sent_def\<close>)
  next
    case (promoted st)
    let ?c = "cc\<lparr>SpanStats := (SpanStats cc)(?tid \<mapsto> st)\<rparr>"
    from promoted(3) inv obtain a' b' where ab': "(a', b') \<in> P" "template_id_for a' b' = ?tid"
        "Templates cc ?tid = Some \<lparr>TID = ?tid, TConstA = a', TConstB = b'\<rparr>"
      unfolding defined_ok_def by blast
    with unambiguous_eq [OF P ab ab'(1)]
    have T: "Templates ?c ?tid = Some \<lparr>TID = ?tid, TConstA = a, TConstB = b\<rparr>" by simp
    have "length lane < 65536" using promoted(1) small by simp
    note m = emit_ref_or_raw_means [OF promoted(4) T this]
    have "defined_ok P ?c" by (rule defined_ok_count [OF inv]) (use promoted(3) in auto)
    with m defined_ok_cong [of cc' ?c P] have "defined_ok P cc'" by simp
    moreover have "step_means P cc cc' (a @ lane @ b)"
      using m step_means_start [of cc ?c P cc'] by (simp add: sent_def)
    ultimately show ?thesis ..
  next
    case (defining st p c)
    let ?counted = "cc\<lparr>SpanStats := (SpanStats cc)(?tid \<mapsto> st)\<rparr>"
    let ?tm = "\<lparr>TID = ?tid, TConstA = a, TConstB = b\<rparr>"
    let ?c = "c\<lparr>Templates := (Templates c)(?tid \<mapsto> ?tm),
        SpanStats := (SpanStats c)(?tid \<mapsto> st\<lparr>Defined := True\<rparr>)\<rparr>"
    have "defined_ok P ?counted" by (rule defined_ok_count [OF inv]) (use defining(5) in auto)
    with write_frame_count_okD [OF defining(3)] defined_ok_cong [of c ?counted P]
    have "defined_ok P c" by simp
    then have ok: "defined_ok P ?c" by (rule defined_ok_define) (rule ab)
    have s1: "step_means P ?counted ?c []"
      by (rule define_means [OF defining(3,2)]) (use small ab in simp_all)
    have T: "Templates ?c ?tid = Some ?tm" by simp
    have "length lane < 65536" using defining(1) small by simp
    note m = emit_ref_or_raw_means [OF defining(4) T this]
    with ok defined_ok_cong [of cc' ?c P] have "defined_ok P cc'" by simp
    moreover have "step_means P ?counted cc' (a @ lane @ b)"
      using step_means_trans [OF s1 conjunct1 [OF m]] by simp
    then have "step_means P cc cc' (a @ lane @ b)"
      using step_means_start [of cc ?counted P cc'] by (simp add: sent_def)
    ultimately show ?thesis ..
  qed
qed

end
