(* ===== verification/Encoder_Correct.thy ===== *)
theory Encoder_Correct
  imports Frame_Semantics
begin

text \<open>
  The encoder against its specification. A reference function cuts a header or a body into
  pieces (plain bytes, or a [CONST][VAR][CONST] segment); the operations of the encoder emit
  exactly those pieces, and the pieces concatenate to the input.
\<close>

declare dropWhile_eq_Nil_conv [simp del]

section \<open>Pieces\<close>

datatype piece = Plain bytes | Seg bytes bytes bytes

fun piece_text :: "piece \<Rightarrow> bytes" where
  "piece_text (Plain p) = p"
| "piece_text (Seg a l b) = a @ l @ b"

fun piece_patterns :: "piece list \<Rightarrow> pattern set" where
  "piece_patterns [] = {}"
| "piece_patterns (Plain p # ps) = piece_patterns ps"
| "piece_patterns (Seg a l b # ps) = insert (a, b) (piece_patterns ps)"

lemma piece_patterns_append [simp]:
  "piece_patterns (ps @ qs) = piece_patterns ps \<union> piece_patterns qs"
  by (induction ps rule: piece_patterns.induct) auto

lemma piece_patterns_concat: "piece_patterns (concat pss) = (\<Union>ps \<in> set pss. piece_patterns ps)"
  by (induction pss) auto

definition pieces_text :: "piece list \<Rightarrow> bytes" where
  "pieces_text ps = concat (map piece_text ps)"

lemma pieces_text_simps [simp]:
  "pieces_text [] = []" "pieces_text (p # ps) = piece_text p @ pieces_text ps"
  "pieces_text (ps @ qs) = pieces_text ps @ pieces_text qs"
  by (simp_all add: pieces_text_def)

definition is_delim :: "byte \<Rightarrow> bool" where
  "is_delim b \<longleftrightarrow> b = 44 \<or> b = 32 \<or> b = 10"

text \<open>
  The reference cut of (the rest of) a line-protocol line: up to and including the next
  equals sign, the value up to the next comma, space or newline, that delimiter; after a
  comma the next field, after a space the timestamp.
\<close>

function kv_pieces :: "bytes \<Rightarrow> piece list" where
  "kv_pieces s =
     (case dropWhile (\<lambda>b. b \<noteq> 61) s of
        [] \<Rightarrow> [Plain s]
      | _ # v \<Rightarrow>
         (case dropWhile (\<lambda>b. \<not> is_delim b) v of
            [] \<Rightarrow> [Plain s]
          | d # rest \<Rightarrow>
              let lane = takeWhile (\<lambda>b. \<not> is_delim b) v
              in if lane = [] then [Plain s]
                 else Seg (takeWhile (\<lambda>b. b \<noteq> 61) s @ [61]) lane [d]
                      # (if d = 44 then kv_pieces rest
                         else if d = 32 then [Plain rest] else [])))"
  by pat_completeness auto
termination
proof (relation "measure length", goal_cases)
  case 1
  show ?case by simp
next
  case (2 s e v d rest lane)
  have "length (dropWhile (\<lambda>b. b \<noteq> 61) s) \<le> length s"
       "length (dropWhile (\<lambda>b. \<not> is_delim b) v) \<le> length v"
    by (rule length_dropWhile_le)+
  with 2 show ?case by simp
qed

declare kv_pieces.simps [simp del]

definition line_pieces :: "bytes \<Rightarrow> piece list" where
  "line_pieces line =
     (if length line < 2 \<or> last line \<noteq> 10 then [Plain line] else kv_pieces line)"

text \<open>The lines of a body, each with its newline; the last one may lack it.\<close>

function newline_lines :: "bytes \<Rightarrow> bytes list" where
  "newline_lines s =
     (if s = [] then []
      else case dropWhile (\<lambda>b. b \<noteq> 10) s of
        [] \<Rightarrow> [s]
      | _ # rest \<Rightarrow> (takeWhile (\<lambda>b. b \<noteq> 10) s @ [10]) # newline_lines rest)"
  by pat_completeness auto
termination
proof (relation "measure length", goal_cases)
  case 1
  show ?case by simp
next
  case (2 s b rest)
  then show ?case using length_dropWhile_le [of "\<lambda>b. b \<noteq> 10" s] by simp
qed

declare newline_lines.simps [simp del]

definition body_pieces :: "bytes \<Rightarrow> piece list" where
  "body_pieces body = concat (map line_pieces (newline_lines body))"

definition header_line_pieces :: "bytes \<Rightarrow> piece list" where
  "header_line_pieces line =
     (if line = [] then []
      else case try_split_header_line line of
        Some (a, l, b) \<Rightarrow> [Seg a l b]
      | None \<Rightarrow> [Plain line])"

fun lines_pieces :: "bytes list \<Rightarrow> piece list" where
  "lines_pieces [] = []"
| "lines_pieces [line] = header_line_pieces line"
| "lines_pieces (line # rest) = header_line_pieces (line @ CRLF) @ lines_pieces rest"

definition header_pieces :: "bytes \<Rightarrow> piece list" where
  "header_pieces hdr = lines_pieces (split_on CRLF hdr)"

section \<open>The cut is lossless\<close>

lemma takeWhile_dropWhile_Cons:
  "dropWhile P s = x # rest \<Longrightarrow> s = takeWhile P s @ x # rest \<and> \<not> P x"
  by (metis hd_dropWhile list.distinct(1) list.sel(1) takeWhile_dropWhile_id)

lemma kv_pieces_text:
  "10 \<notin> set (butlast s) \<Longrightarrow> pieces_text (kv_pieces s) = s"
proof (induction s rule: kv_pieces.induct)
  case (1 s)
  show ?case
  proof (cases "dropWhile (\<lambda>b. b \<noteq> 61) s")
    case Nil
    show ?thesis by (subst kv_pieces.simps) (simp only: Nil list.case pieces_text_simps piece_text.simps append_Nil2)
  next
    case (Cons e v)
    note s = takeWhile_dropWhile_Cons [OF Cons]
    show ?thesis
    proof (cases "dropWhile (\<lambda>b. \<not> is_delim b) v")
      case Nil
      show ?thesis
        by (subst kv_pieces.simps)
          (simp only: \<open>dropWhile (\<lambda>b. b \<noteq> 61) s = e # v\<close> Nil list.case pieces_text_simps
            piece_text.simps append_Nil2)
    next
      case (Cons d rest)
      note v = takeWhile_dropWhile_Cons [OF Cons]
      let ?a = "takeWhile (\<lambda>b. b \<noteq> 61) s" and ?l = "takeWhile (\<lambda>b. \<not> is_delim b) v"
      have eq: "s = (?a @ [61] @ ?l @ [d]) @ rest" using s v by auto
      have tail: "10 \<notin> set (butlast rest)"
        using "1.prems" by (subst (asm) eq) (auto simp: butlast_append split: if_splits)
      have nl: "rest = []" if "d = 10"
        using "1.prems" that by (subst (asm) eq) (auto simp: butlast_append split: if_splits)
      have step: "kv_pieces s = (if ?l = [] then [Plain s]
          else Seg (?a @ [61]) ?l [d] # (if d = 44 then kv_pieces rest
            else if d = 32 then [Plain rest] else []))"
        using \<open>dropWhile (\<lambda>b. b \<noteq> 61) s = e # v\<close> Cons by (subst kv_pieces.simps) (simp add: Let_def)
      have "d = 44 \<or> d = 32 \<or> d = 10" using v by (simp add: is_delim_def)
      moreover have "pieces_text (kv_pieces rest) = rest" if "?l \<noteq> []" "d = 44"
        using "1.IH" [OF \<open>dropWhile (\<lambda>b. b \<noteq> 61) s = e # v\<close> Cons refl that tail] .
      ultimately have "?l \<noteq> [] \<Longrightarrow> pieces_text (kv_pieces s) = (?a @ [61] @ ?l @ [d]) @ rest"
        using nl unfolding step by auto
      then show ?thesis using eq step by (cases "?l = []") auto
    qed
  qed
qed

lemma line_pieces_text: "10 \<notin> set (butlast l) \<Longrightarrow> pieces_text (line_pieces l) = l"
  by (simp add: line_pieces_def kv_pieces_text)

lemma newline_lines_text:
  "concat (newline_lines s) = s \<and> (\<forall>l \<in> set (newline_lines s). 10 \<notin> set (butlast l))"
proof (induction s rule: newline_lines.induct)
  case (1 s)
  show ?case
  proof (cases "dropWhile (\<lambda>b. b \<noteq> 10) s")
    case Nil
    then have "newline_lines s = (if s = [] then [] else [s])"
      by (subst newline_lines.simps) (simp only: Nil list.case)
    moreover have "10 \<notin> set s" using Nil by (auto simp: dropWhile_eq_Nil_conv)
    ultimately show ?thesis by (auto dest: in_set_butlastD)
  next
    case (Cons x rest)
    note s = takeWhile_dropWhile_Cons [OF Cons]
    then have "s \<noteq> []" by auto
    have "newline_lines s = (takeWhile (\<lambda>b. b \<noteq> 10) s @ [10]) # newline_lines rest"
      using \<open>s \<noteq> []\<close> Cons by (subst newline_lines.simps) simp
    with "1.IH" [OF \<open>s \<noteq> []\<close> Cons] s show ?thesis by (auto dest: set_takeWhileD)
  qed
qed

lemma body_pieces_text: "pieces_text (body_pieces body) = body"
proof -
  have "pieces_text (concat (map line_pieces ls)) = concat ls"
    if "\<forall>l \<in> set ls. 10 \<notin> set (butlast l)" for ls
    using that by (induction ls) (simp_all add: line_pieces_text)
  from this [of "newline_lines body"] newline_lines_text [of body] show ?thesis
    by (simp add: body_pieces_def)
qed

lemma try_split_header_line_text:
  assumes "try_split_header_line line = Some (a, l, b)"
  shows "a @ l @ b = line"
proof -
  from assms obtain idx where idx: "index_sub (str '': '') line = Some idx" "idx \<noteq> 0"
    and suf: "has_suffix line CRLF"
    and abl: "a = take (idx + 2) line" "b = CRLF"
      "l = take (length line - 2 - (idx + 2)) (drop (idx + 2) line)"
    by (auto simp: try_split_header_line_def split: if_splits option.splits)
  obtain q where q: "line = q @ CRLF" using suf by (auto simp: has_suffix_iff)
  have len: "length (str '': '') = 2" by (simp add: str_def)
  from index_sub_Some [OF idx(1)] have le: "idx + 2 \<le> length line"
    and at: "take 2 (drop idx line) = str '': ''"
    by (auto simp: len) (metis (no_types, lifting) append_eq_conv_conj drop_append
        length_take min.absorb2 add_leD1 append_take_drop_id len take_drop same_append_eq)
  have "idx + 2 \<le> length q"
  proof (rule ccontr)
    assume "\<not> idx + 2 \<le> length q"
    with le q have "length q < idx + 2" "idx \<le> length q" by simp_all
    then consider "idx = length q" | "Suc idx = length q" by linarith
    then show False
    proof cases
      case 1
      with at q show False by (simp add: CRLF_def str_def)
    next
      case 2
      then have "take 2 (drop idx line) = [last q, 13]"
        unfolding q by (cases q rule: rev_exhaust) (simp_all add: CRLF_def)
      with at show False by (simp add: str_def)
    qed
  qed
  then show ?thesis unfolding abl q by simp
qed

lemma header_line_pieces_text: "pieces_text (header_line_pieces line) = line"
  by (auto simp: header_line_pieces_def try_split_header_line_text split: option.splits)

lemma header_line_single: "line \<noteq> [] \<Longrightarrow> \<exists>p. header_line_pieces line = [p]"
  by (auto simp: header_line_pieces_def split: option.splits)

lemma lines_pieces_text: "pieces_text (lines_pieces ls) = join_with CRLF ls"
  by (induction ls rule: lines_pieces.induct) (simp_all add: header_line_pieces_text)

lemma header_pieces_text: "pieces_text (header_pieces hdr) = hdr"
  by (simp add: header_pieces_def lines_pieces_text)


section \<open>The operations emit the pieces\<close>

text \<open>How one piece goes out.\<close>

fun emit_piece :: "piece \<Rightarrow> enc act" where
  "emit_piece (Plain p) = write_frame_count FrameRawData p"
| "emit_piece (Seg a l b) = emit_with_delayed_promotion a l b"

lemma emits_piece:
  "unambiguous P \<Longrightarrow> piece_patterns [p] \<subseteq> P \<Longrightarrow> emits P (emit_piece p) (piece_text p)"
  by (cases p) (simp_all only: emit_piece.simps piece_text.simps emits_raw emits_promotion
      piece_patterns.simps insert_subset)

subsection \<open>Header lines\<close>

lemma encode_lines_Cons:
  "encode_lines (line # rest) =
     (let line = (if rest \<noteq> [] then line @ CRLF else line)
      in if line = [] then encode_lines rest
         else and_then (count_raw_in (length line))
           (and_then (emit_piece (hd (header_line_pieces line))) (encode_lines rest)))"
  by (auto simp: Let_def header_line_pieces_def split: option.splits prod.splits)

lemma emits_header_lines:
  assumes P: "unambiguous P"
  shows "piece_patterns (lines_pieces ls) \<subseteq> P \<Longrightarrow> emits P (encode_lines ls) (join_with CRLF ls)"
proof (induction ls)
  case Nil
  then show ?case by simp
next
  case (Cons line rest)
  let ?line = "if rest \<noteq> [] then line @ CRLF else line"
  have lp: "lines_pieces (line # rest) = header_line_pieces ?line @ lines_pieces rest"
    by (cases rest) simp_all
  have jw: "join_with CRLF (line # rest) = ?line @ join_with CRLF rest"
    by (cases rest) simp_all
  have rest: "emits P (encode_lines rest) (join_with CRLF rest)"
    using Cons by (simp add: lp)
  show ?case
  proof (cases "?line = []")
    case True
    with rest jw show ?thesis by (simp del: encode_lines.simps add: encode_lines_Cons Let_def)
  next
    case False
    then obtain p where p: "header_line_pieces ?line = [p]"
      using header_line_single by blast
    with header_line_pieces_text [of ?line] have ptxt: "piece_text p = ?line" by simp
    have "emits P (emit_piece p) (piece_text p)"
      using P Cons.prems unfolding lp p by (intro emits_piece) (simp_all only: piece_patterns_append Un_subset_iff)
    then have "emits P (and_then (count_raw_in (length ?line))
        (and_then (emit_piece p) (encode_lines rest))) (?line @ join_with CRLF rest)"
      unfolding ptxt by (intro emits_silent_then emits_count_raw_in emits_and_then rest)
    moreover have "encode_lines (line # rest) = and_then (count_raw_in (length ?line))
        (and_then (emit_piece p) (encode_lines rest))"
      using False p by (simp only: encode_lines_Cons Let_def if_False list.sel)
    ultimately show ?thesis unfolding jw by simp
  qed
qed

lemma emits_header:
  "unambiguous P \<Longrightarrow> piece_patterns (header_pieces hdr) \<subseteq> P \<Longrightarrow>
     emits P (encode_header_lines hdr) hdr"
  using emits_header_lines [of P "split_on CRLF hdr"]
  by (simp add: encode_header_lines_def header_pieces_def)


subsection \<open>Line-protocol lines\<close>

definition first_delim :: "bytes \<Rightarrow> nat \<Rightarrow> (nat \<times> byte) option" where
  "first_delim w v = select_delim v (index_byte 10 w, 10)
     (select_delim v (index_byte 32 w, 32) (select_delim v (index_byte 44 w, 44) None))"

lemma first_delim_spec:
  "first_delim w v =
     (case dropWhile (\<lambda>b. \<not> is_delim b) w of
        [] \<Rightarrow> None | d # _ \<Rightarrow> Some (v + length (takeWhile (\<lambda>b. \<not> is_delim b) w), d))"
proof (induction w arbitrary: v)
  case Nil
  then show ?case by (simp add: first_delim_def select_delim_def)
next
  case (Cons x xs)
  show ?case
  proof (cases "is_delim x")
    case True
    then consider "x = 44" | "x = 32" | "x = 10" by (auto simp: is_delim_def)
    then have "first_delim (x # xs) v = Some (v, x)"
      by cases (simp_all add: first_delim_def select_delim_def Let_def split: option.splits)
    with True show ?thesis by simp
  next
    case False
    have shift: "select_delim v (map_option Suc i, b) sel = select_delim (Suc v) (i, b) sel"
      for i b sel
      by (cases i) (simp_all add: select_delim_def)
    from False have "first_delim (x # xs) v = first_delim xs (Suc v)"
      by (simp add: is_delim_def first_delim_def shift)
    with Cons.IH [of "Suc v"] False show ?thesis by (simp split: list.splits)
  qed
qed

lemma find_delim_spec:
  "find_delim line v =
     (case dropWhile (\<lambda>b. \<not> is_delim b) (drop v line) of
        [] \<Rightarrow> None
      | d # _ \<Rightarrow> Some (v + length (takeWhile (\<lambda>b. \<not> is_delim b) (drop v line)), d))"
  using first_delim_spec [of "drop v line" v] by (simp add: find_delim_def first_delim_def Let_def)

text \<open>One round of the field loop, on the rest of the line instead of indices.\<close>

lemma encode_influx_step:
  assumes "dropWhile (\<lambda>b. b \<noteq> 61) (drop cur line) = e # v"
    and "dropWhile (\<lambda>b. \<not> is_delim b) v = d # rest"
    and "takeWhile (\<lambda>b. \<not> is_delim b) v \<noteq> []"
  shows "\<exists>ob cur'. drop cur' line = rest \<and> cur' = Suc (cur +
        length (takeWhile (\<lambda>b. b \<noteq> 61) (drop cur line)) + 1 +
        length (takeWhile (\<lambda>b. \<not> is_delim b) v)) \<and>
    encode_influx_from line off cur =
      and_then (observe ob)
        (and_then (emit_with_delayed_promotion
            (takeWhile (\<lambda>b. b \<noteq> 61) (drop cur line) @ [61])
            (takeWhile (\<lambda>b. \<not> is_delim b) v) [d])
          (if d = 44 then encode_influx_from line off cur'
           else if d = 32 then write_frame_count FrameRawData rest else ok))"
proof -
  let ?s = "drop cur line"
  let ?k = "takeWhile (\<lambda>b. b \<noteq> 61) ?s" and ?l = "takeWhile (\<lambda>b. \<not> is_delim b) v"
  have s: "?s = ?k @ 61 # v" using takeWhile_dropWhile_Cons [OF assms(1)] by metis
  have v: "v = ?l @ d # rest" using takeWhile_dropWhile_Cons [OF assms(2)] by simp
  let ?val = "cur + length ?k + 1"
  have "drop ?val line = drop (length ?k + 1) ?s" by (simp add: add.commute)
  also have "\<dots> = v" by (subst s) simp
  finally have dv: "drop ?val line = v" .
  let ?cur = "?val + length ?l + 1"
  have "drop ?cur line = drop (length ?l + 1) (drop ?val line)" by (simp add: add.commute)
  also have "\<dots> = rest" unfolding dv by (subst v) simp
  finally have dr: "drop ?cur line = rest" .
  have eq: "index_byte 61 ?s = Some (length ?k)"
    by (simp add: index_byte_takeWhile assms(1))
  have fd: "find_delim line ?val = Some (?val + length ?l, d)"
    unfolding find_delim_spec dv assms(2) by simp
  have a: "take (length ?k + 1) ?s = ?k @ [61]" by (subst s) simp
  have l: "take (length ?l) v = ?l" by (subst v) simp
  have "encode_influx_from line off cur =
      and_then (observe \<lparr>ConstA = ?k @ [61], ConstB = [d], IntraHits = 1,
          SpanSize = of_nat (length (?k @ [61]) + length ?l + length [d]),
          LastSeenOffset = off + of_nat ?cur\<rparr>)
        (and_then (emit_with_delayed_promotion (?k @ [61]) ?l [d])
          (if d = 44 then encode_influx_from line off ?cur
           else if d = 32 then write_frame_count FrameRawData rest else ok))"
    apply (subst encode_influx_from.simps)
    apply (simp only: eq option.case Let_def fd prod.case)
    using a l dr dv assms(3) by (simp add: algebra_simps)
  then show ?thesis using dr by (intro exI conjI) (assumption | simp)+
qed


lemma encode_influx_plain:
  assumes "dropWhile (\<lambda>b. b \<noteq> 61) (drop cur line) = e # v"
    and "dropWhile (\<lambda>b. \<not> is_delim b) v = [] \<or> takeWhile (\<lambda>b. \<not> is_delim b) v = []"
  shows "encode_influx_from line off cur = write_frame_count FrameRawData (drop cur line)"
proof -
  let ?s = "drop cur line"
  let ?k = "takeWhile (\<lambda>b. b \<noteq> 61) ?s"
  have s: "?s = ?k @ 61 # v" using takeWhile_dropWhile_Cons [OF assms(1)] by metis
  let ?val = "cur + length ?k + 1"
  have "drop ?val line = drop (length ?k + 1) ?s" by (simp add: add.commute)
  also have "\<dots> = v" by (subst s) simp
  finally have dv: "drop ?val line = v" .
  have eq: "index_byte 61 ?s = Some (length ?k)"
    by (simp add: index_byte_takeWhile assms(1))
  have "find_delim line ?val = None \<or> (\<exists>d. find_delim line ?val = Some (?val, d))"
    unfolding find_delim_spec dv using assms(2) by (auto split: list.splits)
  then show ?thesis
    by (subst encode_influx_from.simps) (auto simp: eq Let_def)
qed

lemma emits_influx_from:
  assumes P: "unambiguous P"
  shows "drop cur line = s \<Longrightarrow> 10 \<notin> set (butlast s) \<Longrightarrow> piece_patterns (kv_pieces s) \<subseteq> P \<Longrightarrow>
    emits P (encode_influx_from line off cur) s"
proof (induction s arbitrary: cur rule: kv_pieces.induct)
  case (1 s)
  show ?case
  proof (cases "dropWhile (\<lambda>b. b \<noteq> 61) s")
    case Nil
    then have "index_byte 61 (drop cur line) = None"
      unfolding "1.prems"(1) by (simp only: index_byte_takeWhile list.case)
    then have "encode_influx_from line off cur = write_frame_count FrameRawData s"
      using "1.prems"(1) by (subst encode_influx_from.simps) (simp only: option.case)
    then show ?thesis by (simp only: emits_raw)
  next
    case (Cons e v)
    note e = Cons
    let ?k = "takeWhile (\<lambda>b. b \<noteq> 61) s" and ?l = "takeWhile (\<lambda>b. \<not> is_delim b) v"
    show ?thesis
    proof (cases "dropWhile (\<lambda>b. \<not> is_delim b) v = [] \<or> ?l = []")
      case True
      then have "encode_influx_from line off cur = write_frame_count FrameRawData s"
        using encode_influx_plain [of cur line e v off] e "1.prems"(1) by simp
      then show ?thesis by (simp only: emits_raw)
    next
      case False
      then obtain d rest where d: "dropWhile (\<lambda>b. \<not> is_delim b) v = d # rest"
        by (meson neq_Nil_conv)
      obtain ob cur' where cur': "drop cur' line = rest"
        and step: "encode_influx_from line off cur =
          and_then (observe ob) (and_then (emit_with_delayed_promotion (?k @ [61]) ?l [d])
            (if d = 44 then encode_influx_from line off cur'
             else if d = 32 then write_frame_count FrameRawData rest else ok))"
        using encode_influx_step [of cur line e v d rest off] e d False "1.prems"(1) by auto
      have eq: "s = ((?k @ [61]) @ ?l @ [d]) @ rest"
        using takeWhile_dropWhile_Cons [OF e] takeWhile_dropWhile_Cons [OF d] by auto
      have dd: "d = 44 \<or> d = 32 \<or> d = 10"
        using takeWhile_dropWhile_Cons [OF d] by (simp add: is_delim_def)
      have nl: "10 \<notin> set (butlast rest)" "d = 10 \<Longrightarrow> rest = []"
        using "1.prems"(2) by (subst (asm) eq, auto simp: butlast_append split: if_splits)+
      have kv: "kv_pieces s = Seg (?k @ [61]) ?l [d] # (if d = 44 then kv_pieces rest
            else if d = 32 then [Plain rest] else [])"
        using e d False by (subst kv_pieces.simps) (simp add: Let_def)
      have pat: "(?k @ [61], [d]) \<in> P" "d = 44 \<Longrightarrow> piece_patterns (kv_pieces rest) \<subseteq> P"
        using "1.prems"(3) unfolding kv by auto
      have "emits P (if d = 44 then encode_influx_from line off cur'
             else if d = 32 then write_frame_count FrameRawData rest else ok) rest"
        using "1.IH" [OF e d refl _ _ cur' nl(1) pat(2)] False nl(2) dd emits_raw [of P rest]
        by auto
      then have "emits P (encode_influx_from line off cur) (((?k @ [61]) @ ?l @ [d]) @ rest)"
        unfolding step
        by (intro emits_silent_then emits_observe emits_and_then emits_promotion P pat(1))
      then show ?thesis unfolding eq [symmetric] .
    qed
  qed
qed

lemma emits_influx_line:
  assumes "unambiguous P" "10 \<notin> set (butlast line)" "piece_patterns (line_pieces line) \<subseteq> P"
  shows "emits P (encode_influx_line_kv line off) line"
proof (cases "length line < 2 \<or> last line \<noteq> 10")
  case True
  then have "encode_influx_line_kv line off = write_frame_count FrameRawData line"
    by (cases "line = []") (auto simp: encode_influx_line_kv_def last_conv_nth)
  then show ?thesis by (simp only: emits_raw)
next
  case False
  then have "encode_influx_line_kv line off = encode_influx_from line off 0"
    by (cases "line = []") (auto simp: encode_influx_line_kv_def last_conv_nth)
  moreover have "emits P (encode_influx_from line off 0) line"
    by (rule emits_influx_from) (use assms False in \<open>auto simp: line_pieces_def\<close>)
  ultimately show ?thesis by simp
qed

lemma emits_body_from:
  assumes P: "unambiguous P"
  shows "drop i body = s \<Longrightarrow> piece_patterns (body_pieces s) \<subseteq> P \<Longrightarrow>
    emits P (encode_body_from body off i) s"
proof (induction s arbitrary: i rule: newline_lines.induct)
  case (1 s)
  show ?case
  proof (cases "s = []")
    case True
    with "1.prems"(1) have "\<not> i < length body" by simp
    with True show ?thesis by (subst encode_body_from.simps) simp
  next
    case ne: False
    with "1.prems"(1) have i: "i < length body" by (metis drop_all not_le)
    show ?thesis
    proof (cases "dropWhile (\<lambda>b. b \<noteq> 10) s")
      case Nil
      then have "index_byte 10 (drop i body) = None"
        unfolding "1.prems"(1) by (simp only: index_byte_takeWhile list.case)
      then have "encode_body_from body off i = write_frame_count FrameRawData s"
        using i "1.prems"(1) by (subst encode_body_from.simps) (simp only: option.case if_True)
      then show ?thesis by (simp only: emits_raw)
    next
      case (Cons x rest)
      let ?k = "takeWhile (\<lambda>b. b \<noteq> 10) s" and ?line = "takeWhile (\<lambda>b. b \<noteq> 10) s @ [10]"
      have s: "s = ?line @ rest" using takeWhile_dropWhile_Cons [OF Cons] by auto
      have idx: "index_byte 10 (drop i body) = Some (length ?k)"
        unfolding "1.prems"(1) by (simp add: index_byte_takeWhile Cons)
      have "drop (i + length ?k + 1) body = drop (length ?line) s"
        unfolding "1.prems"(1) [symmetric] by (simp add: add.commute)
      also have "\<dots> = rest" by (subst s) simp
      finally have rest: "drop (i + length ?k + 1) body = rest" .
      have line: "take (i + length ?k + 1 - i) (drop i body) = ?line"
        unfolding "1.prems"(1) by (subst s) simp
      have step: "encode_body_from body off i = and_then (count_raw_in (length ?line))
          (and_then (encode_influx_line_kv ?line (off + of_nat i))
            (encode_body_from body off (i + length ?k + 1)))"
        using i by (subst encode_body_from.simps) (simp only: idx option.case Let_def line if_True)
      have "newline_lines s = ?line # newline_lines rest"
        using ne Cons by (subst newline_lines.simps) simp
      then have pat: "piece_patterns (line_pieces ?line) \<subseteq> P" "piece_patterns (body_pieces rest) \<subseteq> P"
        using "1.prems"(2) by (simp_all add: body_pieces_def)
      have nl: "10 \<notin> set (butlast ?line)" by (auto dest: set_takeWhileD)
      show ?thesis
        unfolding step by (subst (3) s)
          (intro emits_silent_then emits_count_raw_in emits_and_then emits_influx_line P nl pat
            "1.IH" [OF ne Cons rest pat(2)])
    qed
  qed
qed

lemma emits_body:
  "unambiguous P \<Longrightarrow> piece_patterns (body_pieces body) \<subseteq> P \<Longrightarrow>
     emits P (encode_body_as_lines body off) body"
  by (simp add: encode_body_as_lines_def emits_body_from)


section \<open>The encoder does not fail\<close>

text \<open>
  On a connection that takes every byte, no operation of the encoder returns an error, as
  long as what it is given fits a frame.
\<close>

definition out_open :: "enc \<Rightarrow> bool" where
  "out_open cc \<longleftrightarrow> (\<exists>w. Destination cc = Some w \<and> snk_room w = None)"

definition succeeds :: "enc act \<Rightarrow> bool" where
  "succeeds f \<longleftrightarrow> (\<forall>cc. out_open cc \<longrightarrow> (\<exists>cc'. f cc = (None, cc') \<and> out_open cc'))"

lemma succeedsI: "(\<And>cc. out_open cc \<Longrightarrow> \<exists>cc'. f cc = (None, cc') \<and> out_open cc') \<Longrightarrow> succeeds f"
  by (simp add: succeeds_def)

lemma succeeds_and_then [intro]: "succeeds f \<Longrightarrow> succeeds g \<Longrightarrow> succeeds (and_then f g)"
  unfolding succeeds_def by (metis and_then_step)

lemma succeeds_ok [simp]: "succeeds ok"
  and succeeds_count_raw_in [simp]: "succeeds (count_raw_in n)"
  and succeeds_observe [simp]: "succeeds (observe ob)"
  by (simp_all add: succeeds_def ok_def count_raw_in_def observe_def out_open_def)

lemma succeeds_frame:
  assumes "frame_ok t p" "t \<in> {FrameRawData, FrameTemplateDefine, FrameTemplateRef}"
  shows "succeeds (write_frame_count t p)"
  using assms
  by (auto intro!: succeedsI simp: out_open_def write_frame_count_def Let_def write_frame_ok)

lemma succeeds_raw: "length p \<le> MaxFramePayloadBytes \<Longrightarrow> succeeds (write_frame_count FrameRawData p)"
  using frame_ok_raw [of p] by (intro succeeds_frame) simp_all

lemma succeeds_ref_or_raw:
  assumes "length raw \<le> MaxFramePayloadBytes"
  shows "succeeds (emit_ref_or_raw tid lane raw)"
proof (cases "build_template_ref_payload (tid, lane)")
  case (Inl e)
  then show ?thesis unfolding emit_ref_or_raw_def by (simp only: sum.case succeeds_raw [OF assms])
next
  case (Inr p)
  have "frame_ok FrameTemplateRef p" if "length p < length raw"
    using that assms frame_ok_ref [of p] by simp
  then show ?thesis
    unfolding emit_ref_or_raw_def Inr using succeeds_frame succeeds_raw [OF assms] by auto
qed

lemma build_define_length:
  "build_template_define_payload x = Inr p \<Longrightarrow> length p \<le> MaxFramePayloadBytes"
  by (auto simp: build_template_define_payload_def Let_def split: prod.splits if_splits)

lemma succeeds_update:
  "succeeds f \<Longrightarrow> (\<And>cc. Destination (u cc) = Destination cc) \<Longrightarrow> succeeds (\<lambda>cc. f (u cc))"
  by (simp add: succeeds_def out_open_def)

lemma succeeds_promotion:
  assumes le: "length (a @ l @ b) \<le> MaxFramePayloadBytes"
  shows "succeeds (emit_with_delayed_promotion a l b)"
proof (rule succeedsI)
  fix cc
  assume open_cc: "out_open cc"
  let ?tid = "template_id_for a b"
  have raw: "succeeds (write_frame_count FrameRawData (a @ l @ b))"
    and ref: "succeeds (emit_ref_or_raw ?tid l (a @ l @ b))"
    using le by (intro succeeds_raw succeeds_ref_or_raw; simp)+
  have dfn: "succeeds (write_frame_count FrameTemplateDefine p)"
    if "build_template_define_payload x = Inr p" for x p
    using build_define_length [OF that] frame_ok_define [of p] by (intro succeeds_frame) simp_all
  have go: "\<exists>cc'. f c = (None, cc') \<and> out_open cc'"
    if "succeeds f" "Destination c = Destination cc" for f c
    using that open_cc by (simp add: succeeds_def out_open_def)
  show "\<exists>cc'. emit_with_delayed_promotion a l b cc = (None, cc') \<and> out_open cc'"
    unfolding emit_with_delayed_promotion_def Let_def
    by (auto split: sum.splits
        intro!: go raw ref succeeds_and_then dfn succeeds_update [OF ref]
        simp del: FrameRawData_def FrameTemplateDefine_def)
qed

lemma succeeds_piece:
  "length (piece_text p) \<le> MaxFramePayloadBytes \<Longrightarrow> succeeds (emit_piece p)"
proof (cases p)
  case (Plain x)
  then show "length (piece_text p) \<le> MaxFramePayloadBytes \<Longrightarrow> succeeds (emit_piece p)"
    using succeeds_raw [of x] by (simp del: FrameRawData_def)
next
  case (Seg a l b)
  then show "length (piece_text p) \<le> MaxFramePayloadBytes \<Longrightarrow> succeeds (emit_piece p)"
    by (simp add: succeeds_promotion)
qed

lemma succeeds_header_lines:
  "length (join_with CRLF ls) \<le> MaxFramePayloadBytes \<Longrightarrow> succeeds (encode_lines ls)"
proof (induction ls)
  case Nil
  then show ?case by simp
next
  case (Cons line rest)
  let ?line = "if rest \<noteq> [] then line @ CRLF else line"
  have jw: "join_with CRLF (line # rest) = ?line @ join_with CRLF rest"
    by (cases rest) simp_all
  then have le: "length ?line \<le> MaxFramePayloadBytes" "succeeds (encode_lines rest)"
    using Cons unfolding jw by simp_all
  show ?case
  proof (cases "?line = []")
    case True
    with le show ?thesis by (simp del: encode_lines.simps add: encode_lines_Cons Let_def)
  next
    case False
    then obtain p where p: "header_line_pieces ?line = [p]" using header_line_single by blast
    with header_line_pieces_text [of ?line] le have "succeeds (emit_piece p)"
      by (intro succeeds_piece) simp
    moreover have "encode_lines (line # rest) = and_then (count_raw_in (length ?line))
        (and_then (emit_piece p) (encode_lines rest))"
      using False p by (simp only: encode_lines_Cons Let_def if_False list.sel)
    ultimately show ?thesis using le(2) by auto
  qed
qed


lemma succeeds_influx_from:
  "drop cur line = s \<Longrightarrow> length s \<le> MaxFramePayloadBytes \<Longrightarrow>
     succeeds (encode_influx_from line off cur)"
proof (induction s arbitrary: cur rule: kv_pieces.induct)
  case (1 s)
  have raw: "succeeds (write_frame_count FrameRawData s)"
    using "1.prems" by (intro succeeds_raw) simp
  show ?case
  proof (cases "dropWhile (\<lambda>b. b \<noteq> 61) s")
    case Nil
    then have "index_byte 61 (drop cur line) = None"
      unfolding "1.prems"(1) by (simp only: index_byte_takeWhile list.case)
    then have "encode_influx_from line off cur = write_frame_count FrameRawData s"
      using "1.prems"(1) by (subst encode_influx_from.simps) (simp only: option.case)
    with raw show ?thesis by simp
  next
    case (Cons e v)
    note e = Cons
    let ?k = "takeWhile (\<lambda>b. b \<noteq> 61) s" and ?l = "takeWhile (\<lambda>b. \<not> is_delim b) v"
    show ?thesis
    proof (cases "dropWhile (\<lambda>b. \<not> is_delim b) v = [] \<or> ?l = []")
      case True
      with encode_influx_plain [of cur line e v off] e "1.prems"(1) raw show ?thesis by simp
    next
      case False
      then obtain d rest where d: "dropWhile (\<lambda>b. \<not> is_delim b) v = d # rest"
        by (meson neq_Nil_conv)
      obtain ob cur' where cur': "drop cur' line = rest"
        and step: "encode_influx_from line off cur =
          and_then (observe ob) (and_then (emit_with_delayed_promotion (?k @ [61]) ?l [d])
            (if d = 44 then encode_influx_from line off cur'
             else if d = 32 then write_frame_count FrameRawData rest else ok))"
        using encode_influx_step [of cur line e v d rest off] e d False "1.prems"(1) by auto
      have "s = ((?k @ [61]) @ ?l @ [d]) @ rest"
        using takeWhile_dropWhile_Cons [OF e] takeWhile_dropWhile_Cons [OF d] by auto
      from arg_cong [OF this, of length] "1.prems"(2)
      have len: "length ((?k @ [61]) @ ?l @ [d]) \<le> MaxFramePayloadBytes"
          "length rest \<le> MaxFramePayloadBytes"
        by (simp_all only: length_append)
      have "succeeds (encode_influx_from line off cur')" if "d = 44"
        using "1.IH" [OF e d refl _ that cur' len(2)] False by blast
      with succeeds_raw [OF len(2)]
      have "succeeds (if d = 44 then encode_influx_from line off cur'
             else if d = 32 then write_frame_count FrameRawData rest else ok)"
        by (simp del: FrameRawData_def)
      then show ?thesis
        unfolding step
        by (intro succeeds_and_then succeeds_observe succeeds_promotion [OF len(1)])
    qed
  qed
qed

lemma succeeds_influx_line:
  assumes "length line \<le> MaxFramePayloadBytes"
  shows "succeeds (encode_influx_line_kv line off)"
  using succeeds_raw [OF assms] succeeds_influx_from [of 0 line line] assms
  by (simp add: encode_influx_line_kv_def)

lemma succeeds_body_from:
  "length body \<le> MaxFramePayloadBytes \<Longrightarrow> succeeds (encode_body_from body off i)"
proof (induction body off i rule: encode_body_from.induct)
  case (1 body off i)
  show ?case
  proof (cases "i < length body")
    case False
    then show ?thesis by (subst encode_body_from.simps) simp
  next
    case True
    show ?thesis
    proof (cases "index_byte 10 (drop i body)")
      case None
      then have "encode_body_from body off i = write_frame_count FrameRawData (drop i body)"
        using True by (subst encode_body_from.simps) (simp only: option.case if_True)
      moreover have "succeeds (write_frame_count FrameRawData (drop i body))"
        using "1.prems" by (intro succeeds_raw) simp
      ultimately show ?thesis by (simp only:)
    next
      case (Some k)
      let ?line = "take (i + k + 1 - i) (drop i body)"
      have "succeeds (encode_influx_line_kv ?line (off + of_nat i))"
        using "1.prems" by (intro succeeds_influx_line) simp
      moreover have "succeeds (encode_body_from body off (i + k + 1))"
        using "1.IH" [OF True Some refl refl "1.prems"] .
      moreover have "encode_body_from body off i = and_then (count_raw_in (length ?line))
          (and_then (encode_influx_line_kv ?line (off + of_nat i))
            (encode_body_from body off (i + k + 1)))"
        using True by (subst encode_body_from.simps) (simp only: Some option.case Let_def if_True)
      ultimately show ?thesis by (simp only: succeeds_and_then succeeds_count_raw_in)
    qed
  qed
qed

end
