(* ===== verification/Encoder_Discipline.thy ===== *)
theory Encoder_Discipline
  imports Encoder_Correct
begin

text \<open>
  What holds of everything the encoder does, whatever it encodes and whether or not the
  connection breaks: it only ever puts frames on the wire, it counts what it sends, and the
  promotion of a pattern follows its schedule.
\<close>

section \<open>Induction over the encoder\<close>

text \<open>
  The operations are built from a few steps. A property of acts that these steps have and
  that sequencing keeps holds of all of them; the first interface is enough for a line of a
  body, the second adds the counting of input bytes.
\<close>

locale emission_steps =
  fixes Q :: "enc act \<Rightarrow> bool"
  assumes step_ok: "Q ok"
    and step_then: "Q f \<Longrightarrow> Q g \<Longrightarrow> Q (and_then f g)"
    and step_observe: "Q (observe ob)"
    and step_raw: "Q (write_frame_count FrameRawData p)"
    and step_promotion: "Q (emit_with_delayed_promotion a l b)"
begin

lemma influx_from: "Q (encode_influx_from line off cur)"
proof (induction line off cur rule: encode_influx_from.induct)
  case (1 line off cur)
  show ?case
  proof (cases "index_byte 61 (drop cur line)")
    case None
    then have "encode_influx_from line off cur = write_frame_count FrameRawData (drop cur line)"
      by (subst encode_influx_from.simps) (simp only: option.case)
    then show ?thesis by (simp only: step_raw)
  next
    case (Some e)
    note e = Some
    show ?thesis
    proof (cases "find_delim line (cur + e + 1)")
      case None
      with e have "encode_influx_from line off cur = write_frame_count FrameRawData (drop cur line)"
        by (subst encode_influx_from.simps) (simp only: option.case Let_def)
      then show ?thesis by (simp only: step_raw)
    next
      case (Some x)
      obtain d b where x: "x = (d, b)" by fastforce
      note fd = Some [unfolded x]
      show ?thesis
      proof (cases "d \<le> cur + e + 1")
        case True
        with e fd have "encode_influx_from line off cur = write_frame_count FrameRawData (drop cur line)"
          by (subst encode_influx_from.simps) (simp only: option.case Let_def prod.case if_True)
        then show ?thesis by (simp only: step_raw)
      next
        case False
        have rec: "Q (encode_influx_from line off (d + 1))" if "b = 44"
          using "1.IH" [OF e refl refl refl fd refl False refl refl refl that] .
        have rest: "Q (if b = 44 then encode_influx_from line off (d + 1)
            else if b = 32 then write_frame_count FrameRawData (drop (d + 1) line) else ok)"
          using rec step_raw [of "drop (d + 1) line"] step_ok by (simp del: FrameRawData_def)
        from e fd False show ?thesis
          by (subst encode_influx_from.simps)
            (simp only: option.case Let_def prod.case if_False step_then step_observe
              step_promotion rest)
      qed
    qed
  qed
qed

lemma influx_line: "Q (encode_influx_line_kv line off)"
  unfolding encode_influx_line_kv_def using step_raw influx_from by (simp del: FrameRawData_def)

end

locale encoding_steps = emission_steps +
  assumes step_count: "Q (count_raw_in n)"
begin

lemma header_lines: "Q (encode_lines ls)"
proof (induction ls)
  case Nil
  show ?case using step_ok by simp
next
  case (Cons line rest)
  let ?line = "if rest \<noteq> [] then line @ CRLF else line"
  show ?case
  proof (cases "?line = []")
    case True
    with Cons show ?thesis by (simp del: encode_lines.simps add: encode_lines_Cons Let_def)
  next
    case False
    have "Q (emit_piece p)" for p by (cases p) (simp_all only: emit_piece.simps step_raw step_promotion)
    with False Cons show ?thesis
      by (simp only: encode_lines_Cons Let_def if_False step_then step_count)
  qed
qed

lemma header: "Q (encode_header_lines hdr)"
  unfolding encode_header_lines_def by (rule header_lines)

lemma body_from: "Q (encode_body_from body off i)"
proof (induction body off i rule: encode_body_from.induct)
  case (1 body off i)
  show ?case
  proof (cases "i < length body")
    case False
    then show ?thesis using step_ok by (subst encode_body_from.simps) (simp only: if_False)
  next
    case True
    show ?thesis
    proof (cases "index_byte 10 (drop i body)")
      case None
      with True show ?thesis using step_raw
        by (subst encode_body_from.simps) (simp only: option.case if_True)
    next
      case (Some k)
      from "1.IH" [OF True Some refl refl] True Some show ?thesis
        by (subst encode_body_from.simps)
          (simp only: option.case Let_def if_True step_then step_count influx_line)
    qed
  qed
qed

lemma body: "Q (and_then (count_raw_in n) (encode_body_as_lines body off))"
  unfolding encode_body_as_lines_def by (intro step_then step_count body_from)

end

section \<open>Only frames on the wire\<close>

definition encoder_frame :: "frame \<Rightarrow> bool" where
  "encoder_frame = (\<lambda>(t, p).
     frame_ok t p \<and> t \<in> {FrameRawData, FrameTemplateDefine, FrameTemplateRef})"

text \<open>
  Between two states: whole frames and, after an error, at most a proper beginning of one
  more; without an error the wire counter has grown by exactly the bytes sent.
\<close>

definition disciplined_step :: "go_error option \<Rightarrow> enc \<Rightarrow> enc \<Rightarrow> bool" where
  "disciplined_step e cc cc' \<longleftrightarrow>
     (\<exists>fs rest. sent cc' = sent cc @ wire_of fs @ rest \<and> list_all encoder_frame fs \<and>
        (\<exists>t p k. rest = take k (frame_image t p)) \<and>
        (e = None \<longrightarrow> rest = [] \<and>
           wireOut (CStats cc') = wireOut (CStats cc) + of_nat (length (wire_of fs))))"

definition disciplined :: "enc act \<Rightarrow> bool" where
  "disciplined f \<longleftrightarrow> (\<forall>cc e cc'. f cc = (e, cc') \<longrightarrow> disciplined_step e cc cc')"

lemma disciplined_step_silent:
  "sent cc' = sent cc \<Longrightarrow> wireOut (CStats cc') = wireOut (CStats cc) \<Longrightarrow> disciplined_step e cc cc'"
  unfolding disciplined_step_def
  by (intro exI [of _ "[]"]) (auto intro: exI [of _ 0])

lemma disciplined_step_trans:
  assumes "disciplined_step None cc c" "disciplined_step e c cc'"
  shows "disciplined_step e cc cc'"
proof -
  obtain fs where 1: "sent c = sent cc @ wire_of fs" "list_all encoder_frame fs"
      "wireOut (CStats c) = wireOut (CStats cc) + of_nat (length (wire_of fs))"
    using assms(1) by (auto simp: disciplined_step_def)
  obtain gs rest where 2: "sent cc' = sent c @ wire_of gs @ rest" "list_all encoder_frame gs"
      "\<exists>t p k. rest = take k (frame_image t p)"
      "e = None \<longrightarrow> rest = [] \<and>
         wireOut (CStats cc') = wireOut (CStats c) + of_nat (length (wire_of gs))"
    using assms(2) unfolding disciplined_step_def by blast
  show ?thesis
    unfolding disciplined_step_def
    by (intro exI [of _ "fs @ gs"] exI [of _ rest]) (use 1 2 in auto)
qed

lemma disciplinedD: "disciplined f \<Longrightarrow> f cc = (e, cc') \<Longrightarrow> disciplined_step e cc cc'"
  by (simp add: disciplined_def)

lemma disciplined_then: "disciplined f \<Longrightarrow> disciplined g \<Longrightarrow> disciplined (and_then f g)"
proof -
  assume f: "disciplined f" and g: "disciplined g"
  have "disciplined_step e cc cc'" if run: "and_then f g cc = (e, cc')" for e cc cc'
  proof (cases "f cc")
    case (Pair e1 c)
    note d1 = disciplinedD [OF f Pair]
    show ?thesis
    proof (cases e1)
      case None
      with run Pair have "g c = (e, cc')" by (simp add: and_then_def)
      from disciplined_step_trans [OF d1 [unfolded None] disciplinedD [OF g this]] show ?thesis .
    next
      case (Some x)
      with run Pair d1 show ?thesis by (simp add: and_then_def)
    qed
  qed
  then show ?thesis by (simp add: disciplined_def)
qed

lemma disciplined_step_cong:
  "Destination c = Destination cc \<Longrightarrow> CStats c = CStats cc \<Longrightarrow>
     disciplined_step e c cc' = disciplined_step e cc cc'"
  by (simp add: disciplined_step_def sent_def)

lemma disciplined_frame:
  assumes t: "t \<in> {FrameRawData, FrameTemplateDefine, FrameTemplateRef}"
  shows "disciplined (write_frame_count t p)"
  unfolding disciplined_def
proof (intro allI impI)
  fix cc e cc'
  assume run: "write_frame_count t p cc = (e, cc')"
  show "disciplined_step e cc cc'"
  proof (cases "Destination cc")
    case None
    with run have "cc' = cc" by (simp add: write_frame_count_def)
    then show ?thesis by (simp add: disciplined_step_silent)
  next
    case (Some w)
    with run t obtain w' where w: "write_frame t 0 p w = (e, w')"
      and cc': "Destination cc' = Some w'"
        "wireOut (CStats cc') = wireOut (CStats cc) + of_nat (8 + length p)"
      by (auto simp: write_frame_count_def Let_def add_wire_out_def split: prod.splits if_splits)
    show ?thesis
    proof (cases e)
      case None
      with write_frame_okD [of t 0 p w w'] w
      have "frame_ok t p" "snk_bytes w' = snk_bytes w @ frame_image t p" by simp_all
      with None Some cc' t show ?thesis
        unfolding disciplined_step_def
        by (intro exI [of _ "[(t, p)]"] exI [of _ "[]"])
          (auto simp: sent_def encoder_frame_def intro: exI [of _ 0])
    next
      case (Some x)
      obtain k where "snk_bytes w' = snk_bytes w @ take k (frame_image t p)"
        using write_frame_prefix [OF w] by blast
      with Some cc' \<open>Destination cc = Some w\<close> show ?thesis
        unfolding disciplined_step_def
        by (intro exI [of _ "[]"] exI [of _ "take k (frame_image t p)"]) (auto simp: sent_def)
    qed
  qed
qed

lemma disciplined_ref_or_raw: "disciplined (emit_ref_or_raw tid lane raw)"
proof -
  have "disciplined (write_frame_count FrameRawData p)" "disciplined (write_frame_count FrameTemplateRef p)"
    for p
    by (rule disciplined_frame, simp)+
  then show ?thesis
    by (auto simp: emit_ref_or_raw_def simp del: FrameRawData_def FrameTemplateRef_def split: sum.splits)
qed

lemma disciplined_update:
  "disciplined f \<Longrightarrow> (\<And>cc. Destination (u cc) = Destination cc) \<Longrightarrow> (\<And>cc. CStats (u cc) = CStats cc) \<Longrightarrow>
     disciplined (\<lambda>cc. f (u cc))"
  unfolding disciplined_def using disciplined_step_cong by blast

lemma disciplined_promotion: "disciplined (emit_with_delayed_promotion a l b)"
proof -
  let ?tid = "template_id_for a b"
  have w: "disciplined (write_frame_count FrameRawData p)"
      "disciplined (write_frame_count FrameTemplateDefine p)" for p
    by (rule disciplined_frame, simp)+
  note ref = disciplined_ref_or_raw [of ?tid l "a @ l @ b"]
  have "disciplined_step e cc cc'"
    if run: "emit_with_delayed_promotion a l b cc = (e, cc')" for cc e cc'
  proof -
    have go: "f c = (e, cc') \<Longrightarrow> disciplined f \<Longrightarrow> Destination c = Destination cc \<Longrightarrow>
        CStats c = CStats cc \<Longrightarrow> disciplined_step e cc cc'" for f c
      using disciplinedD [of f c e cc'] disciplined_step_cong by blast
    from run show ?thesis
      unfolding emit_with_delayed_promotion_def Let_def
      by (auto split: if_splits sum.splits simp del: FrameRawData_def FrameTemplateDefine_def
          elim!: go intro!: w ref disciplined_then disciplined_update [OF ref])
  qed
  then show ?thesis by (simp add: disciplined_def)
qed

interpretation wire: encoding_steps disciplined
proof
  show "disciplined ok" "disciplined (observe ob)" "disciplined (count_raw_in n)" for ob n
    by (auto simp: disciplined_def ok_def observe_def count_raw_in_def add_raw_in_def sent_def
        intro!: disciplined_step_silent)
  show "disciplined (write_frame_count FrameRawData p)" for p
    by (rule disciplined_frame) simp
qed (rule disciplined_then disciplined_promotion; assumption?)+


subsection \<open>Requests and sessions\<close>

lemma request_disciplined:
  assumes run: "encode_request E meta body st = (e, st')"
  shows "disciplined_step e (Enc st) (Enc st')"
proof -
  let ?hdr = "normalize_http_headers (tables E) (HeaderBytes meta) (int (length body))"
  let ?off = "TruthOffset st + of_nat (length ?hdr)"
  obtain e1 c where c: "encode_header_lines ?hdr (Enc st) = (e1, c)" by fastforce
  note d1 = disciplinedD [OF wire.header c]
  show ?thesis
  proof (cases e1)
    case (Some x)
    with run c d1 show ?thesis by (auto simp: encode_request_def Let_def)
  next
    case None
    note d1 = d1 [unfolded None]
    obtain e2 d where d: "and_then (count_raw_in (length body)) (encode_body_as_lines body ?off)
        (c\<lparr>Obs := Some []\<rparr>) = (e2, d)"
      by fastforce
    have d2: "disciplined_step e2 c d"
      using disciplinedD [OF wire.body d] disciplined_step_cong [of "c\<lparr>Obs := Some []\<rparr>" c] by simp
    from run c None d have "e = None \<and> Enc st' = c \<or> e = e2 \<and> Enc st' = d"
      by (auto simp: encode_request_def Let_def split: if_splits option.splits prod.splits)
    then show ?thesis using d1 disciplined_step_trans [OF d1 d2] by auto
  qed
qed

lemma loop_disciplined:
  "encode_loop E k r st = (e, st') \<Longrightarrow> disciplined_step e (Enc st) (Enc st')"
proof (induction E k r st rule: encode_loop.induct)
  case (1 E k r st)
  have same: "st' = st \<Longrightarrow> ?case" by (simp add: disciplined_step_silent)
  show ?case
  proof (cases "ctx_done E k")
    case True
    with "1.prems" have "st' = st" by (subst (asm) encode_loop.simps) simp
    then show ?thesis by (rule same)
  next
    case go: False
    show ?thesis
    proof (cases "read_http_request_body (tables E) r maxHeaderBytes maxBodyBytes")
      case (Inl err)
      with go "1.prems" have "st' = st" by (subst (asm) encode_loop.simps) auto
      then show ?thesis by (rule same)
    next
      case (Inr x)
      obtain meta body r' where x: "x = (meta, body, r')" by (metis prod_cases3)
      note read = Inr [unfolded x]
      obtain e1 st1 where enc: "encode_request E meta body st = (e1, st1)" by fastforce
      note d1 = request_disciplined [OF enc]
      show ?thesis
      proof (cases e1)
        case (Some err)
        with "1.prems" go read enc have "e = e1" "st' = st1"
          by (subst (asm) encode_loop.simps; simp)+
        with d1 show ?thesis by simp
      next
        case None
        with "1.prems" go read enc have "encode_loop E (Suc k) r' st1 = (e, st')"
          by (subst (asm) encode_loop.simps) simp
        from "1.IH" [OF go read refl refl enc [unfolded None, symmetric] refl this]
        show ?thesis using disciplined_step_trans d1 None by simp
      qed
    qed
  qed
qed

lemma disciplined_from_start:
  assumes "disciplined_step e cc cc'" "sent cc = []"
  shows "\<exists>fs rest. sent cc' = wire_of fs @ rest \<and> list_all encoder_frame fs \<and>
    (\<exists>t p k. rest = take k (frame_image t p)) \<and>
    (e = None \<longrightarrow> rest = [] \<and>
       wireOut (CStats cc') = wireOut (CStats cc) + of_nat (length (sent cc')))"
proof -
  obtain fs rest where "sent cc' = wire_of fs @ rest" "list_all encoder_frame fs"
      "\<exists>t p k. rest = take k (frame_image t p)"
      "e = None \<longrightarrow> rest = [] \<and>
         wireOut (CStats cc') = wireOut (CStats cc) + of_nat (length (wire_of fs))"
    using assms(1) unfolding disciplined_step_def assms(2) append_Nil by blast
  then show ?thesis by (intro exI [of _ fs] exI [of _ rest]) auto
qed

text \<open>
  C4: Everything the encoder puts on the wire is an ENZO frame, and the wire counter is
  exact. Whatever the client sends, whatever the observers and the learner do, and even when
  the connection breaks in the middle, the bytes sent are a sequence of well-formed RAW,
  DEFINE and REF frames, followed at most by the beginning of one more; and when the lane
  ends without an error nothing is cut off and \<^verbatim>\<open>wireOut\<close> has grown by exactly the number
  of bytes sent.
\<close>

theorem encoder_output_is_frames:
  assumes "run_encode_template_v1 E (Some \<lparr>snk_bytes = [], snk_room = room\<rparr>) d stats window r =
    (err, st)"
  shows "\<exists>fs rest. sent (Enc st) = wire_of fs @ rest \<and> list_all encoder_frame fs \<and>
    (\<exists>t p k. rest = take k (frame_image t p)) \<and>
    (err = None \<longrightarrow> rest = [] \<and>
       wireOut (CStats (Enc st)) = wireOut stats + of_nat (length (sent (Enc st))))"
  using disciplined_from_start [OF loop_disciplined [OF assms [unfolded run_encode_template_v1_def]]]
  by (simp add: sent_def)

theorem encoder_output_is_frames_witness:
  "let run = run_encode_template_v1
     \<lparr>ctx_done = \<lambda>_. False, tables = \<lparr>uni_lower = id, uni_trim = id, uni_trim_right = id\<rparr>,
      sort_slice = \<lambda>_ xs. xs, range_order = \<lambda>_ xs. xs\<rparr>
     (Some \<lparr>snk_bytes = [], snk_room = Some 20\<rparr>) None new_conn_stats None
     \<lparr>rd_bytes = header_block [str ''PUT /w H'', str ''Content-Length: 2''] @ str ''ab'',
      rd_end = ErrEOF\<rparr>
   in \<exists>fs rest. sent (Enc (snd run)) = wire_of fs @ rest \<and> list_all encoder_frame fs \<and>
        (\<exists>t p k. rest = take k (frame_image t p)) \<and>
        (fst run = None \<longrightarrow> rest = [] \<and> wireOut (CStats (Enc (snd run))) =
           wireOut new_conn_stats + of_nat (length (sent (Enc (snd run)))))"
  unfolding Let_def
  by (rule encoder_output_is_frames [where d = None and window = None and room = "Some 20"])
    (rule prod.collapse [symmetric])

section \<open>Counting the input\<close>

definition counts :: "enc act \<Rightarrow> nat \<Rightarrow> bool" where
  "counts f n \<longleftrightarrow> (\<forall>cc cc'. f cc = (None, cc') \<longrightarrow>
     rawIn (CStats cc') = rawIn (CStats cc) + of_nat n)"

lemma counts_then: "counts f m \<Longrightarrow> counts g n \<Longrightarrow> counts (and_then f g) (m + n)"
  unfolding counts_def
proof (intro allI impI)
  fix cc cc'
  assume f: "\<forall>cc cc'. f cc = (None, cc') \<longrightarrow> rawIn (CStats cc') = rawIn (CStats cc) + of_nat m"
    and g: "\<forall>cc cc'. g cc = (None, cc') \<longrightarrow> rawIn (CStats cc') = rawIn (CStats cc) + of_nat n"
    and "and_then f g cc = (None, cc')"
  then obtain c where "f cc = (None, c)" "g c = (None, cc')" by (blast dest: and_then_NoneD)
  with f g show "rawIn (CStats cc') = rawIn (CStats cc) + of_nat (m + n)" by simp
qed

lemma counts_raw_in: "counts (count_raw_in n) n"
  by (simp add: counts_def count_raw_in_def add_raw_in_def)

lemma counts_frame: "counts (write_frame_count t p) 0"
  by (auto simp: counts_def write_frame_count_def add_wire_out_def Let_def
      split: option.splits if_splits prod.splits)

lemma counts_ref_or_raw: "counts (emit_ref_or_raw tid lane raw) 0"
  by (simp add: emit_ref_or_raw_def counts_frame split: sum.splits)

lemma counts_promotion: "counts (emit_with_delayed_promotion a l b) 0"
proof -
  have "rawIn (CStats cc') = rawIn (CStats cc)"
    if run: "emit_with_delayed_promotion a l b cc = (None, cc')" for cc cc'
    using run
  proof (cases rule: emit_promotion_cases)
    case raw
    with counts_frame show ?thesis by (simp add: counts_def)
  next
    case (young st)
    from counts_frame young(1) have "rawIn (CStats cc') = rawIn (CStats cc) + of_nat 0"
      unfolding counts_def by fastforce
    then show ?thesis by simp
  next
    case (promoted st)
    from counts_ref_or_raw promoted(4) have "rawIn (CStats cc') = rawIn (CStats cc) + of_nat 0"
      unfolding counts_def by fastforce
    then show ?thesis by simp
  next
    case (defining st p c)
    from counts_frame defining(3) have "rawIn (CStats c) = rawIn (CStats cc) + of_nat 0"
      unfolding counts_def by fastforce
    moreover from counts_ref_or_raw defining(4) have "rawIn (CStats cc') = rawIn (CStats c) + of_nat 0"
      unfolding counts_def by fastforce
    ultimately show ?thesis by simp
  qed
  then show ?thesis by (simp add: counts_def)
qed

interpretation uncounted: emission_steps "\<lambda>f. counts f 0"
proof
  show "counts ok 0" "counts (observe ob) 0" for ob
    by (simp_all add: counts_def ok_def observe_def)
  show "counts (and_then f g) 0" if "counts f 0" "counts g 0" for f g
    using counts_then [OF that] by simp
qed (rule counts_frame counts_promotion)+

lemma counts_lines: "counts (encode_lines ls) (length (join_with CRLF ls))"
proof (induction ls)
  case Nil
  then show ?case by (simp add: counts_def ok_def)
next
  case (Cons line rest)
  let ?line = "if rest \<noteq> [] then line @ CRLF else line"
  have jw: "join_with CRLF (line # rest) = ?line @ join_with CRLF rest"
    by (cases rest) simp_all
  show ?case
  proof (cases "?line = []")
    case True
    with Cons jw show ?thesis by (simp del: encode_lines.simps add: encode_lines_Cons Let_def)
  next
    case False
    have piece: "counts (emit_piece p) 0" for p
      by (cases p) (simp_all only: emit_piece.simps counts_frame counts_promotion)
    have "counts (and_then (count_raw_in (length ?line))
        (and_then (emit_piece (hd (header_line_pieces ?line))) (encode_lines rest)))
      (length ?line + (0 + length (join_with CRLF rest)))"
      by (intro counts_then counts_raw_in piece Cons)
    with False show ?thesis
      by (simp only: encode_lines_Cons Let_def if_False jw length_append add_0)
  qed
qed

lemma counts_body_from:
  "drop i body = s \<Longrightarrow> s = [] \<or> last s = 10 \<Longrightarrow> counts (encode_body_from body off i) (length s)"
proof (induction s arbitrary: i rule: newline_lines.induct)
  case (1 s)
  show ?case
  proof (cases "s = []")
    case True
    with "1.prems"(1) show ?thesis
      by (subst encode_body_from.simps) (simp add: counts_def ok_def)
  next
    case ne: False
    with "1.prems"(1) have i: "i < length body" by (metis drop_all not_le)
    have "last s \<in> set s" using ne by simp
    with "1.prems"(2) ne have "dropWhile (\<lambda>b. b \<noteq> 10) s \<noteq> []"
      by (auto simp: dropWhile_eq_Nil_conv)
    then obtain x rest where d: "dropWhile (\<lambda>b. b \<noteq> 10) s = x # rest"
      by (meson neq_Nil_conv)
    let ?k = "takeWhile (\<lambda>b. b \<noteq> 10) s" and ?line = "takeWhile (\<lambda>b. b \<noteq> 10) s @ [10]"
    have s: "s = ?line @ rest" using takeWhile_dropWhile_Cons [OF d] by auto
    have idx: "index_byte 10 (drop i body) = Some (length ?k)"
      unfolding "1.prems"(1) by (simp add: index_byte_takeWhile d)
    have "drop (i + length ?k + 1) body = drop (length ?line) s"
      unfolding "1.prems"(1) [symmetric] by (simp add: add.commute)
    also have "\<dots> = rest" by (subst s) simp
    finally have rest: "drop (i + length ?k + 1) body = rest" .
    have line: "take (i + length ?k + 1 - i) (drop i body) = ?line"
      unfolding "1.prems"(1) by (subst s) simp
    have "last s = (if rest = [] then 10 else last rest)" using arg_cong [OF s, of last] by simp
    with "1.prems"(2) ne have "rest = [] \<or> last rest = 10" by (cases "rest = []") simp_all
    from counts_then [OF counts_raw_in counts_then [OF uncounted.influx_line "1.IH" [OF ne d rest this]]]
    have "counts (encode_body_from body off i) (length ?line + (0 + length rest))"
      using i by (subst encode_body_from.simps) (simp only: idx option.case Let_def line if_True)
    moreover have "length ?line + (0 + length rest) = length s" by (subst s) simp
    ultimately show ?thesis by simp
  qed
qed


section \<open>The promotion schedule\<close>

definition hits_of :: "enc \<Rightarrow> u16 \<Rightarrow> u32" where
  "hits_of cc tid = (case SpanStats cc tid of Some st \<Rightarrow> SHits st | None \<Rightarrow> 0)"

definition is_defined :: "enc \<Rightarrow> u16 \<Rightarrow> bool" where
  "is_defined cc tid = (case SpanStats cc tid of Some st \<Rightarrow> Defined st | None \<Rightarrow> False)"

text \<open>The frames the documented rules prescribe for one more occurrence of a pattern.\<close>

definition scheduled_frames :: "u32 \<Rightarrow> bool \<Rightarrow> bytes \<Rightarrow> bytes \<Rightarrow> bytes \<Rightarrow> frame list" where
  "scheduled_frames hit dfnd raw defp refp =
     (if hit < 3 then [(FrameRawData, raw)]
      else (if dfnd then [] else [(FrameTemplateDefine, defp)]) @
           [if length refp < length raw then (FrameTemplateRef, refp) else (FrameRawData, raw)])"

lemma frame_sent:
  assumes "out_open cc" "frame_ok t p" "t \<in> {FrameRawData, FrameTemplateDefine, FrameTemplateRef}"
  shows "\<exists>cc'. write_frame_count t p cc = (None, cc') \<and> out_open cc' \<and>
    sent cc' = sent cc @ frame_image t p \<and> SpanStats cc' = SpanStats cc \<and>
    Templates cc' = Templates cc"
proof -
  from succeeds_frame [OF assms(2,3)] assms(1) obtain cc' where
    "write_frame_count t p cc = (None, cc')" "out_open cc'"
    unfolding succeeds_def by blast
  with write_frame_count_okD [of t p cc cc'] show ?thesis by blast
qed

lemma ref_or_raw_sent:
  assumes "out_open cc" "build_template_ref_payload (tid, l) = Inr refp"
    and "length raw \<le> MaxFramePayloadBytes"
  shows "\<exists>cc'. emit_ref_or_raw tid l raw cc = (None, cc') \<and> SpanStats cc' = SpanStats cc \<and>
    Templates cc' = Templates cc \<and> out_open cc' \<and>
    sent cc' = sent cc @ wire_of
      [if length refp < length raw then (FrameTemplateRef, refp) else (FrameRawData, raw)]"
proof (cases "length refp < length raw")
  case True
  then have "frame_ok FrameTemplateRef refp" using assms(3) frame_ok_ref [of refp] by simp
  from frame_sent [OF assms(1) this] True assms(2) show ?thesis
    by (simp add: emit_ref_or_raw_def del: FrameTemplateRef_def FrameRawData_def) auto
next
  case False
  have "frame_ok FrameRawData raw" using assms(3) frame_ok_raw [of raw] by simp
  from frame_sent [OF assms(1) this] False assms(2) show ?thesis
    by (simp add: emit_ref_or_raw_def del: FrameTemplateRef_def FrameRawData_def) auto
qed

text \<open>The occurrence is counted first; what is sent depends on the state after counting.\<close>

definition span_of :: "enc \<Rightarrow> u16 \<Rightarrow> span_stat" where
  "span_of cc tid = (case SpanStats cc tid of Some st \<Rightarrow> st | None \<Rightarrow> \<lparr>SHits = 0, Defined = False\<rparr>)"

definition count_hit :: "u16 \<Rightarrow> enc \<Rightarrow> enc" where
  "count_hit tid cc =
     cc\<lparr>SpanStats := (SpanStats cc)(tid \<mapsto> (span_of cc tid)\<lparr>SHits := SHits (span_of cc tid) + 1\<rparr>)\<rparr>"

definition mark_defined :: "u16 \<Rightarrow> bytes \<Rightarrow> bytes \<Rightarrow> span_stat \<Rightarrow> enc \<Rightarrow> enc" where
  "mark_defined tid a b st cc =
     cc\<lparr>Templates := (Templates cc)(tid \<mapsto> \<lparr>TID = tid, TConstA = a, TConstB = b\<rparr>),
        SpanStats := (SpanStats cc)(tid \<mapsto> st\<lparr>Defined := True\<rparr>)\<rparr>"

lemma hits_of_span [simp]: "SHits (span_of cc tid) = hits_of cc tid"
  by (simp add: span_of_def hits_of_def split: option.split)

lemma is_defined_span [simp]: "Defined (span_of cc tid) = is_defined cc tid"
  by (simp add: span_of_def is_defined_def split: option.split)

lemma count_hit_facts:
  "hits_of (count_hit tid cc) tid = hits_of cc tid + 1" "is_defined (count_hit tid cc) tid = is_defined cc tid"
  "sent (count_hit tid cc) = sent cc" "out_open (count_hit tid cc) = out_open cc"
proof -
  show "hits_of (count_hit tid cc) tid = hits_of cc tid + 1"
    by (simp add: count_hit_def hits_of_def [of "cc\<lparr>SpanStats := _\<rparr>"])
  show "is_defined (count_hit tid cc) tid = is_defined cc tid"
    by (simp add: count_hit_def is_defined_def [of "cc\<lparr>SpanStats := _\<rparr>"])
qed (simp_all add: count_hit_def sent_def out_open_def)

lemma mark_defined_facts:
  "hits_of (mark_defined tid a b st cc) tid = SHits st" "is_defined (mark_defined tid a b st cc) tid"
  "sent (mark_defined tid a b st cc) = sent cc" "out_open (mark_defined tid a b st cc) = out_open cc"
  by (simp_all add: mark_defined_def hits_of_def is_defined_def sent_def out_open_def)

lemma stats_cong:
  "SpanStats c = SpanStats cc \<Longrightarrow> hits_of c tid = hits_of cc tid \<and> is_defined c tid = is_defined cc tid"
  by (simp add: hits_of_def is_defined_def)

lemma promotion_counted:
  assumes "length l < length a + length b"
    and defp: "build_template_define_payload (template_id_for a b, a, b) = Inr defp"
  shows "emit_with_delayed_promotion a l b cc =
    (let tid = template_id_for a b; c = count_hit tid cc
     in if hits_of c tid < 3 then write_frame_count FrameRawData (a @ l @ b) c
        else if is_defined c tid then emit_ref_or_raw tid l (a @ l @ b) c
        else and_then (write_frame_count FrameTemplateDefine defp)
          (\<lambda>cc. emit_ref_or_raw tid l (a @ l @ b) (mark_defined tid a b (span_of c tid) cc)) c)"
proof -
  let ?tid = "template_id_for a b"
  have st: "span_of (count_hit ?tid cc) ?tid =
      (span_of cc ?tid)\<lparr>SHits := SHits (span_of cc ?tid) + 1\<rparr>"
    by (simp add: count_hit_def span_of_def [of "cc\<lparr>SpanStats := _\<rparr>"])
  have big: "\<not> length a + length b \<le> length l" using assms(1) by simp
  show ?thesis
    unfolding emit_with_delayed_promotion_def Let_def promoteAfterHits_def if_not_P [OF big]
      span_of_def [symmetric] defp sum.case count_hit_facts(1,2) st mark_defined_def
    by (simp add: count_hit_def del: FrameRawData_def FrameTemplateDefine_def)
qed

lemma promotion_scheduled:
  assumes "out_open cc" and lane: "length l < length a + length b"
    and small: "length a + length b < 65536"
    and defp: "build_template_define_payload (template_id_for a b, a, b) = Inr defp"
    and refp: "build_template_ref_payload (template_id_for a b, l) = Inr refp"
  shows "\<exists>cc'. emit_with_delayed_promotion a l b cc = (None, cc') \<and>
    sent cc' = sent cc @ wire_of (scheduled_frames (hits_of cc (template_id_for a b) + 1)
      (is_defined cc (template_id_for a b)) (a @ l @ b) defp refp) \<and>
    hits_of cc' (template_id_for a b) = hits_of cc (template_id_for a b) + 1 \<and>
    is_defined cc' (template_id_for a b) =
      (is_defined cc (template_id_for a b) \<or> 3 \<le> hits_of cc (template_id_for a b) + 1)"
proof -
  let ?tid = "template_id_for a b" and ?raw = "a @ l @ b" and ?n = "hits_of cc (template_id_for a b) + 1"
  let ?c = "count_hit ?tid cc"
  note run = promotion_counted [OF lane defp, of cc, unfolded Let_def]
  note c = count_hit_facts [of ?tid cc]
  have len: "length ?raw \<le> MaxFramePayloadBytes"
    using lane small by (simp add: MaxFramePayloadBytes_def)
  have o: "out_open ?c" using assms(1) c(4) by simp
  consider (early) "?n < 3" | (known) "\<not> ?n < 3" "is_defined cc ?tid"
    | (promote) "\<not> ?n < 3" "\<not> is_defined cc ?tid" by blast
  then show ?thesis
  proof cases
    case early
    have "frame_ok FrameRawData ?raw" using len frame_ok_raw [of ?raw] by simp
    from frame_sent [OF o this] obtain d where "write_frame_count FrameRawData ?raw ?c = (None, d)"
        "sent d = sent cc @ frame_image FrameRawData ?raw" "SpanStats d = SpanStats ?c"
      using c(3) by auto
    with early run c stats_cong [of d ?c ?tid] show ?thesis
      by (auto simp: scheduled_frames_def not_le)
  next
    case known
    from ref_or_raw_sent [OF o refp len] obtain d where "emit_ref_or_raw ?tid l ?raw ?c = (None, d)"
        "SpanStats d = SpanStats ?c" "sent d = sent cc @ wire_of
          [if length refp < length ?raw then (FrameTemplateRef, refp) else (FrameRawData, ?raw)]"
      using c(3) by auto
    with known run c stats_cong [of d ?c ?tid] show ?thesis by (auto simp: scheduled_frames_def)
  next
    case promote
    have "frame_ok FrameTemplateDefine defp"
      using build_define_length [OF defp] frame_ok_define [of defp] by simp
    from frame_sent [OF o this] obtain d where
      d: "write_frame_count FrameTemplateDefine defp ?c = (None, d)" "out_open d"
        "sent d = sent cc @ frame_image FrameTemplateDefine defp"
      using c(3) by auto
    let ?m = "mark_defined ?tid a b (span_of ?c ?tid) d"
    note m = mark_defined_facts [of ?tid a b "span_of ?c ?tid" d]
    from ref_or_raw_sent [of ?m ?tid l refp ?raw, OF _ refp len] d(2) m(4) obtain x where
      x: "emit_ref_or_raw ?tid l ?raw ?m = (None, x)" "SpanStats x = SpanStats ?m"
        "sent x = sent d @ wire_of
          [if length refp < length ?raw then (FrameTemplateRef, refp) else (FrameRawData, ?raw)]"
      using m(3) by auto
    with d promote run c m stats_cong [of x ?m ?tid] show ?thesis
      by (auto simp: scheduled_frames_def and_then_def)
  qed
qed

text \<open>The third occurrence also records the template.\<close>

lemma promotion_defines:
  assumes o: "out_open cc" and lane: "length l < length a + length b" and small: "length a + length b < 65536"
    and st: "hits_of cc (template_id_for a b) = 2" "\<not> is_defined cc (template_id_for a b)"
  shows "\<exists>cc'. emit_with_delayed_promotion a l b cc = (None, cc') \<and> out_open cc' \<and>
    Templates cc' (template_id_for a b) = Some \<lparr>TID = template_id_for a b, TConstA = a, TConstB = b\<rparr>"
proof -
  let ?tid = "template_id_for a b" and ?raw = "a @ l @ b"
  let ?c = "count_hit ?tid cc"
  obtain defp where defp: "build_template_define_payload (?tid, a, b) = Inr defp"
    using define_codec.build_fits [of "(?tid, a, b)"] small by (auto simp: define_fits_def)
  obtain refp where refp: "build_template_ref_payload (?tid, l) = Inr refp"
    using ref_codec.build_fits [of "(?tid, l)"] lane small by (auto simp: ref_fits_def)
  have len: "length ?raw \<le> MaxFramePayloadBytes"
    using lane small by (simp add: MaxFramePayloadBytes_def)
  have "frame_ok FrameTemplateDefine defp"
    using build_define_length [OF defp] frame_ok_define [of defp] by simp
  from frame_sent [OF _ this, of ?c] obtain d where
    d: "write_frame_count FrameTemplateDefine defp ?c = (None, d)" "out_open d"
    using o count_hit_facts(4) by auto
  let ?m = "mark_defined ?tid a b (span_of ?c ?tid) d"
  from ref_or_raw_sent [of ?m ?tid l refp ?raw, OF _ refp len] d(2) mark_defined_facts(4)
  obtain x where x: "emit_ref_or_raw ?tid l ?raw ?m = (None, x)" "Templates x = Templates ?m" "out_open x"
    by blast
  have "emit_with_delayed_promotion a l b cc = (None, x)"
    using promotion_counted [OF lane defp, of cc] st d(1) x(1) count_hit_facts(1,2) [of ?tid cc]
    by (simp add: and_then_def)
  moreover have "Templates x ?tid = Some \<lparr>TID = ?tid, TConstA = a, TConstB = b\<rparr>"
    using x(2) by (simp add: mark_defined_def)
  ultimately show ?thesis using x(3) by blast
qed

text \<open>
  C13: Delayed promotion follows its documented schedule. For a segment whose constants
  outweigh its lane, on a connection that takes every byte, the first two occurrences of its
  template id go out RAW, the third as DEFINE followed by a REF (or RAW when the REF would
  not be smaller), later ones as REF or RAW; the occurrence is counted, and the id is marked
  defined from the third on. The hit count is the 32-bit counter of the code, so that after
  \<^verbatim>\<open>2^32\<close> occurrences the first two of a new round are RAW again.
\<close>

theorem promotion_schedule:
  assumes "out_open cc" and lane: "length l < length a + length b"
    and small: "length a + length b < 65536"
    and defp: "build_template_define_payload (template_id_for a b, a, b) = Inr defp"
    and refp: "build_template_ref_payload (template_id_for a b, l) = Inr refp"
  shows "\<exists>cc'. emit_with_delayed_promotion a l b cc = (None, cc') \<and>
    sent cc' = sent cc @ wire_of (scheduled_frames (hits_of cc (template_id_for a b) + 1)
      (is_defined cc (template_id_for a b)) (a @ l @ b) defp refp) \<and>
    hits_of cc' (template_id_for a b) = hits_of cc (template_id_for a b) + 1 \<and>
    is_defined cc' (template_id_for a b) =
      (is_defined cc (template_id_for a b) \<or> 3 \<le> hits_of cc (template_id_for a b) + 1)"
  using assms by (rule promotion_scheduled)

theorem promotion_schedule_witness:
  "let tid = template_id_for (str ''cpu='') (str '','');
       cc = \<lparr>Destination = Some \<lparr>snk_bytes = [], snk_room = None\<rparr>, Templates = Map.empty,
         SpanStats = [tid \<mapsto> \<lparr>SHits = 2, Defined = False\<rparr>], CStats = new_conn_stats, Obs = None\<rparr>
   in \<exists>defp refp cc'. emit_with_delayed_promotion (str ''cpu='') (str ''1'') (str '','') cc = (None, cc') \<and>
        sent cc' = wire_of [(FrameTemplateDefine, defp), (FrameRawData, str ''cpu=1,'')] \<and>
        hits_of cc' tid = 3 \<and> is_defined cc' tid"
proof -
  let ?a = "str ''cpu=''" and ?b = "str '',''" and ?l = "str ''1''"
  let ?tid = "template_id_for ?a ?b"
  let ?cc = "\<lparr>Destination = Some \<lparr>snk_bytes = [], snk_room = None\<rparr>, Templates = Map.empty,
      SpanStats = [?tid \<mapsto> \<lparr>SHits = 2, Defined = False\<rparr>], CStats = new_conn_stats, Obs = None\<rparr>"
  obtain defp where d: "build_template_define_payload (?tid, ?a, ?b) = Inr defp"
    using define_codec.build_fits [of "(?tid, ?a, ?b)"] by (auto simp: define_fits_def str_def)
  obtain refp where r: "build_template_ref_payload (?tid, ?l) = Inr refp"
    using ref_codec.build_fits [of "(?tid, ?l)"] by (auto simp: ref_fits_def str_def)
  have "length refp = 6" using r by (auto simp: build_template_ref_payload_def Let_def str_def
      split: if_splits)
  moreover have "hits_of ?cc ?tid = 2" "\<not> is_defined ?cc ?tid" "sent ?cc = []" "out_open ?cc"
    by (simp_all add: hits_of_def is_defined_def sent_def out_open_def)
  moreover from this(4) have "\<exists>cc'. emit_with_delayed_promotion ?a ?l ?b ?cc = (None, cc') \<and>
      sent cc' = sent ?cc @ wire_of (scheduled_frames (hits_of ?cc ?tid + 1)
        (is_defined ?cc ?tid) (?a @ ?l @ ?b) defp refp) \<and>
      hits_of cc' ?tid = hits_of ?cc ?tid + 1 \<and>
      is_defined cc' ?tid = (is_defined ?cc ?tid \<or> 3 \<le> hits_of ?cc ?tid + 1)"
    by (rule promotion_schedule [OF _ _ _ d r]) (simp_all add: str_def)
  ultimately show ?thesis
    by (auto simp: Let_def scheduled_frames_def str_def)
qed

end
