(* ===== verification/Decoder.thy ===== *)
theory Decoder
  imports Conn_State Go_Strings
begin

text \<open>
  The decoder lane (\<^verbatim>\<open>internal/state/decode_v1.go\<close>): templates are learnt from DEFINE and
  INLINE frames, expanded bytes are collected until a whole HTTP request is there, and the
  request is handed to the backend in one piece.
\<close>

section \<open>State\<close>

text \<open>
  The connection fields the loop uses and its local variables. \<^verbatim>\<open>contentLen\<close> is \<open>- 1\<close> until a
  header has been parsed.
\<close>

record dec =
  DTemplates :: dict
  DEpoch :: u32
  Req :: bytes
  HeaderDone :: bool
  ContentLen :: int
  BodyHave :: int
  DDest :: sink
  DWindow :: "raw_window option"

section \<open>Requests\<close>

text \<open>
  \<^verbatim>\<open>line[len("content-length:"):]\<close> slices the line, not its lower-cased copy: a line shorter
  than the prefix would panic.
\<close>

fun content_length_of_lines :: "unicode \<Rightarrow> bytes list \<Rightarrow> go_error + int" where
  "content_length_of_lines U [] = Inr (- 1)"
| "content_length_of_lines U (line # rest) =
     (let low = to_lower U line
      in if has_prefix low (str ''content-length:'')
         then (if length line < length ''content-length:'' then Inl GoPanic
               else case atoi (trim_space U (drop (length ''content-length:'') line)) of
                 Some n \<Rightarrow> if n \<ge> 0 then Inr n else content_length_of_lines U rest
               | None \<Rightarrow> content_length_of_lines U rest)
         else content_length_of_lines U rest)"

definition parse_content_length_from_header_string :: "unicode \<Rightarrow> bytes \<Rightarrow> go_error + int" where
  "parse_content_length_from_header_string U hdr = content_length_of_lines U (split_on CRLF hdr)"

definition reset_req :: "dec \<Rightarrow> dec" where
  "reset_req dc = dc\<lparr>Req := [], HeaderDone := False, ContentLen := - 1, BodyHave := 0\<rparr>"

text \<open>The write loop of \<^verbatim>\<open>flushReqIfComplete\<close>, with the observer.\<close>

function write_out :: "bytes \<Rightarrow> dec act" where
  "write_out out dc =
     (if length out > 0
      then (case conn_write out (DDest dc) of
              (n, Some e, s) \<Rightarrow> (Some e, dc\<lparr>DDest := s\<rparr>)
            | (n, None, s) \<Rightarrow>
                write_out (drop n out)
                  (dc\<lparr>DDest := s,
                      DWindow := (if n > 0 then map_option (rw_append (take n out)) (DWindow dc)
                                  else DWindow dc)\<rparr>))
      else (None, dc))"
  by pat_completeness auto
termination
  by (relation "measure (\<lambda>(out, dc). length out)") (auto dest: conn_write_count [OF sym])

declare write_out.simps [simp del]

definition flush_req_if_complete :: "dec act" where
  "flush_req_if_complete dc =
     (if \<not> HeaderDone dc \<or> ContentLen dc < 0 then (None, dc)
      else if BodyHave dc < ContentLen dc then (None, dc)
      else (case write_out (Req dc) dc of
              (Some e, dc) \<Rightarrow> (Some e, dc)
            | (None, dc) \<Rightarrow> (None, reset_req dc)))"

definition feed :: "unicode \<Rightarrow> bytes \<Rightarrow> dec act" where
  "feed U b dc =
     (if length b = 0 then (None, dc)
      else let dc = dc\<lparr>Req := Req dc @ b\<rparr>; all = Req dc
      in if \<not> HeaderDone dc
         then (case index_sub (CRLF @ CRLF) all of
                 None \<Rightarrow> (None, dc)
               | Some idx \<Rightarrow>
                   let dc = dc\<lparr>HeaderDone := True\<rparr>
                   in (case parse_content_length_from_header_string U (take (idx + 4) all) of
                         Inl e \<Rightarrow> (Some e, dc)
                       | Inr n \<Rightarrow>
                           let dc = dc\<lparr>ContentLen := n\<rparr>
                           in if n < 0 then (Some ErrMissingContentLength, dc)
                              else (None, dc\<lparr>BodyHave := int (length all - (idx + 4))\<rparr>)))
         else (case index_sub (CRLF @ CRLF) all of
                 None \<Rightarrow> (Some ErrHeaderMarkerLost, dc)
               | Some idx \<Rightarrow> (None, dc\<lparr>BodyHave := int (length all - (idx + 4))\<rparr>)))"

definition feed_and_flush :: "unicode \<Rightarrow> bytes \<Rightarrow> dec act" where
  "feed_and_flush U b = and_then (feed U b) flush_req_if_complete"

section \<open>Frames\<close>

definition add_template :: "u16 \<Rightarrow> bytes \<Rightarrow> bytes \<Rightarrow> dec \<Rightarrow> dec" where
  "add_template tid a b dc =
     dc\<lparr>DTemplates := (DTemplates dc)(tid \<mapsto> \<lparr>TID = tid, TConstA = a, TConstB = b\<rparr>)\<rparr>"

definition handle_frame :: "unicode \<Rightarrow> frame_type \<Rightarrow> bytes \<Rightarrow> dec act" where
  "handle_frame U t payload dc =
     (if t = FrameRawData then feed_and_flush U payload dc
      else if t = FrameTemplateInline then
        (case parse_template_inline_payload payload of
           Inl e \<Rightarrow> (Some e, dc)
         | Inr (tid, a, b, lane) \<Rightarrow>
             feed_and_flush U (a @ lane @ b) (add_template tid a b dc))
      else if t = FrameTemplateDefine then
        (case parse_template_define_payload payload of
           Inl e \<Rightarrow> (Some e, dc)
         | Inr (tid, a, b) \<Rightarrow> (None, add_template tid a b dc))
      else if t = FrameTemplateRef then
        (case parse_template_ref_payload payload of
           Inl e \<Rightarrow> (Some e, dc)
         | Inr (tid, lane) \<Rightarrow>
            (case DTemplates dc tid of
               None \<Rightarrow> (Some ErrRefBeforeDefine, dc)
             | Some tm \<Rightarrow> feed_and_flush U (TConstA tm @ lane @ TConstB tm) dc))
      else if t = FrameEpochReset then
        (case parse_epoch_reset_payload payload of
           Inl e \<Rightarrow> (Some e, dc)
         | Inr epochID \<Rightarrow> (None, reset_req (dc\<lparr>DEpoch := epochID, DTemplates := Map.empty\<rparr>)))
      else (Some ErrUnsupportedFrameType, dc))"

text \<open>
  The loop. \<open>cancelled k\<close> says whether the context is found cancelled before the frame number
  \<open>k\<close>.
\<close>

function decode_loop :: "unicode \<Rightarrow> (nat \<Rightarrow> bool) \<Rightarrow> nat \<Rightarrow> reader \<Rightarrow> dec act" where
  "decode_loop U cancelled k r dc =
     (if cancelled k then (Some ErrCanceled, dc)
      else case read_frame r of
        Inl err \<Rightarrow> (if err = ErrEOF then None else Some err, dc)
      | Inr (h, payload, r') \<Rightarrow>
         (case handle_frame U (Type h) payload dc of
            (Some err, dc') \<Rightarrow> (Some err, dc')
          | (None, dc') \<Rightarrow> decode_loop U cancelled (Suc k) r' dc'))"
  by pat_completeness auto
termination
  by (relation "measure (\<lambda>(U, cancelled, k, r, dc). length (rd_bytes r))")
    (auto dest: read_frame_shorter)

declare decode_loop.simps [simp del]

definition new_dec :: "dict option \<Rightarrow> u32 \<Rightarrow> sink \<Rightarrow> raw_window option \<Rightarrow> dec" where
  "new_dec d epoch dst window =
     \<lparr>DTemplates = (case d of Some m \<Rightarrow> m | None \<Rightarrow> new_dict), DEpoch = epoch, Req = [],
      HeaderDone = False, ContentLen = - 1, BodyHave = 0, DDest = dst, DWindow = window\<rparr>"

definition run_decode_template_v1 ::
    "unicode \<Rightarrow> (nat \<Rightarrow> bool) \<Rightarrow> dict option \<Rightarrow> u32 \<Rightarrow> sink \<Rightarrow> raw_window option \<Rightarrow> reader \<Rightarrow>
     go_error option \<times> dec" where
  "run_decode_template_v1 U cancelled d epoch dst window r =
     decode_loop U cancelled 0 r (new_dec d epoch dst window)"

end
