(* ===== verification/Decoder_Correct.thy ===== *)
theory Decoder_Correct
  imports Frame_Semantics Decoder
begin

text \<open>
  The decoder against the meaning of frames: on a connection that stays open it feeds
  exactly the byte strings the frames stand for, and a request that arrives in any cut is
  delivered once it is complete, byte for byte.
\<close>

section \<open>Feeding chunks\<close>

fun feed_all :: "unicode \<Rightarrow> bytes list \<Rightarrow> dec act" where
  "feed_all U [] = ok"
| "feed_all U (c # cs) = and_then (feed_and_flush U c) (feed_all U cs)"

lemma feed_all_append: "feed_all U (cs @ ds) = and_then (feed_all U cs) (feed_all U ds)"
  by (induction cs) (simp_all add: and_then_assoc)

abbreviation with_templates :: "dict \<Rightarrow> dec \<Rightarrow> dec" where
  "with_templates T dc \<equiv> dc\<lparr>DTemplates := T\<rparr>"

text \<open>Nothing between two frames looks at the templates.\<close>

lemma write_out_templates:
  "write_out out (with_templates T dc) = apsnd (with_templates T) (write_out out dc)"
proof (induction out dc rule: write_out.induct)
  case (1 out dc)
  show ?case
  proof (cases "out = []")
    case True
    then show ?thesis by (subst (1 2) write_out.simps) simp
  next
    case False
    obtain n e s where w: "conn_write out (DDest dc) = (n, e, s)" by (metis prod_cases3)
    show ?thesis
    proof (cases e)
      case (Some x)
      then show ?thesis using False w by (subst (1 2) write_out.simps) simp
    next
      case None
      let ?dc = "dc\<lparr>DDest := s, DWindow := (if n > 0 then map_option (rw_append (take n out)) (DWindow dc)
          else DWindow dc)\<rparr>"
      have "write_out out dc' = write_out (drop n out) (dc'\<lparr>DDest := s,
          DWindow := (if n > 0 then map_option (rw_append (take n out)) (DWindow dc')
            else DWindow dc')\<rparr>)" if "DDest dc' = DDest dc" for dc'
        using False w None that by (subst write_out.simps) simp
      note step = this
      have swap: "(with_templates T dc)\<lparr>DDest := s, DWindow := x\<rparr> =
          with_templates T (dc\<lparr>DDest := s, DWindow := x\<rparr>)" for x
        by (cases dc) simp
      have "write_out (drop n out) (with_templates T ?dc) =
          apsnd (with_templates T) (write_out (drop n out) ?dc)"
        using "1.IH" [OF _ w [symmetric] refl None] False by blast
      then have "write_out (drop n out) ((with_templates T dc)\<lparr>DDest := s,
          DWindow := (if n > 0 then map_option (rw_append (take n out)) (DWindow dc)
            else DWindow dc)\<rparr>) = apsnd (with_templates T) (write_out (drop n out) ?dc)"
        unfolding swap .
      moreover have "DWindow (with_templates T dc) = DWindow dc" "DDest (with_templates T dc) = DDest dc"
        by simp_all
      ultimately show ?thesis
        using step [of dc] step [of "with_templates T dc"] by (simp only:)
    qed
  qed
qed

lemma feed_templates:
  "feed U c (with_templates T dc) = apsnd (with_templates T) (feed U c dc)"
  by (simp add: feed_def Let_def split: option.splits sum.splits)

lemma flush_templates:
  "flush_req_if_complete (with_templates T dc) = apsnd (with_templates T) (flush_req_if_complete dc)"
  by (simp add: flush_req_if_complete_def write_out_templates reset_req_def
      split: option.splits prod.splits)

lemma feed_and_flush_templates:
  "feed_and_flush U c (with_templates T dc) = apsnd (with_templates T) (feed_and_flush U c dc)"
  by (simp add: feed_and_flush_def and_then_def feed_templates flush_templates
      split: option.splits prod.splits)

lemma feed_all_templates:
  "feed_all U cs (with_templates T dc) = apsnd (with_templates T) (feed_all U cs dc)"
proof (induction cs arbitrary: dc)
  case Nil
  then show ?case by (simp add: ok_def)
next
  case (Cons c cs)
  then show ?case
    by (simp add: and_then_def feed_and_flush_templates split: option.splits prod.splits)
qed

lemma feed_keeps_templates:
  assumes "feed_and_flush U c dc = (e, dc')"
  shows "DTemplates dc' = DTemplates dc"
proof -
  have "dc = with_templates (DTemplates dc) dc" by simp
  with feed_and_flush_templates [of U c "DTemplates dc" dc] assms
  have "dc' = with_templates (DTemplates dc) dc'" by simp
  then show ?thesis by (metis dec.ext_inject dec.surjective dec.update_convs(1))
qed

section \<open>Decoding frames\<close>

abbreviation never :: "nat \<Rightarrow> bool" where "never \<equiv> \<lambda>_. False"

lemma decode_loop_frame:
  assumes "frame_ok t p" and "handle_frame U t p dc = (None, dc')"
  shows "decode_loop U never k \<lparr>rd_bytes = frame_image t p @ q, rd_end = e\<rparr> dc =
    decode_loop U never (Suc k) \<lparr>rd_bytes = q, rd_end = e\<rparr> dc'"
  using assms by (subst decode_loop.simps) (simp add: read_frame_image)

lemma decode_loop_end:
  "decode_loop U never k \<lparr>rd_bytes = [], rd_end = ErrEOF\<rparr> dc = (None, dc)"
  by (subst decode_loop.simps) (simp add: read_frame_eof)

text \<open>A frame with a meaning is handled by feeding the bytes it means.\<close>

lemma handle_frame_meaning:
  assumes "frame_meaning (DTemplates dc) (t, p) = Some (T', cs)"
    and "feed_all U cs dc = (None, dc')"
  shows "handle_frame U t p dc = (None, with_templates T' dc')"
proof -
  consider (raw) "t = FrameRawData" | (dfn) "t = FrameTemplateDefine" | (ref) "t = FrameTemplateRef"
    using assms(1) by (auto simp: frame_meaning.simps split: if_splits)
  then show ?thesis
  proof cases
    case raw
    with assms have "feed_and_flush U p dc = (None, dc')" "T' = DTemplates dc"
      by (auto simp: frame_meaning.simps)
    with raw feed_keeps_templates show ?thesis
      by (auto simp: handle_frame_def)
  next
    case dfn
    with assms obtain tid a b where "parse_template_define_payload p = Inr (tid, a, b)"
        "T' = (DTemplates dc)(tid \<mapsto> \<lparr>TID = tid, TConstA = a, TConstB = b\<rparr>)" "cs = []"
      by (auto simp: frame_meaning.simps split: sum.splits)
    with assms(2) dfn show ?thesis by (simp add: handle_frame_def add_template_def ok_def)
  next
    case ref
    with assms obtain tid lane tm where p: "parse_template_ref_payload p = Inr (tid, lane)"
        "DTemplates dc tid = Some tm" "T' = DTemplates dc"
      and feed: "feed_and_flush U (TConstA tm @ lane @ TConstB tm) dc = (None, dc')"
      by (auto simp: frame_meaning.simps split: sum.splits)
    from p ref feed have "handle_frame U t p dc = (None, dc')" by (simp add: handle_frame_def)
    with feed_keeps_templates [OF feed] p(3) show ?thesis
      by (metis dec.surjective dec.update_convs(1))
  qed
qed

lemma frame_meaning_inv:
  "expand T (f # fs) = Some (T'', cs) \<Longrightarrow>
     \<exists>T' ds es. frame_meaning T f = Some (T', ds) \<and> expand T' fs = Some (T'', es) \<and> cs = ds @ es"
  by (auto split: option.splits)

lemma decode_frames:
  "frames_ok fs \<Longrightarrow> expand (DTemplates dc) fs = Some (T', cs) \<Longrightarrow> feed_all U cs dc = (None, dc') \<Longrightarrow>
    \<exists>k'. decode_loop U never k \<lparr>rd_bytes = wire_of fs @ q, rd_end = e\<rparr> dc =
      decode_loop U never k' \<lparr>rd_bytes = q, rd_end = e\<rparr> (with_templates T' dc')"
proof (induction fs arbitrary: dc cs k dc')
  case Nil
  then have "with_templates T' dc' = dc" by (auto simp: ok_def)
  then show ?case by auto
next
  case (Cons f fs)
  obtain t p where f: "f = (t, p)" by fastforce
  obtain T ds es where m: "frame_meaning (DTemplates dc) f = Some (T, ds)"
      "expand T fs = Some (T', es)" "cs = ds @ es"
    using frame_meaning_inv [OF Cons.prems(2)] by blast
  from Cons.prems(3) obtain c where c: "feed_all U ds dc = (None, c)" "feed_all U es c = (None, dc')"
    unfolding m(3) feed_all_append by (blast dest: and_then_NoneD)
  have ok: "frame_ok t p" "frames_ok fs" using Cons.prems(1) f by simp_all
  have 1: "handle_frame U t p dc = (None, with_templates T c)"
    by (rule handle_frame_meaning [OF m(1) [unfolded f] c(1)])
  have 2: "feed_all U es (with_templates T c) = (None, with_templates T dc')"
    by (simp add: feed_all_templates c(2))
  have "\<exists>k'. decode_loop U never (Suc k) \<lparr>rd_bytes = wire_of fs @ q, rd_end = e\<rparr>
        (with_templates T c) =
      decode_loop U never k' \<lparr>rd_bytes = q, rd_end = e\<rparr> (with_templates T' (with_templates T dc'))"
    by (rule Cons.IH [OF ok(2) _ 2]) (simp add: m(2))
  then show ?case using decode_loop_frame [OF ok(1) 1] f by simp
qed


section \<open>Delivering a request\<close>

definition idle :: "dec \<Rightarrow> bool" where
  "idle dc \<longleftrightarrow> Req dc = [] \<and> \<not> HeaderDone dc \<and> ContentLen dc = - 1 \<and> BodyHave dc = 0"

definition dest_open :: "dec \<Rightarrow> bool" where
  "dest_open dc \<longleftrightarrow> snk_room (DDest dc) = None"

text \<open>What one write of \<open>text\<close> to the backend leaves behind.\<close>

definition delivered :: "bytes \<Rightarrow> dec \<Rightarrow> dec" where
  "delivered out dc = dc\<lparr>DDest := (DDest dc)\<lparr>snk_bytes := snk_bytes (DDest dc) @ out\<rparr>,
     DWindow := map_option (rw_append out) (DWindow dc)\<rparr>"

text \<open>
  A header that the decoder finds complete exactly at its end, with the length it announces.
\<close>

definition framed :: "unicode \<Rightarrow> bytes \<Rightarrow> nat \<Rightarrow> bool" where
  "framed U hdr n \<longleftrightarrow>
     4 \<le> length hdr \<and> index_sub (CRLF @ CRLF) hdr = Some (length hdr - 4) \<and>
     parse_content_length_from_header_string U hdr = Inr (int n)"

text \<open>The decoder after the first \<open>q\<close> of a request, starting idle from \<open>base\<close>.\<close>

definition progress :: "bytes \<Rightarrow> nat \<Rightarrow> bytes \<Rightarrow> dec \<Rightarrow> dec" where
  "progress hdr n q base = base\<lparr>Req := q, HeaderDone := length hdr \<le> length q,
     ContentLen := (if length hdr \<le> length q then int n else - 1),
     BodyHave := (if length hdr \<le> length q then int (length q - length hdr) else 0)\<rparr>"

lemma progress_start: "idle dc \<Longrightarrow> hdr \<noteq> [] \<Longrightarrow> progress hdr n [] dc = dc"
  by (cases dc) (simp add: idle_def progress_def)

lemma idle_delivered: "idle dc \<Longrightarrow> idle (delivered out dc)"
  and dest_open_delivered: "dest_open dc \<Longrightarrow> dest_open (delivered out dc)"
  by (simp_all add: idle_def delivered_def dest_open_def)

lemma write_out_open:
  assumes "dest_open dc" "out \<noteq> []"
  shows "write_out out dc = (None, delivered out dc)"
  using assms
  by (subst write_out.simps)
    (simp add: dest_open_def delivered_def, subst write_out.simps, simp)

lemma reset_progress: "idle dc \<Longrightarrow> reset_req (delivered out (progress hdr n q dc)) = delivered out dc"
  by (cases dc) (simp add: idle_def progress_def delivered_def reset_req_def)

lemma feed_progress:
  assumes fr: "framed U hdr (length body)" and whole: "hdr @ body = q @ c @ rest"
    and c: "c \<noteq> []" and base: "idle base"
  shows "feed U c (progress hdr (length body) q base) =
    (None, progress hdr (length body) (q @ c) base)"
proof -
  let ?n = "length body" and ?CC = "CRLF @ CRLF"
  have idx: "index_sub ?CC hdr = Some (length hdr - 4)" and h4: "4 \<le> length hdr"
    and cl: "parse_content_length_from_header_string U hdr = Inr (int ?n)"
    using fr by (simp_all add: framed_def)
  have found: "index_sub ?CC p = Some (length hdr - 4) \<and> take (length hdr) p = hdr"
    if "hdr @ body = p @ x" "length hdr \<le> length p" for p x
  proof -
    from that obtain y where y: "p = hdr @ y" by (auto simp: append_eq_append_conv2)
    show ?thesis unfolding y using index_sub_extend [OF idx, of y] by simp
  qed
  have absent: "index_sub ?CC p = None" if "hdr @ body = p @ x" "length p < length hdr" for p x
  proof -
    from that have "p = take (length p) hdr"
      by (metis append_eq_conv_conj less_imp_le_nat take_append take_all_iff append_take_drop_id
          diff_is_0_eq' take0 append_Nil2)
    with index_sub_cut [OF idx, of "length p"] that(2) h4 show ?thesis by simp
  qed
  show ?thesis
  proof (cases "length hdr \<le> length (q @ c)")
    case True
    with whole have f: "index_sub ?CC (q @ c) = Some (length hdr - 4)"
        "take (length hdr - 4 + 4) (q @ c) = hdr"
      using found [of "q @ c" rest] h4 by simp_all
    show ?thesis
      using c True f h4 cl by (simp add: feed_def progress_def Let_def del: take_append)
  next
    case False
    then have "index_sub ?CC (q @ c) = None" using absent [of "q @ c" rest] whole by simp
    moreover have "\<not> length hdr \<le> length q" using False by simp
    ultimately show ?thesis
      using c False by (simp add: feed_def progress_def Let_def)
  qed
qed

lemma flush_progress:
  assumes "hdr @ body = q @ rest" and base: "idle base" "dest_open base" and "hdr \<noteq> []"
  shows "flush_req_if_complete (progress hdr (length body) q base) =
    (None, if rest = [] then delivered q base else progress hdr (length body) q base)"
proof -
  have len: "length hdr + length body = length q + length rest"
    using arg_cong [OF assms(1), of length] by simp
  show ?thesis
  proof (cases "rest = []")
    case True
    with assms len have q: "q \<noteq> []" "length hdr \<le> length q" "length q - length hdr = length body"
      by auto
    have "dest_open (progress hdr (length body) q base)"
      using base(2) by (simp add: progress_def dest_open_def)
    note out = write_out_open [OF this q(1)]
    have "Req (progress hdr (length body) q base) = q"
        "HeaderDone (progress hdr (length body) q base)"
        "ContentLen (progress hdr (length body) q base) = int (length body)"
        "BodyHave (progress hdr (length body) q base) = int (length body)"
      using q(2,3) by (simp_all add: progress_def)
    with out True show ?thesis
      by (simp add: flush_req_if_complete_def reset_progress [OF base(1)])
  next
    case False
    then have "0 < length rest" by simp
    with len have "int (length q) - int (length hdr) < int (length body)" by linarith
    with False show ?thesis by (auto simp: flush_req_if_complete_def progress_def)
  qed
qed

lemma feed_all_idle:
  "idle dc \<Longrightarrow> list_all (\<lambda>c. c = []) cs \<Longrightarrow> feed_all U cs dc = (None, dc)"
  by (induction cs)
    (simp_all add: ok_def feed_and_flush_def and_then_def feed_def flush_req_if_complete_def idle_def)

text \<open>However a request is cut, it is delivered whole, once, with its last byte.\<close>

lemma feed_all_request_from:
  assumes fr: "framed U hdr (length body)" and base: "idle base" "dest_open base"
  shows "hdr @ body = q @ concat cs \<Longrightarrow> concat cs \<noteq> [] \<Longrightarrow>
    feed_all U cs (progress hdr (length body) q base) = (None, delivered (hdr @ body) base)"
proof (induction cs arbitrary: q)
  case Nil
  then show ?case by simp
next
  case (Cons c cs)
  have ne: "hdr \<noteq> []" using fr by (auto simp: framed_def)
  show ?case
  proof (cases "c = []")
    case True
    have "feed_and_flush U c (progress hdr (length body) q base) =
        flush_req_if_complete (progress hdr (length body) q base)"
      by (simp add: True feed_and_flush_def feed_def and_then_def)
    also have "\<dots> = (None, progress hdr (length body) q base)"
      using flush_progress [OF Cons.prems(1) base ne] Cons.prems(2) by (simp only: if_False)
    finally show ?thesis using Cons True by (simp add: and_then_def)
  next
    case False
    have whole: "hdr @ body = (q @ c) @ concat cs" using Cons.prems(1) by simp
    have fed: "feed_and_flush U c (progress hdr (length body) q base) =
        (None, if concat cs = [] then delivered (q @ c) base
               else progress hdr (length body) (q @ c) base)"
      using feed_progress [OF fr _ False base(1), of q "concat cs"] whole
        flush_progress [OF whole base ne]
      by (simp add: feed_and_flush_def and_then_def)
    show ?thesis
    proof (cases "concat cs = []")
      case True
      then have "list_all (\<lambda>c. c = []) cs" by (simp add: list_all_iff)
      with feed_all_idle [OF idle_delivered [OF base(1)]]
      have "feed_all U cs (delivered (q @ c) base) = (None, delivered (q @ c) base)" .
      moreover have "hdr @ body = q @ c" using whole True by simp
      ultimately show ?thesis using fed True by (simp add: and_then_def)
    next
      case False
      with fed have "feed_and_flush U c (progress hdr (length body) q base) =
          (None, progress hdr (length body) (q @ c) base)"
        by (simp only: if_False)
      with Cons.IH [OF whole False] show ?thesis by (simp add: and_then_def)
    qed
  qed
qed

lemma feed_all_request:
  assumes "framed U hdr (length body)" "idle dc" "dest_open dc" "concat cs = hdr @ body"
  shows "feed_all U cs dc = (None, delivered (hdr @ body) dc)"
proof -
  have "hdr \<noteq> []" using assms(1) by (auto simp: framed_def)
  with feed_all_request_from [OF assms(1-3), of "[]" cs] progress_start [OF assms(2)] assms(4)
  show ?thesis by simp
qed

end
