(* ===== verification/Codec_Correct.thy ===== *)
theory Codec_Correct
  imports Encoder_Discipline Decoder_Correct
begin

text \<open>
  Both lanes together: a session that the encoder has finished decodes to the exact
  sequence of normalised requests, provided the 16-bit template ids tell its patterns apart.
\<close>

section \<open>Normalised headers\<close>

definition keeps_line :: "unicode \<Rightarrow> bytes \<Rightarrow> bool" where
  "keeps_line U line \<longleftrightarrow>
     \<not> has_prefix (to_lower U line) (str ''transfer-encoding:'') \<and>
     \<not> has_prefix (to_lower U line) (str ''content-length:'')"

definition length_line :: "nat \<Rightarrow> bytes" where
  "length_line n = str ''Content-Length: '' @ decimal n"

lemma takeWhile_nonempty_lines:
  "list_all (\<lambda>l. l \<noteq> [] \<and> Q l) ls \<Longrightarrow> takeWhile (\<lambda>l. l \<noteq> []) (ls @ [] # rest) = ls"
  by (induction ls) auto

lemma split_header_block:
  assumes "list_all (\<lambda>l. l \<noteq> [] \<and> 10 \<notin> set l) ls"
  shows "split_on CRLF (header_block ls) = ls @ [[], []]"
proof -
  have "crlf_free l" if "l \<in> set ls" for l
    using assms that by (auto simp: list_all_iff intro: newline_free_crlf_free)
  then have "split_on CRLF (header_block ls) = ls @ split_on CRLF CRLF"
    unfolding header_block_def by (rule split_crlf_lines)
  also have "split_on CRLF CRLF = [[], []]"
    using split_crlf [of "[]" "[]"] by simp
  finally show ?thesis .
qed

lemma normalize_block:
  assumes "header_lines_ok (l # ls)"
  shows "normalize_http_headers U (header_block (l # ls)) (int n) =
    header_block (l # filter (keeps_line U) ls @ [length_line n])"
proof -
  have ok: "list_all (\<lambda>l. l \<noteq> [] \<and> 10 \<notin> set l) (l # ls)"
    using assms by (simp add: header_lines_ok_def)
  have "takeWhile (\<lambda>l. l \<noteq> []) (ls @ [[], []]) = ls"
    using takeWhile_nonempty_lines [of "\<lambda>l. 10 \<notin> set l" ls "[[]]"] ok by simp
  moreover have "split_on CRLF (header_block (l # ls)) = l # ls @ [[], []]"
    using split_header_block [OF ok] by simp
  ultimately show ?thesis
    unfolding normalize_http_headers_def Let_def
    by (simp add: keeps_line_def [abs_def] header_block_def length_line_def itoa_def)
qed

subsection \<open>The end of a header\<close>

lemma newline_free_no_end:
  assumes "10 \<notin> set l" "\<not> has_prefix t CRLF"
  shows "index_sub (CRLF @ CRLF) (l @ CRLF @ t) =
    map_option (\<lambda>k. length l + 2 + k) (index_sub (CRLF @ CRLF) t)"
  using assms(1)
proof (induction l)
  case Nil
  have "\<not> has_prefix (13 # 10 # t) (CRLF @ CRLF)"
    using assms(2) by (auto simp: CRLF_def has_prefix_def)
  moreover have "\<not> has_prefix (10 # t) (CRLF @ CRLF)" by (simp add: CRLF_def has_prefix_def)
  ultimately show ?case
    by (cases "index_sub (CRLF @ CRLF) t") (simp_all add: CRLF_def)
next
  case (Cons x xs)
  have "\<not> has_prefix (x # xs @ CRLF @ t) (CRLF @ CRLF)"
    using Cons.prems by (cases xs) (auto simp: CRLF_def has_prefix_def)
  with Cons show ?case
    by (cases "index_sub (CRLF @ CRLF) t") simp_all
qed

lemma header_block_end:
  "header_lines_ok ls \<Longrightarrow>
     index_sub (CRLF @ CRLF) (header_block ls) = Some (length (header_block ls) - 4) \<and>
     4 \<le> length (header_block ls)"
proof (induction ls)
  case Nil
  then show ?case by (simp add: header_lines_ok_def)
next
  case (Cons l ls)
  show ?case
  proof (cases ls)
    case Nil
    have nl: "10 \<notin> set l" using Cons.prems by (simp add: header_lines_ok_def)
    have "index_sub (CRLF @ CRLF) (l @ CRLF @ CRLF) = Some (length l)"
      using nl
    proof (induction l)
      case Nil
      then show ?case by (simp add: CRLF_def has_prefix_def)
    next
      case (Cons x xs)
      then have "\<not> has_prefix (x # xs @ CRLF @ CRLF) (CRLF @ CRLF)"
        by (cases xs) (auto simp: CRLF_def has_prefix_def)
      with Cons show ?case by simp
    qed
    with Nil show ?thesis by (simp add: header_block_def)
  next
    case (Cons l' ls')
    with \<open>header_lines_ok (l # ls)\<close> have ok: "header_lines_ok ls" "10 \<notin> set l" "l' \<noteq> []" "10 \<notin> set l'"
      by (simp_all add: header_lines_ok_def)
    have "\<not> has_prefix (header_block ls) CRLF"
      using ok(3,4) unfolding Cons has_prefix_CRLF header_block_def
      by (cases l'; cases "tl l'") (auto simp: CRLF_def)
    from newline_free_no_end [OF ok(2) this] Cons.IH [OF ok(1)]
    show ?thesis by (auto simp: header_block_def)
  qed
qed

lemma length_line_facts:
  "length_line n \<noteq> []" "10 \<notin> set (length_line n)"
proof -
  have "list_all is_digit (decimal n)" by (rule format_uint_digits) simp_all
  then show "length_line n \<noteq> []" "10 \<notin> set (length_line n)"
    by (auto simp: length_line_def str_def list_all_iff dest: digit_facts)
qed

lemma content_length_skip:
  "list_all (\<lambda>l. \<not> has_prefix (to_lower U l) (str ''content-length:'')) ls \<Longrightarrow>
     content_length_of_lines U (ls @ rest) = content_length_of_lines U rest"
  by (induction ls) (simp_all add: Let_def)

lemma content_length_line:
  assumes "n < 2 ^ 63"
  shows "content_length_of_lines U (length_line n # rest) = Inr (int n)"
proof -
  have dig: "list_all is_digit (decimal n)" by (rule format_uint_digits) simp_all
  then have "list_all ascii (decimal n)" by (auto simp: list_all_iff dest: digit_facts(1))
  then have asc: "list_all ascii (length_line n)"
    by (simp add: length_line_def str_def) (simp add: ascii_def)
  have low: "to_lower U (length_line n) = map lower_byte (length_line n)"
    by (rule to_lower_ascii [OF asc])
  have pre: "has_prefix (to_lower U (length_line n)) (str ''content-length:'')"
    unfolding low by (simp add: length_line_def has_prefix_def str_def lower_byte_def)
  have "drop (length ''content-length:'') (length_line n) = [32] @ decimal n"
    by (simp add: length_line_def str_def)
  moreover have "trim_space U ([32] @ decimal n) = decimal n"
    using trim_space_digits [of "decimal n" "[32]" "[]" U] dig by (simp add: ascii_space_def)
  moreover have "atoi (decimal n) = Some (int n)"
    using assms by (simp add: atoi_def parse_int_format_uint)
  moreover have "\<not> length (length_line n) < length ''content-length:''"
    by (simp add: length_line_def str_def)
  ultimately show ?thesis using pre by (simp add: Let_def)
qed

text \<open>
  The request line of an HTTP request does not look like a Content-Length header (the
  decoder would take it for one).
\<close>

definition plain_request_line :: "unicode \<Rightarrow> bytes \<Rightarrow> bool" where
  "plain_request_line U hdr \<longleftrightarrow>
     \<not> has_prefix (to_lower U (hd (split_on CRLF hdr))) (str ''content-length:'')"

lemma normalized_framed:
  assumes ok: "header_lines_ok ls" and n: "n < 2 ^ 63"
    and h: "h = normalize_http_headers U (header_block ls) (int n)"
    and plain: "plain_request_line U h"
  shows "framed U h n"
proof -
  obtain l ls' where ls: "ls = l # ls'" using ok by (cases ls) (auto simp: header_lines_ok_def)
  let ?out = "l # filter (keeps_line U) ls' @ [length_line n]"
  have hb: "h = header_block ?out" using normalize_block ok unfolding h ls by simp
  have ok': "header_lines_ok ?out"
    using ok length_line_facts [of n] unfolding ls header_lines_ok_def by (auto simp: list_all_iff)
  then have split: "split_on CRLF h = ?out @ [[], []]"
    unfolding hb by (intro split_header_block) (simp add: header_lines_ok_def)
  have "list_all (\<lambda>l. \<not> has_prefix (to_lower U l) (str ''content-length:''))
      (l # filter (keeps_line U) ls')"
    using plain by (auto simp: plain_request_line_def split list_all_iff keeps_line_def)
  from content_length_skip [OF this, of "length_line n # [[], []]"] content_length_line [OF n]
  have "parse_content_length_from_header_string U h = Inr (int n)"
    by (simp add: parse_content_length_from_header_string_def split)
  with header_block_end [OF ok'] show ?thesis by (simp add: framed_def hb)
qed


lemma request_framed:
  assumes "read_http_request_body U r maxHeaderBytes maxBodyBytes = Inr (meta, body, r')"
    and "plain_request_line U (normalize_http_headers U (HeaderBytes meta) (int (length body)))"
  shows "framed U (normalize_http_headers U (HeaderBytes meta) (int (length body))) (length body)"
proof -
  from read_http_InrD [OF assms(1) maxBodyBytes_bounds] obtain ls where
    ls: "HeaderBytes meta = header_block ls" "header_lines_ok ls" "int (length body) \<le> maxBodyBytes"
    by blast
  have "length body < 2 ^ 63" using ls(3) by (simp add: maxBodyBytes_def)
  from normalized_framed [OF ls(2) this _ assms(2)] ls(1) show ?thesis by simp
qed

section \<open>Sessions\<close>

text \<open>
  The specification of a session: the normalised header and the dechunked body of every
  request on the client's stream, in order, up to the first thing that is not a request.
\<close>

function requests :: "unicode \<Rightarrow> reader \<Rightarrow> (bytes \<times> bytes) list" where
  "requests U r =
     (case read_http_request_body U r maxHeaderBytes maxBodyBytes of
        Inl _ \<Rightarrow> []
      | Inr (meta, body, r') \<Rightarrow>
          (normalize_http_headers U (HeaderBytes meta) (int (length body)), body) # requests U r')"
  by pat_completeness auto
termination
  by (relation "measure (\<lambda>(U, r). length (rd_bytes r))")
    (auto dest: read_http_shorter [OF _ maxBodyBytes_bounds])

declare requests.simps [simp del]

definition truth_stream :: "(bytes \<times> bytes) list \<Rightarrow> bytes" where
  "truth_stream rs = concat (map (\<lambda>(hdr, body). hdr @ body) rs)"

definition request_patterns :: "bytes \<times> bytes \<Rightarrow> pattern set" where
  "request_patterns = (\<lambda>(hdr, body).
     piece_patterns (header_pieces hdr) \<union> piece_patterns (body_pieces body))"

definition session_patterns :: "(bytes \<times> bytes) list \<Rightarrow> pattern set" where
  "session_patterns rs = (\<Union>r \<in> set rs. request_patterns r)"

subsection \<open>One request\<close>

lemma step_means_cong:
  "sent c = sent cc \<Longrightarrow> Templates c = Templates cc \<Longrightarrow> SpanStats c = SpanStats cc \<Longrightarrow>
     step_means P c d x = step_means P cc d x \<and> defined_ok P c = defined_ok P cc"
  by (simp add: step_means_def defined_ok_def)

lemma encode_request_means:
  assumes run: "encode_request E meta body st = (None, st')"
    and P: "unambiguous P"
    and hdr: "hdr = normalize_http_headers (tables E) (HeaderBytes meta) (int (length body))"
    and pats: "request_patterns (hdr, body) \<subseteq> P"
    and inv: "defined_ok P (Enc st)"
  shows "defined_ok P (Enc st') \<and> step_means P (Enc st) (Enc st') (hdr @ body)"
proof -
  let ?off = "TruthOffset st + of_nat (length hdr)"
  have h: "emits P (encode_header_lines hdr) hdr"
    and b: "emits P (and_then (count_raw_in (length body)) (encode_body_as_lines body ?off)) body"
    using P pats
    by (auto simp: request_patterns_def intro!: emits_header emits_body emits_silent_then)
  from run obtain c where c: "encode_header_lines hdr (Enc st) = (None, c)"
    and rest: "if length body > 0
      then and_then (count_raw_in (length body)) (encode_body_as_lines body ?off)
             (c\<lparr>Obs := Some []\<rparr>) = (None, Enc st')
      else Enc st' = c"
    unfolding encode_request_def Let_def hdr [symmetric]
    by (auto split: prod.splits option.splits if_splits)
  from emitsD [OF h inv c] have 1: "defined_ok P c" "step_means P (Enc st) c hdr" by simp_all
  show ?thesis
  proof (cases "body = []")
    case True
    with rest 1 show ?thesis by simp
  next
    case False
    let ?c = "c\<lparr>Obs := Some []\<rparr>"
    note same = step_means_cong [of ?c c P]
    have "defined_ok P ?c" using same 1(1) by (simp add: sent_def)
    from emitsD [OF b this] rest False same
    have "defined_ok P (Enc st')" "step_means P c (Enc st') body" by (simp_all add: sent_def)
    with step_means_trans [OF 1(2)] show ?thesis by simp
  qed
qed

fun deliver_all :: "bytes list \<Rightarrow> dec \<Rightarrow> dec" where
  "deliver_all [] dc = dc"
| "deliver_all (x # xs) dc = deliver_all xs (delivered x dc)"

lemma deliver_all_facts:
  "DTemplates (deliver_all xs dc) = DTemplates dc"
  "snk_bytes (DDest (deliver_all xs dc)) = snk_bytes (DDest dc) @ concat xs"
  "DWindow (deliver_all xs dc) = map_option (\<lambda>w. fold rw_append xs w) (DWindow dc)"
  by (induction xs arbitrary: dc)
    (simp_all add: delivered_def option.map_comp comp_def option.map_ident id_def)

subsection \<open>The whole session\<close>

lemma session_frames:
  "encode_loop E k r st = (None, st') \<Longrightarrow> unambiguous P \<Longrightarrow>
    session_patterns (requests (tables E) r) \<subseteq> P \<Longrightarrow>
    list_all (\<lambda>(hdr, body). plain_request_line (tables E) hdr) (requests (tables E) r) \<Longrightarrow>
    defined_ok P (Enc st) \<Longrightarrow>
    \<exists>fs cs. sent (Enc st') = sent (Enc st) @ wire_of fs \<and> frames_ok fs \<and>
      list_all (defines_from P) fs \<and>
      expand (Templates (Enc st)) fs = Some (Templates (Enc st'), cs) \<and>
      (\<forall>dc. idle dc \<longrightarrow> dest_open dc \<longrightarrow> feed_all (tables E) cs dc =
        (None, deliver_all (map (\<lambda>(hdr, body). hdr @ body) (requests (tables E) r)) dc))"
proof (induction E k r st rule: encode_loop.induct)
  case (1 E k r st)
  let ?U = "tables E"
  have go: "\<not> ctx_done E k" using "1.prems"(1) by (subst (asm) encode_loop.simps) (auto split: if_splits)
  show ?case
  proof (cases "read_http_request_body ?U r maxHeaderBytes maxBodyBytes")
    case (Inl err)
    with "1.prems"(1) go have "st' = st"
      by (subst (asm) encode_loop.simps) (auto split: if_splits)
    moreover have "requests ?U r = []" using Inl by (subst requests.simps) simp
    ultimately show ?thesis by (intro exI [of _ "[]"]) (simp add: ok_def)
  next
    case (Inr x)
    obtain meta body r' where x: "x = (meta, body, r')" by (metis prod_cases3)
    note read = Inr [unfolded x]
    let ?hdr = "normalize_http_headers ?U (HeaderBytes meta) (int (length body))"
    have rs: "requests ?U r = (?hdr, body) # requests ?U r'"
      using read by (subst requests.simps) simp
    obtain st1 where enc: "encode_request E meta body st = (None, st1)"
      and loop: "encode_loop E (Suc k) r' st1 = (None, st')"
      using "1.prems"(1) go read
      by (subst (asm) encode_loop.simps) (auto split: prod.splits option.splits)
    have pats: "request_patterns (?hdr, body) \<subseteq> P" "session_patterns (requests ?U r') \<subseteq> P"
      using "1.prems"(3) by (auto simp: rs session_patterns_def)
    have plain: "plain_request_line ?U ?hdr"
        "list_all (\<lambda>(hdr, body). plain_request_line ?U hdr) (requests ?U r')"
      using "1.prems"(4) by (simp_all add: rs)
    from encode_request_means [OF enc "1.prems"(2) refl pats(1) "1.prems"(5)]
    obtain fs cs where ok: "defined_ok P (Enc st1)" "frames_ok fs" "list_all (defines_from P) fs"
      and w1: "sent (Enc st1) = sent (Enc st) @ wire_of fs"
      and ex: "expand (Templates (Enc st)) fs = Some (Templates (Enc st1), cs)" "concat cs = ?hdr @ body"
      by (auto simp: step_means_def)
    from request_framed [OF read plain(1)] have fr: "framed ?U ?hdr (length body)" .
    from "1.IH" [OF go read refl refl enc [symmetric] refl loop "1.prems"(2) pats(2) plain(2) ok(1)]
    obtain gs ds where rest: "sent (Enc st') = sent (Enc st1) @ wire_of gs" "frames_ok gs"
      "list_all (defines_from P) gs" "expand (Templates (Enc st1)) gs = Some (Templates (Enc st'), ds)"
      and feed: "\<And>dc. idle dc \<Longrightarrow> dest_open dc \<Longrightarrow> feed_all ?U ds dc =
        (None, deliver_all (map (\<lambda>(hdr, body). hdr @ body) (requests ?U r')) dc)"
      by blast
    have "feed_all ?U (cs @ ds) dc =
        (None, deliver_all (map (\<lambda>(hdr, body). hdr @ body) (requests ?U r)) dc)"
      if "idle dc" "dest_open dc" for dc
      using feed_all_request [OF fr that ex(2)]
        feed [OF idle_delivered [OF that(1)] dest_open_delivered [OF that(2)]]
      by (simp add: feed_all_append and_then_def rs)
    with w1 ok(2,3) rest expand_append [OF ex(1) rest(4)] show ?thesis
      by (intro exI [of _ "fs @ gs"] exI [of _ "cs @ ds"]) simp
  qed
qed

lemma session_decodes:
  assumes loop: "encode_loop E k r st = (None, st')" and P: "unambiguous P"
    and pats: "session_patterns (requests (tables E) r) \<subseteq> P"
    and plain: "list_all (\<lambda>(hdr, body). plain_request_line (tables E) hdr) (requests (tables E) r)"
    and inv: "defined_ok P (Enc st)" and fresh: "sent (Enc st) = []"
    and dc: "idle dc" "dest_open dc" "DTemplates dc = Templates (Enc st)"
  shows "decode_loop (tables E) never 0 \<lparr>rd_bytes = sent (Enc st'), rd_end = ErrEOF\<rparr> dc =
    (None, with_templates (Templates (Enc st'))
      (deliver_all (map (\<lambda>(hdr, body). hdr @ body) (requests (tables E) r)) dc))"
proof -
  from session_frames [OF loop P pats plain inv] obtain fs cs where
    w: "sent (Enc st') = wire_of fs" "frames_ok fs"
      "expand (DTemplates dc) fs = Some (Templates (Enc st'), cs)"
    and feed: "feed_all (tables E) cs dc =
      (None, deliver_all (map (\<lambda>(hdr, body). hdr @ body) (requests (tables E) r)) dc)"
    unfolding fresh append_Nil dc(3) using dc(1,2) by blast
  from decode_frames [OF w(2,3) feed, of 0 "[]" ErrEOF] show ?thesis
    unfolding w(1) append_Nil2 decode_loop_end by blast
qed

section \<open>The encoder returns what the reader returns\<close>

text \<open>What ends the stream of requests; a clean end of file is no error.\<close>

function stream_error :: "unicode \<Rightarrow> reader \<Rightarrow> go_error option" where
  "stream_error U r =
     (case read_http_request_body U r maxHeaderBytes maxBodyBytes of
        Inl err \<Rightarrow> if err = ErrEOF then None else Some err
      | Inr (meta, body, r') \<Rightarrow> stream_error U r')"
  by pat_completeness auto
termination
  by (relation "measure (\<lambda>(U, r). length (rd_bytes r))")
    (auto dest: read_http_shorter [OF _ maxBodyBytes_bounds])

declare stream_error.simps [simp del]

lemma normalized_length:
  assumes "header_lines_ok ls" "n < 2 ^ 63"
  shows "length (normalize_http_headers U (header_block ls) (int n)) \<le>
    length (header_block ls) + 38"
proof -
  obtain l ls' where ls: "ls = l # ls'" using assms(1) by (cases ls) (auto simp: header_lines_ok_def)
  have "length (concat (map (\<lambda>l. l @ CRLF) (filter P xs))) \<le> length (concat (map (\<lambda>l. l @ CRLF) xs))"
    for P and xs :: "bytes list"
    by (induction xs) auto
  from this [of "keeps_line U" ls']
  have "length (concat (map (\<lambda>l. l @ CRLF) (filter (keeps_line U) ls'))) \<le>
      length (concat (map (\<lambda>l. l @ CRLF) ls'))" .
  moreover have "length (decimal n) \<le> 20"
  proof (rule length_format_uint)
    have "n < 9223372036854775808" using assms(2) by simp
    then show "n < 10 ^ 20" by simp
  qed simp_all
  moreover have "length (str ''Content-Length: '') = 16" by (simp add: str_def)
  ultimately show ?thesis
    using normalize_block [of l ls' U n] assms(1)
    by (simp add: ls header_block_def length_line_def del: length_map length_concat)
qed

lemma encode_request_succeeds:
  assumes ok: "header_lines_ok ls" "HeaderBytes meta = header_block ls"
    and le: "int (length (HeaderBytes meta)) \<le> maxHeaderBytes" "int (length body) \<le> maxBodyBytes"
    and open_st: "out_open (Enc st)"
  shows "\<exists>st'. encode_request E meta body st = (None, st') \<and> out_open (Enc st')"
proof -
  let ?hdr = "normalize_http_headers (tables E) (HeaderBytes meta) (int (length body))"
  let ?off = "TruthOffset st + of_nat (length ?hdr)"
  have n: "length body \<le> 16777216" "length (HeaderBytes meta) \<le> 65536"
    using le by (simp_all add: maxBodyBytes_def maxHeaderBytes_def)
  then have "length body < 2 ^ 63" by simp
  from normalized_length [OF ok(1) this, of "tables E"] n(2)
  have "length ?hdr \<le> 65536 + 38" unfolding ok(2) by linarith
  then have "length (join_with CRLF (split_on CRLF ?hdr)) \<le> MaxFramePayloadBytes"
    by (simp add: MaxFramePayloadBytes_def)
  then have h: "succeeds (encode_header_lines ?hdr)"
    unfolding encode_header_lines_def by (rule succeeds_header_lines)
  have "length body \<le> MaxFramePayloadBytes" using n(1) by (simp add: MaxFramePayloadBytes_def)
  then have b: "succeeds (and_then (count_raw_in (length body)) (encode_body_as_lines body ?off))"
    unfolding encode_body_as_lines_def by (intro succeeds_and_then succeeds_body_from) simp_all
  obtain c where c: "encode_header_lines ?hdr (Enc st) = (None, c)" "out_open c"
    using h open_st by (auto simp: succeeds_def)
  then have "out_open (c\<lparr>Obs := Some []\<rparr>)" by (simp add: out_open_def)
  then obtain d where d: "and_then (count_raw_in (length body)) (encode_body_as_lines body ?off)
      (c\<lparr>Obs := Some []\<rparr>) = (None, d)" "out_open d"
    using b by (auto simp: succeeds_def)
  show ?thesis
    using c d by (cases "body = []") (simp_all add: encode_request_def Let_def)
qed

lemma request_encodes:
  assumes "read_http_request_body (tables E) r maxHeaderBytes maxBodyBytes = Inr (meta, body, r')"
    and "out_open (Enc st)"
  shows "\<exists>st'. encode_request E meta body st = (None, st') \<and> out_open (Enc st')"
proof -
  from read_http_InrD [OF assms(1) maxBodyBytes_bounds] obtain ls where
    "HeaderBytes meta = header_block ls" "header_lines_ok ls" "int (length body) \<le> maxBodyBytes"
    "int (length (HeaderBytes meta)) \<le> maxHeaderBytes"
    by blast
  with encode_request_succeeds [of ls meta body st E] assms(2) show ?thesis by blast
qed

lemma encode_loop_error:
  "\<forall>k. \<not> ctx_done E k \<Longrightarrow> out_open (Enc st) \<Longrightarrow>
     fst (encode_loop E k r st) = stream_error (tables E) r"
proof (induction E k r st rule: encode_loop.induct)
  case (1 E k r st)
  let ?U = "tables E"
  show ?case
  proof (cases "read_http_request_body ?U r maxHeaderBytes maxBodyBytes")
    case (Inl err)
    then show ?thesis
      using "1.prems"(1) by (subst encode_loop.simps, subst stream_error.simps) simp
  next
    case (Inr x)
    obtain meta body r' where x: "x = (meta, body, r')" by (metis prod_cases3)
    note read = Inr [unfolded x]
    from request_encodes [OF read "1.prems"(2)] obtain st1 where
      enc: "encode_request E meta body st = (None, st1)" "out_open (Enc st1)"
      by blast
    have "fst (encode_loop E (Suc k) r' st1) = stream_error ?U r'"
      using "1.IH" [OF _ read refl refl enc(1) [symmetric] refl "1.prems"(1) enc(2)] "1.prems"(1)
      by blast
    moreover have "encode_loop E k r st = encode_loop E (Suc k) r' st1"
      using "1.prems"(1) read enc(1) by (subst encode_loop.simps) simp
    moreover have "stream_error ?U r = stream_error ?U r'"
      using read by (subst stream_error.simps) simp
    ultimately show ?thesis by simp
  qed
qed


section \<open>Properties\<close>

abbreviation fresh_sink :: sink where
  "fresh_sink \<equiv> \<lparr>snk_bytes = [], snk_room = None\<rparr>"

text \<open>
  C14: The encoder lane is total and transparent to errors: as long as the connection to the
  decoder takes every byte and the context is not cancelled, no input makes the encoder fail
  by itself; it processes every request and returns exactly the error (or clean end) that
  ended the stream of requests.
\<close>

theorem encoder_returns_stream_error:
  assumes "\<forall>k. \<not> ctx_done E k"
  shows "fst (run_encode_template_v1 E (Some fresh_sink) d stats window r) =
    stream_error (tables E) r"
  unfolding run_encode_template_v1_def
  by (rule encode_loop_error [OF assms]) (simp add: out_open_def)

theorem encoder_returns_stream_error_witness:
  "fst (run_encode_template_v1
     \<lparr>ctx_done = \<lambda>_. False, tables = \<lparr>uni_lower = id, uni_trim = id, uni_trim_right = id\<rparr>,
      sort_slice = \<lambda>_ xs. xs, range_order = \<lambda>_ xs. xs\<rparr>
     (Some fresh_sink) None new_conn_stats None \<lparr>rd_bytes = str ''PUT'', rd_end = ErrConn\<rparr>) =
   Some ErrConn"
  by (subst encoder_returns_stream_error) (simp_all add: stream_error.simps http_eval)

text \<open>Both ends of a session.\<close>

lemma session_both_ends:
  assumes run: "\<forall>k. \<not> ctx_done E k" "stream_error (tables E) r = None"
    and P: "unambiguous (session_patterns (requests (tables E) r))"
    and plain: "list_all (\<lambda>(hdr, body). plain_request_line (tables E) hdr) (requests (tables E) r)"
    and dst: "snk_room dst = None"
  shows "\<exists>st dc. run_encode_template_v1 E (Some fresh_sink) None stats window r = (None, st) \<and>
    run_decode_template_v1 (tables E) (\<lambda>_. False) None epoch dst dwindow
      \<lparr>rd_bytes = sent (Enc st), rd_end = ErrEOF\<rparr> = (None, dc) \<and>
    snk_bytes (DDest dc) = snk_bytes dst @ truth_stream (requests (tables E) r) \<and>
    DTemplates dc = Templates (Enc st)"
proof -
  let ?run = "run_encode_template_v1 E (Some fresh_sink) None stats window r"
  have "fst ?run = None"
    using encode_loop_error [OF run(1)] run(2)
    by (simp add: run_encode_template_v1_def out_open_def)
  then obtain st where st: "?run = (None, st)" by (cases ?run) simp
  note loop = st [unfolded run_encode_template_v1_def]
  let ?dc = "new_dec None epoch dst dwindow"
  let ?texts = "map (\<lambda>(hdr, body). hdr @ body) (requests (tables E) r)"
  have start: "idle ?dc" "dest_open ?dc" "DTemplates ?dc = Map.empty"
    using dst by (simp_all add: idle_def dest_open_def new_dec_def new_dict_def)
  have "decode_loop (tables E) never 0 \<lparr>rd_bytes = sent (Enc st), rd_end = ErrEOF\<rparr> ?dc =
      (None, with_templates (Templates (Enc st)) (deliver_all ?texts ?dc))"
    by (rule session_decodes [OF loop P order_refl plain])
      (use start in \<open>simp_all add: defined_ok_def sent_def new_dict_def\<close>)
  then show ?thesis
    using st by (auto simp: run_decode_template_v1_def deliver_all_facts truth_stream_def new_dec_def)
qed

text \<open>
  C1: Byte-exact reconstruction. The client's stream ends cleanly, the link takes every
  byte, the template ids tell the patterns of the session apart and the constants fit their
  length fields. Then the encoder finishes without an error, and a decoder that reads what
  it sent finishes without an error too, has written to the backend exactly the normalised
  header and dechunked body of every request in order, and holds the templates the encoder
  holds.
\<close>

theorem session_roundtrip:
  assumes run: "\<forall>k. \<not> ctx_done E k" "stream_error (tables E) r = None"
    and P: "unambiguous (session_patterns (requests (tables E) r))"
    and plain: "list_all (\<lambda>(hdr, body). plain_request_line (tables E) hdr) (requests (tables E) r)"
    and dst: "snk_room dst = None"
  shows "\<exists>st dc. run_encode_template_v1 E (Some fresh_sink) None stats window r = (None, st) \<and>
    run_decode_template_v1 (tables E) (\<lambda>_. False) None epoch dst dwindow
      \<lparr>rd_bytes = sent (Enc st), rd_end = ErrEOF\<rparr> = (None, dc) \<and>
    snk_bytes (DDest dc) = snk_bytes dst @ truth_stream (requests (tables E) r) \<and>
    DTemplates dc = Templates (Enc st)"
  using assms by (rule session_both_ends)

text \<open>
  Bodies are counted twice. When a request is encoded without an error and its body ends
  with a newline, \<^verbatim>\<open>rawIn\<close> grows by the header once and by the body twice: the request loop
  adds the whole body and the line loop adds every line of it again.
\<close>

theorem body_counted_twice:
  assumes "encode_request E meta body st = (None, st')"
    and "body \<noteq> []" "last body = 10"
  shows "rawIn (CStats (Enc st')) = rawIn (CStats (Enc st)) +
    of_nat (length (normalize_http_headers (tables E) (HeaderBytes meta) (int (length body)))
      + 2 * length body)"
proof -
  let ?hdr = "normalize_http_headers (tables E) (HeaderBytes meta) (int (length body))"
  let ?off = "TruthOffset st + of_nat (length ?hdr)"
  have h: "counts (encode_header_lines ?hdr) (length ?hdr)"
    using counts_lines [of "split_on CRLF ?hdr"] by (simp add: encode_header_lines_def)
  have b: "counts (and_then (count_raw_in (length body)) (encode_body_as_lines body ?off))
      (length body + length body)"
    unfolding encode_body_as_lines_def
    by (intro counts_then counts_raw_in counts_body_from) (use assms(3) in simp_all)
  obtain c where c: "encode_header_lines ?hdr (Enc st) = (None, c)"
    and d: "and_then (count_raw_in (length body)) (encode_body_as_lines body ?off)
      (c\<lparr>Obs := Some []\<rparr>) = (None, Enc st')"
    using assms(1,2) unfolding encode_request_def Let_def
    by (auto split: prod.splits option.splits if_splits)
  from h c have "rawIn (CStats c) = rawIn (CStats (Enc st)) + of_nat (length ?hdr)"
    unfolding counts_def by blast
  moreover from b d have "rawIn (CStats (Enc st')) = rawIn (CStats (c\<lparr>Obs := Some []\<rparr>)) +
      of_nat (length body + length body)"
    unfolding counts_def by blast
  ultimately show ?thesis by (simp add: algebra_simps)
qed


subsection \<open>A concrete session\<close>

definition sample_env :: go_env where
  "sample_env = \<lparr>ctx_done = \<lambda>_. False,
     tables = \<lparr>uni_lower = id, uni_trim = id, uni_trim_right = id\<rparr>,
     sort_slice = \<lambda>_ xs. xs, range_order = \<lambda>_ xs. xs\<rparr>"

definition sample_reader :: reader where
  "sample_reader = \<lparr>rd_bytes = header_block [str ''PUT /w H'', str ''Content-Length: 8''] @
     str ''m a=1 2'' @ [10], rd_end = ErrEOF\<rparr>"

lemma sample_read:
  "read_http_request_body (tables sample_env) sample_reader maxHeaderBytes maxBodyBytes =
     Inr (\<lparr>Method = str ''PUT'', Path = str ''/w'', Proto = str ''H'', TransferChunked = False,
       ContentLength = 8, HeaderBytes = header_block [str ''PUT /w H'', str ''Content-Length: 8'']\<rparr>,
       str ''m a=1 2'' @ [10], \<lparr>rd_bytes = [], rd_end = ErrEOF\<rparr>)"
  by (simp add: sample_env_def sample_reader_def maxHeaderBytes_def maxBodyBytes_def http_eval
      header_block_def)

lemma sample_read_end:
  "read_http_request_body (tables sample_env) \<lparr>rd_bytes = [], rd_end = ErrEOF\<rparr> maxHeaderBytes maxBodyBytes =
     Inl ErrEOF"
  by (simp add: http_eval)

lemma sample_normalized:
  "normalize_http_headers (tables sample_env)
     (header_block [str ''PUT /w H'', str ''Content-Length: 8'']) 8 =
   header_block [str ''PUT /w H'', str ''Content-Length: 8'']"
proof -
  have "header_lines_ok [str ''PUT /w H'', str ''Content-Length: 8'']"
    by (simp add: header_lines_ok_def str_def)
  from normalize_block [OF this, of "tables sample_env" 8] show ?thesis
    by (simp add: keeps_line_def sample_env_def to_lower_def has_prefix_def str_def ascii_def
        lower_byte_def length_line_def format_uint.simps digit_char_def)
qed

lemma sample_requests:
  "requests (tables sample_env) sample_reader =
     [(header_block [str ''PUT /w H'', str ''Content-Length: 8''], str ''m a=1 2'' @ [10])]"
proof -
  have "requests (tables sample_env) \<lparr>rd_bytes = [], rd_end = ErrEOF\<rparr> = []"
    by (subst requests.simps) (simp add: sample_read_end)
  moreover have "int (length (str ''m a=1 2'' @ [10])) = 8" by (simp add: str_def)
  ultimately show ?thesis
    by (subst requests.simps) (simp add: sample_read sample_normalized)
qed

lemma sample_stream_error: "stream_error (tables sample_env) sample_reader = None"
proof -
  have "stream_error (tables sample_env) \<lparr>rd_bytes = [], rd_end = ErrEOF\<rparr> = None"
    by (subst stream_error.simps) (simp add: sample_read_end)
  then show ?thesis by (subst stream_error.simps) (simp add: sample_read)
qed

lemma sample_patterns:
  "session_patterns (requests (tables sample_env) sample_reader) =
     {(str ''Content-Length: '', CRLF), (str ''m a='', [32])}"
proof -
  have h: "split_on CRLF (header_block [str ''PUT /w H'', str ''Content-Length: 8'']) =
      [str ''PUT /w H'', str ''Content-Length: 8'', [], []]"
    by (rule split_header_block [of "[str ''PUT /w H'', str ''Content-Length: 8'']", simplified])
      (simp add: str_def)
  have b: "newline_lines (str ''m a=1 2'' @ [10]) = [str ''m a=1 2'' @ [10]]"
    by (simp add: newline_lines.simps str_def)
  have k: "line_pieces (str ''m a=1 2'' @ [10]) = [Seg (str ''m a='') (str ''1'') [32], Plain [50, 10]]"
    by (simp add: line_pieces_def kv_pieces.simps is_delim_def str_def Let_def)
  have s: "header_line_pieces (str ''PUT /w H'' @ CRLF) = [Plain (str ''PUT /w H'' @ CRLF)]"
      "header_line_pieces (str ''Content-Length: 8'' @ CRLF) =
        [Seg (str ''Content-Length: '') (str ''8'') CRLF]"
      "header_line_pieces ([] @ CRLF) = [Plain CRLF]"
    by (simp_all add: header_line_pieces_def try_split_header_line_def str_def CRLF_def
        has_suffix_def has_prefix_def)
  have hp: "header_pieces (header_block [str ''PUT /w H'', str ''Content-Length: 8'']) =
      [Plain (str ''PUT /w H'' @ CRLF), Seg (str ''Content-Length: '') (str ''8'') CRLF, Plain CRLF]"
    unfolding header_pieces_def h using s by (simp add: header_line_pieces_def [of "[]"])
  have bp: "body_pieces (str ''m a=1 2'' @ [10]) = [Seg (str ''m a='') (str ''1'') [32], Plain [50, 10]]"
    unfolding body_pieces_def b by (simp add: k)
  show ?thesis
    by (simp add: sample_requests session_patterns_def request_patterns_def hp bp insert_commute)
qed

lemma sample_session:
  "\<forall>k. \<not> ctx_done sample_env k"
  "unambiguous (session_patterns (requests (tables sample_env) sample_reader))"
  "list_all (\<lambda>(hdr, body). plain_request_line (tables sample_env) hdr)
     (requests (tables sample_env) sample_reader)"
proof -
  have "template_id_for (str ''Content-Length: '') CRLF \<noteq> template_id_for (str ''m a='') [32]"
    by (simp add: template_id_for_def fnv1a_32_step_def str_def CRLF_def)
  then show "unambiguous (session_patterns (requests (tables sample_env) sample_reader))"
    unfolding sample_patterns by (simp add: unambiguous_def str_def)
  show "list_all (\<lambda>(hdr, body). plain_request_line (tables sample_env) hdr)
      (requests (tables sample_env) sample_reader)"
    by (simp add: sample_requests plain_request_line_def split_header_block str_def has_prefix_def
        to_lower_def ascii_def lower_byte_def)
  show "\<forall>k. \<not> ctx_done sample_env k" by (simp add: sample_env_def)
qed

theorem session_roundtrip_witness:
  "\<exists>st dc. run_encode_template_v1 sample_env (Some fresh_sink) None new_conn_stats None
      sample_reader = (None, st) \<and>
    run_decode_template_v1 (tables sample_env) (\<lambda>_. False) None 0 fresh_sink None
      \<lparr>rd_bytes = sent (Enc st), rd_end = ErrEOF\<rparr> = (None, dc) \<and>
    snk_bytes (DDest dc) =
      header_block [str ''PUT /w H'', str ''Content-Length: 8''] @ str ''m a=1 2'' @ [10] \<and>
    DTemplates dc = Templates (Enc st)"
proof -
  have t: "truth_stream (requests (tables sample_env) sample_reader) =
      header_block [str ''PUT /w H'', str ''Content-Length: 8''] @ str ''m a=1 2'' @ [10]"
    by (simp add: sample_requests truth_stream_def)
  from session_roundtrip [OF sample_session(1) sample_stream_error sample_session(2,3), of fresh_sink new_conn_stats None 0 None]
  show ?thesis unfolding t by simp
qed


theorem body_counted_twice_witness:
  "\<exists>st st'. encode_request sample_env
      \<lparr>Method = str ''PUT'', Path = str ''/w'', Proto = str ''H'', TransferChunked = False,
       ContentLength = 8, HeaderBytes = header_block [str ''PUT /w H'', str ''Content-Length: 8'']\<rparr>
      (str ''m a=1 2'' @ [10]) st = (None, st') \<and>
    rawIn (CStats (Enc st)) = 0 \<and> rawIn (CStats (Enc st')) = 47"
proof -
  let ?meta = "\<lparr>Method = str ''PUT'', Path = str ''/w'', Proto = str ''H'', TransferChunked = False,
       ContentLength = 8, HeaderBytes = header_block [str ''PUT /w H'', str ''Content-Length: 8'']\<rparr>"
  let ?body = "str ''m a=1 2'' @ [10]"
  let ?st = "\<lparr>Enc = \<lparr>Destination = Some fresh_sink, Templates = Map.empty, SpanStats = Map.empty,
      CStats = new_conn_stats, Obs = None\<rparr>, Learner = new_aggregator 0, PacketID = 0,
      TruthOffset = 0, RawWindowFwd = None\<rparr>"
  have "\<exists>st'. encode_request sample_env ?meta ?body ?st = (None, st') \<and> out_open (Enc st')"
    by (rule encode_request_succeeds [of "[str ''PUT /w H'', str ''Content-Length: 8'']"])
      (simp_all add: header_lines_ok_def str_def header_block_def maxHeaderBytes_def maxBodyBytes_def
        out_open_def)
  then obtain st' where run: "encode_request sample_env ?meta ?body ?st = (None, st')" by blast
  have len: "int (length ?body) = 8" "length ?body = 8"
      "length (header_block [str ''PUT /w H'', str ''Content-Length: 8'']) = 31"
    by (simp_all add: str_def header_block_def)
  have start: "rawIn (CStats (Enc ?st)) = 0" by (simp add: new_conn_stats_def)
  have "rawIn (CStats (Enc st')) = 47"
    using body_counted_twice [OF run] start sample_normalized len
    by simp
  with run start show ?thesis by blast
qed

section \<open>Ambiguous template ids\<close>

text \<open>
  C15: Two patterns with the same 16-bit template id corrupt the stream. Once the id is
  defined for one pattern, a further occurrence of the other one that is worth a REF is sent
  as a REF to the first, and every receiver that has followed the stream expands it with the
  constants of the wrong pattern.
\<close>

theorem template_collision_corrupts:
  assumes coll: "template_id_for a b = template_id_for c d"
    and T: "Templates cc (template_id_for a b) =
      Some \<lparr>TID = template_id_for a b, TConstA = c, TConstB = d\<rparr>"
    and dfnd: "is_defined cc (template_id_for a b)" "3 \<le> hits_of cc (template_id_for a b) + 1"
    and out: "out_open cc" and lane: "5 < length a + length b" "length l < length a + length b"
    and small: "length a + length b < 65536"
  shows "\<exists>cc' p. emit_with_delayed_promotion a l b cc = (None, cc') \<and>
    sent cc' = sent cc @ wire_of [(FrameTemplateRef, p)] \<and>
    expand (Templates cc) [(FrameTemplateRef, p)] = Some (Templates cc, [c @ l @ d])"
proof -
  let ?tid = "template_id_for a b"
  have l: "length l < 65536" using lane small by simp
  obtain defp where dp: "build_template_define_payload (?tid, a, b) = Inr defp"
    using define_codec.build_fits [of "(?tid, a, b)"] small by (auto simp: define_fits_def)
  obtain p where p: "build_template_ref_payload (?tid, l) = Inr p"
      "parse_template_ref_payload p = Inr (?tid, l)"
    using build_ref_fits [OF l] by blast
  have len: "length p < length (a @ l @ b)"
    using p(1) lane by (auto simp: build_template_ref_payload_def Let_def split: if_splits)
  from promotion_scheduled [OF out lane(2) small dp p(1)] obtain cc' where
    "emit_with_delayed_promotion a l b cc = (None, cc')"
    "sent cc' = sent cc @ wire_of (scheduled_frames (hits_of cc ?tid + 1) (is_defined cc ?tid)
      (a @ l @ b) defp p)"
    by blast
  moreover have "scheduled_frames (hits_of cc ?tid + 1) (is_defined cc ?tid) (a @ l @ b) defp p =
      [(FrameTemplateRef, p)]"
    using dfnd len by (simp add: scheduled_frames_def not_le [symmetric])
  moreover have "expand (Templates cc) [(FrameTemplateRef, p)] = Some (Templates cc, [c @ l @ d])"
    using frame_meaning_ref [OF p(2), of "Templates cc", OF T]
    by (simp del: FrameTemplateRef_def)
  ultimately show ?thesis by auto
qed

text \<open>Two field names of ordinary telemetry collide.\<close>

theorem template_collision_corrupts_witness:
  "let tid = template_id_for (str ''host_load='') (str '','');
       cc = \<lparr>Destination = Some fresh_sink,
         Templates = [tid \<mapsto> \<lparr>TID = tid, TConstA = str ''wait_count='', TConstB = str '',''\<rparr>],
         SpanStats = [tid \<mapsto> \<lparr>SHits = 3, Defined = True\<rparr>],
         CStats = new_conn_stats, Obs = None\<rparr>
   in \<exists>cc' p. emit_with_delayed_promotion (str ''host_load='') (str ''42'') (str '','') cc = (None, cc') \<and>
        sent cc' = wire_of [(FrameTemplateRef, p)] \<and>
        expand (Templates cc) [(FrameTemplateRef, p)] = Some (Templates cc, [str ''wait_count=42,''])"
proof -
  let ?tid = "template_id_for (str ''host_load='') (str '','')"
  let ?cc = "\<lparr>Destination = Some fresh_sink, Templates = [?tid \<mapsto> \<lparr>TID = ?tid,
        TConstA = str ''wait_count='', TConstB = str '',''\<rparr>],
      SpanStats = [?tid \<mapsto> \<lparr>SHits = 3, Defined = True\<rparr>], CStats = new_conn_stats, Obs = None\<rparr>"
  have "?tid = 0xC35D" "template_id_for (str ''wait_count='') (str '','') = 0xC35D"
    by (simp_all add: template_id_for_def fnv1a_32_step_def str_def)
  then have coll: "?tid = template_id_for (str ''wait_count='') (str '','')" by simp
  have "\<exists>cc' p. emit_with_delayed_promotion (str ''host_load='') (str ''42'') (str '','') ?cc = (None, cc') \<and>
      sent cc' = sent ?cc @ wire_of [(FrameTemplateRef, p)] \<and>
      expand (Templates ?cc) [(FrameTemplateRef, p)] =
        Some (Templates ?cc, [str ''wait_count='' @ str ''42'' @ str '',''])"
    by (rule template_collision_corrupts [OF coll])
      (simp_all add: is_defined_def hits_of_def out_open_def str_def)
  then show ?thesis by (simp add: Let_def sent_def str_def)
qed

end
