(* ===== verification/Decoder_Invariant.thy ===== *)
theory Decoder_Invariant
  imports Decoder_Correct Http_Request
begin

text \<open>
  The decoder as a state machine: the states it can be in between two frames, whatever the
  peer sends, and what holds in all of them.
\<close>

section \<open>Reachable states\<close>

text \<open>A step is a frame that the decoder handles without an error.\<close>

inductive dec_reach :: "unicode \<Rightarrow> dec \<Rightarrow> dec \<Rightarrow> bool" for U where
  start: "dec_reach U dc dc"
| frame: "dec_reach U dc dc' \<Longrightarrow> handle_frame U t p dc' = (None, dc'') \<Longrightarrow> dec_reach U dc dc''"

lemma dec_reach_trans: "dec_reach U b c \<Longrightarrow> dec_reach U a b \<Longrightarrow> dec_reach U a c"
  by (induction rule: dec_reach.induct) (auto intro: dec_reach.frame)

lemma decode_loop_reach:
  "decode_loop U cancelled k r dc = (err, dc') \<Longrightarrow>
     \<exists>c. dec_reach U dc c \<and> (dc' = c \<or> (\<exists>e t p. err = Some e \<and> handle_frame U t p c = (Some e, dc')))"
proof (induction U cancelled k r dc rule: decode_loop.induct)
  case (1 U cancelled k r dc)
  show ?case
  proof (cases "cancelled k \<or> (\<exists>e. read_frame r = Inl e)")
    case True
    with "1.prems" have "dc' = dc" by (subst (asm) decode_loop.simps) (auto split: if_splits)
    then show ?thesis by (auto intro: dec_reach.start)
  next
    case False
    then obtain h p r' where rd: "read_frame r = Inr (h, p, r')" and go: "\<not> cancelled k"
      by (cases "read_frame r") auto
    obtain e c where hf: "handle_frame U (Type h) p dc = (e, c)" by fastforce
    show ?thesis
    proof (cases e)
      case (Some x)
      with "1.prems" go rd hf have "err = Some x" "dc' = c"
        by (subst (asm) decode_loop.simps; simp)+
      with hf Some show ?thesis by (blast intro: dec_reach.start)
    next
      case None
      with "1.prems" go rd hf have "decode_loop U cancelled (Suc k) r' c = (err, dc')"
        by (subst (asm) decode_loop.simps) simp
      from "1.IH" [OF go rd refl refl hf [unfolded None, symmetric] refl this]
      obtain c' where "dec_reach U c c'"
          "dc' = c' \<or> (\<exists>e t p. err = Some e \<and> handle_frame U t p c' = (Some e, dc'))"
        by blast
      moreover have "dec_reach U dc c"
        using dec_reach.frame [OF dec_reach.start hf [unfolded None]] .
      ultimately show ?thesis using dec_reach_trans by blast
    qed
  qed
qed

section \<open>The invariant\<close>

text \<open>The header of what has been collected, and the length it announces.\<close>

definition announces :: "unicode \<Rightarrow> bytes \<Rightarrow> nat \<Rightarrow> int \<Rightarrow> bool" where
  "announces U q idx n \<longleftrightarrow>
     index_sub (CRLF @ CRLF) q = Some idx \<and>
     parse_content_length_from_header_string U (take (idx + 4) q) = Inr n \<and> 0 \<le> n"

definition dec_inv :: "unicode \<Rightarrow> dec \<Rightarrow> bool" where
  "dec_inv U dc \<longleftrightarrow>
     (if HeaderDone dc
      then \<exists>idx. announces U (Req dc) idx (ContentLen dc) \<and>
             BodyHave dc = int (length (Req dc) - (idx + 4)) \<and> BodyHave dc < ContentLen dc
      else index_sub (CRLF @ CRLF) (Req dc) = None \<and> ContentLen dc = - 1 \<and> BodyHave dc = 0)"

text \<open>A complete request: its header and at least the body it announces.\<close>

definition complete_request :: "unicode \<Rightarrow> bytes \<Rightarrow> bool" where
  "complete_request U q \<longleftrightarrow> (\<exists>idx n. announces U q idx n \<and> n \<le> int (length q - (idx + 4)))"

lemma index_sub_nonempty: "index_sub p [] = None \<longleftrightarrow> p \<noteq> []"
  by simp

lemma reset_inv: "dec_inv U (reset_req dc)"
  by (simp add: dec_inv_def reset_req_def)

lemma announces_extend:
  assumes "announces U q idx n"
  shows "announces U (q @ c) idx n"
proof -
  from assms have i: "index_sub (CRLF @ CRLF) q = Some idx" by (simp add: announces_def)
  from index_sub_Some [OF i] have "idx + 4 \<le> length q" by simp
  then have "take (idx + 4) (q @ c) = take (idx + 4) q" by simp
  with assms index_sub_extend [OF i, of c] show ?thesis by (simp only: announces_def)
qed

lemma content_length_error: "content_length_of_lines U ls = Inl e \<Longrightarrow> e = GoPanic"
  by (induction ls) (auto simp: Let_def split: if_splits option.splits)

text \<open>
  Feeding a chunk: either an error that leaves the state behind, or the header and body
  counts are right for the longer text.
\<close>

definition fed_inv :: "unicode \<Rightarrow> dec \<Rightarrow> bool" where
  "fed_inv U dc \<longleftrightarrow>
     (if HeaderDone dc
      then \<exists>idx. announces U (Req dc) idx (ContentLen dc) \<and>
             BodyHave dc = int (length (Req dc) - (idx + 4))
      else index_sub (CRLF @ CRLF) (Req dc) = None \<and> ContentLen dc = - 1 \<and> BodyHave dc = 0)"

lemma dec_inv_fed: "dec_inv U dc \<Longrightarrow> fed_inv U dc"
  by (auto simp: dec_inv_def fed_inv_def)

lemma feed_inv:
  assumes inv: "fed_inv U dc" and run: "feed U c dc = (e, dc')"
  shows "e \<noteq> Some ErrHeaderMarkerLost \<and> (e = None \<longrightarrow> fed_inv U dc') \<and> DDest dc' = DDest dc"
proof (cases "HeaderDone dc \<and> c \<noteq> []")
  case True
  with inv obtain idx where a: "announces U (Req dc) idx (ContentLen dc)" by (auto simp: fed_inv_def)
  note b = announces_extend [OF a, of c]
  then have "index_sub (CRLF @ CRLF) (Req dc @ c) = Some idx" by (simp add: announces_def)
  with run True have "e = None" "dc' = dc\<lparr>Req := Req dc @ c,
      BodyHave := int (length (Req dc @ c) - (idx + 4))\<rparr>"
    by (auto simp: feed_def Let_def)
  with True b show ?thesis by (auto simp: fed_inv_def)
next
  case False
  show ?thesis
  proof (cases "c = []")
    case True
    with run inv show ?thesis by (auto simp: feed_def)
  next
    case ne: False
    with False have nh: "\<not> HeaderDone dc" by simp
    show ?thesis
    proof (cases "index_sub (CRLF @ CRLF) (Req dc @ c)")
      case None
      with run ne nh inv show ?thesis by (auto simp: feed_def Let_def fed_inv_def)
    next
      case (Some idx)
      show ?thesis
      proof (cases "parse_content_length_from_header_string U (take (idx + 4) (Req dc @ c))")
        case (Inl x)
        have "x \<noteq> ErrHeaderMarkerLost"
          using Inl content_length_error [of U _ x]
          by (auto simp: parse_content_length_from_header_string_def)
        with run ne nh Some Inl show ?thesis by (auto simp: feed_def Let_def)
      next
        case (Inr n)
        show ?thesis
        proof (cases "n < 0")
          case True
          with run ne nh Some Inr show ?thesis by (auto simp: feed_def Let_def simp del: take_append)
        next
          case False
          with run ne nh Some Inr have "e = None" "dc' = dc\<lparr>Req := Req dc @ c, HeaderDone := True,
              ContentLen := n, BodyHave := int (length (Req dc @ c) - (idx + 4))\<rparr>"
            by (auto simp: feed_def Let_def simp del: take_append)
          moreover have "announces U (Req dc @ c) idx n"
            using Some Inr False by (simp only: announces_def not_less)
          ultimately show ?thesis by (auto simp: fed_inv_def)
        qed
      qed
    qed
  qed
qed


lemma feed_and_flush_inv:
  assumes inv: "dec_inv U dc" and open_dc: "dest_open dc" and run: "feed_and_flush U c dc = (e, dc')"
  shows "e \<noteq> Some ErrHeaderMarkerLost \<and> (e = None \<longrightarrow> dec_inv U dc') \<and> dest_open dc' \<and>
    (\<exists>rs. snk_bytes (DDest dc') = snk_bytes (DDest dc) @ concat rs \<and>
       list_all (complete_request U) rs)"
proof -
  obtain e1 d where f: "feed U c dc = (e1, d)" by fastforce
  note fi = feed_inv [OF dec_inv_fed [OF inv] f]
  then have od: "dest_open d" using open_dc by (simp add: dest_open_def)
  show ?thesis
  proof (cases e1)
    case (Some x)
    with run f have "e = e1" "dc' = d" by (auto simp: feed_and_flush_def and_then_def)
    with fi Some od show ?thesis by (auto intro: exI [of _ "[]"])
  next
    case None
    with run f have fl: "flush_req_if_complete d = (e, dc')" by (simp add: feed_and_flush_def and_then_def)
    from fi None have fd: "fed_inv U d" by simp
    show ?thesis
    proof (cases "\<not> HeaderDone d \<or> ContentLen d < 0 \<or> BodyHave d < ContentLen d")
      case True
      with fl have "e = None" "dc' = d" by (auto simp: flush_req_if_complete_def split: if_splits)
      moreover have "dec_inv U d"
        using fd True by (auto simp: fed_inv_def dec_inv_def announces_def)
      ultimately show ?thesis using fi od by (auto intro: exI [of _ "[]"])
    next
      case False
      with fd obtain idx where a: "announces U (Req d) idx (ContentLen d)"
          "BodyHave d = int (length (Req d) - (idx + 4))"
        by (auto simp: fed_inv_def)
      with False have "ContentLen d \<le> int (length (Req d) - (idx + 4))" by simp
      with a(1) have cr: "complete_request U (Req d)" unfolding complete_request_def by blast
      have "Req d \<noteq> []" using a(1) by (auto simp: announces_def)
      from write_out_open [OF od this] False fl
      have r: "e = None" "dc' = reset_req (delivered (Req d) d)"
        by (auto simp: flush_req_if_complete_def)
      have "snk_bytes (DDest dc') = snk_bytes (DDest dc) @ concat [Req d]"
        using fi r(2) by (simp add: reset_req_def delivered_def)
      moreover have "dest_open dc'"
        using od r(2) by (simp add: reset_req_def delivered_def dest_open_def)
      moreover have "list_all (complete_request U) [Req d]" using cr by simp
      ultimately show ?thesis using r reset_inv by blast
    qed
  qed
qed

text \<open>The four things a frame can do.\<close>

lemma parse_errors:
  "parse_template_inline_payload p = Inl x \<or> parse_template_define_payload p = Inl x \<or>
   parse_template_ref_payload p = Inl x \<or> parse_epoch_reset_payload p = Inl x \<Longrightarrow>
     x \<noteq> ErrHeaderMarkerLost"
  by (auto simp: parse_template_inline_payload_def parse_template_define_payload_def
      parse_template_ref_payload_def parse_epoch_reset_payload_def get_u16_def get_byte_def Let_def
      split: if_splits sum.splits)

lemma handle_frame_cases:
  assumes run: "handle_frame U t p dc = (e, dc')"
  obtains (rejected) x where "e = Some x" "x \<noteq> ErrHeaderMarkerLost" "dc' = dc"
  | (fed) c T where "feed_and_flush U c (with_templates T dc) = (e, dc')"
  | (learnt) T where "e = None" "dc' = with_templates T dc"
  | (epoch) i T where "e = None" "dc' = reset_req (dc\<lparr>DEpoch := i, DTemplates := T\<rparr>)"
proof -
  have same: thesis if "feed_and_flush U c dc = (e, dc')" for c
    by (rule fed [of c "DTemplates dc"]) (use that in simp)
  have reject: thesis
    if "(Some x, dc) = (e, dc')" "parse_template_inline_payload p = Inl x \<or>
      parse_template_define_payload p = Inl x \<or> parse_template_ref_payload p = Inl x \<or>
      parse_epoch_reset_payload p = Inl x" for x
    using rejected [of x] parse_errors [OF that(2)] that(1) by auto
  consider (raw) "t = FrameRawData" | (inl) "t = FrameTemplateInline" | (dfn) "t = FrameTemplateDefine"
    | (ref) "t = FrameTemplateRef" | (eps) "t = FrameEpochReset"
    | (other) "t \<notin> {FrameRawData, FrameTemplateInline, FrameTemplateDefine, FrameTemplateRef,
        FrameEpochReset}"
    by blast
  then show thesis
  proof cases
    case raw
    with run show thesis by (intro same) (simp add: handle_frame_def)
  next
    case inl
    show thesis
    proof (cases "parse_template_inline_payload p")
      case (Inl x)
      with run inl show thesis by (intro reject [of x]) (simp_all add: handle_frame_def)
    next
      case (Inr y)
      obtain tid a b l where "y = (tid, a, b, l)" by (metis prod_cases4)
      with run inl Inr have "feed_and_flush U (a @ l @ b) (with_templates
          ((DTemplates dc)(tid \<mapsto> \<lparr>TID = tid, TConstA = a, TConstB = b\<rparr>)) dc) = (e, dc')"
        by (simp add: handle_frame_def add_template_def)
      then show thesis by (rule fed)
    qed
  next
    case dfn
    show thesis
    proof (cases "parse_template_define_payload p")
      case (Inl x)
      with run dfn show thesis by (intro reject [of x]) (simp_all add: handle_frame_def)
    next
      case (Inr y)
      obtain tid a b where "y = (tid, a, b)" by (metis prod_cases3)
      with run dfn Inr show thesis
        by (intro learnt [of "(DTemplates dc)(tid \<mapsto> \<lparr>TID = tid, TConstA = a, TConstB = b\<rparr>)"])
          (auto simp: handle_frame_def add_template_def)
    qed
  next
    case ref
    show thesis
    proof (cases "parse_template_ref_payload p")
      case (Inl x)
      with run ref show thesis by (intro reject [of x]) (simp_all add: handle_frame_def)
    next
      case (Inr y)
      obtain tid l where y: "y = (tid, l)" by fastforce
      show thesis
      proof (cases "DTemplates dc tid")
        case None
        with run ref Inr y show thesis
          by (intro rejected [of ErrRefBeforeDefine]) (auto simp: handle_frame_def)
      next
        case (Some tm)
        with run ref Inr y show thesis
          by (intro same [of "TConstA tm @ l @ TConstB tm"]) (simp add: handle_frame_def)
      qed
    qed
  next
    case eps
    show thesis
    proof (cases "parse_epoch_reset_payload p")
      case (Inl x)
      with run eps show thesis by (intro reject [of x]) (simp_all add: handle_frame_def)
    next
      case (Inr i)
      with run eps show thesis
        by (intro epoch [of Map.empty i]) (auto simp: handle_frame_def)
    qed
  next
    case other
    with run show thesis
      by (intro rejected [of ErrUnsupportedFrameType]) (auto simp: handle_frame_def)
  qed
qed

lemma handle_frame_inv:
  assumes inv: "dec_inv U dc" and open_dc: "dest_open dc" and run: "handle_frame U t p dc = (e, dc')"
  shows "e \<noteq> Some ErrHeaderMarkerLost \<and> (e = None \<longrightarrow> dec_inv U dc') \<and> dest_open dc' \<and>
    (\<exists>rs. snk_bytes (DDest dc') = snk_bytes (DDest dc) @ concat rs \<and>
       list_all (complete_request U) rs)"
  using run
proof (cases rule: handle_frame_cases)
  case (rejected x)
  with open_dc show ?thesis by (auto intro: exI [of _ "[]"])
next
  case (fed c T)
  have "dec_inv U (with_templates T dc)" "dest_open (with_templates T dc)"
    using inv open_dc by (simp_all add: dec_inv_def dest_open_def)
  from feed_and_flush_inv [OF this fed] show ?thesis by simp
next
  case (learnt T)
  with inv open_dc show ?thesis
    by (auto simp: dec_inv_def dest_open_def intro: exI [of _ "[]"])
next
  case (epoch i T)
  then have "dec_inv U dc'" by (simp add: reset_inv)
  moreover have "dest_open dc'" "snk_bytes (DDest dc') = snk_bytes (DDest dc) @ concat []"
    using epoch open_dc by (simp_all add: reset_req_def dest_open_def)
  moreover have "list_all (complete_request U) []" by simp
  ultimately show ?thesis using epoch(1) by blast
qed

lemma reach_inv:
  assumes "dec_reach U dc dc'" "dec_inv U dc" "dest_open dc"
  shows "dec_inv U dc' \<and> dest_open dc' \<and>
    (\<exists>rs. snk_bytes (DDest dc') = snk_bytes (DDest dc) @ concat rs \<and>
       list_all (complete_request U) rs)"
  using assms
proof (induction rule: dec_reach.induct)
  case (start dc)
  then show ?case by (auto intro: exI [of _ "[]"])
next
  case (frame dc dc' t p dc'')
  then obtain rs where rs: "dec_inv U dc'" "dest_open dc'"
      "snk_bytes (DDest dc') = snk_bytes (DDest dc) @ concat rs" "list_all (complete_request U) rs"
    by blast
  from handle_frame_inv [OF rs(1,2) frame.hyps(2)] obtain qs where
      "dec_inv U dc''" "dest_open dc''"
      "snk_bytes (DDest dc'') = snk_bytes (DDest dc') @ concat qs" "list_all (complete_request U) qs"
    by auto
  with rs show ?case by (auto intro!: exI [of _ "rs @ qs"])
qed

lemma read_frame_no_marker:
  "read_frame r = Inl ErrHeaderMarkerLost \<Longrightarrow> rd_end r = ErrHeaderMarkerLost"
  by (auto simp: read_frame_def read_header_def read_full_def validate_payload_shape_v1_def
      split: sum.splits if_splits option.splits prod.splits)

lemma decode_loop_no_marker:
  "decode_loop U cancelled k r dc = (err, dc') \<Longrightarrow> dec_inv U dc \<Longrightarrow> dest_open dc \<Longrightarrow>
     rd_end r \<noteq> ErrHeaderMarkerLost \<Longrightarrow> err \<noteq> Some ErrHeaderMarkerLost"
proof (induction U cancelled k r dc rule: decode_loop.induct)
  case (1 U cancelled k r dc)
  show ?case
  proof (cases "cancelled k \<or> (\<exists>e. read_frame r = Inl e)")
    case True
    with "1.prems" show ?thesis
      by (subst (asm) decode_loop.simps) (auto split: if_splits dest: read_frame_no_marker)
  next
    case False
    then obtain h p r' where rd: "read_frame r = Inr (h, p, r')" and go: "\<not> cancelled k"
      by (cases "read_frame r") auto
    obtain e c where hf: "handle_frame U (Type h) p dc = (e, c)" by fastforce
    note inv = handle_frame_inv [OF "1.prems"(2,3) hf]
    show ?thesis
    proof (cases e)
      case (Some x)
      with "1.prems"(1) go rd hf have "err = Some x" by (subst (asm) decode_loop.simps) simp
      with inv Some show ?thesis by simp
    next
      case None
      with "1.prems"(1) go rd hf have loop: "decode_loop U cancelled (Suc k) r' c = (err, dc')"
        by (subst (asm) decode_loop.simps) simp
      have "rd_end r' \<noteq> ErrHeaderMarkerLost" using read_frame_InrD [OF rd] "1.prems"(4) by simp
      with "1.IH" [OF go rd refl refl hf [unfolded None, symmetric] refl loop] inv None
      show ?thesis by simp
    qed
  qed
qed

section \<open>Properties\<close>

lemma new_dec_inv: "dec_inv U (new_dec d epoch dst w)"
  by (simp add: dec_inv_def new_dec_def)

text \<open>
  C5: The backend only ever sees complete requests. Whatever bytes the peer sends, with any
  templates, and however the lane ends (end of stream, protocol violation, cancelled
  context), what the decoder has written is a sequence of blocks, each of which contains a
  whole header with a Content-Length and at least that many bytes after it. The error
  \<^verbatim>\<open>header marker lost\<close> cannot occur.
\<close>

theorem backend_sees_complete_requests:
  assumes "run_decode_template_v1 U cancelled d epoch dst window r = (err, dc)"
    and "snk_room dst = None" "rd_end r \<noteq> ErrHeaderMarkerLost"
  shows "err \<noteq> Some ErrHeaderMarkerLost \<and>
    (\<exists>rs. snk_bytes (DDest dc) = snk_bytes dst @ concat rs \<and> list_all (complete_request U) rs)"
proof -
  let ?new = "new_dec d epoch dst window"
  have o: "dest_open ?new" using assms(2) by (simp add: dest_open_def new_dec_def)
  have b: "snk_bytes (DDest ?new) = snk_bytes dst" by (simp add: new_dec_def)
  note run = assms(1) [unfolded run_decode_template_v1_def]
  from decode_loop_reach [OF run] obtain c where c: "dec_reach U ?new c"
    and e: "dc = c \<or> (\<exists>e t p. err = Some e \<and> handle_frame U t p c = (Some e, dc))"
    by blast
  from reach_inv [OF c new_dec_inv o] obtain rs where
    rs: "dec_inv U c" "dest_open c" "snk_bytes (DDest c) = snk_bytes dst @ concat rs"
      "list_all (complete_request U) rs"
    using b by auto
  have blocks: "\<exists>rs. snk_bytes (DDest dc) = snk_bytes dst @ concat rs \<and> list_all (complete_request U) rs"
    using e
  proof
    assume "dc = c"
    with rs show ?thesis by blast
  next
    assume "\<exists>e t p. err = Some e \<and> handle_frame U t p c = (Some e, dc)"
    then obtain e t p where "handle_frame U t p c = (Some e, dc)" by blast
    from handle_frame_inv [OF rs(1,2) this] obtain qs where
      "snk_bytes (DDest dc) = snk_bytes (DDest c) @ concat qs" "list_all (complete_request U) qs"
      by blast
    with rs show ?thesis by (auto intro!: exI [of _ "rs @ qs"])
  qed
  moreover have "err \<noteq> Some ErrHeaderMarkerLost"
    using decode_loop_no_marker [OF run new_dec_inv o assms(3)] .
  ultimately show ?thesis by blast
qed


theorem backend_sees_complete_requests_witness:
  "let run = run_decode_template_v1 \<lparr>uni_lower = id, uni_trim = id, uni_trim_right = id\<rparr>
     (\<lambda>_. False) None 0 \<lparr>snk_bytes = [], snk_room = None\<rparr> None
     \<lparr>rd_bytes = frame_image FrameRawData (header_block [str ''PUT /w H'', str ''Content-Length: 1''])
        @ frame_image FrameRawData (str ''xy'') @ [0xEC, 7], rd_end = ErrEOF\<rparr>
   in fst run \<noteq> Some ErrHeaderMarkerLost \<and>
      (\<exists>rs. snk_bytes (DDest (snd run)) = [] @ concat rs \<and> list_all
        (complete_request \<lparr>uni_lower = id, uni_trim = id, uni_trim_right = id\<rparr>) rs)"
  unfolding Let_def
  by (rule backend_sees_complete_requests
      [where dst = "\<lparr>snk_bytes = [], snk_room = None\<rparr>", simplified sink.simps,
       OF prod.collapse [symmetric]]) simp_all

text \<open>
  C27: EPOCH_RESET forgets everything. The frame stores its epoch, drops the request that was
  being collected without writing any of it, and empties the templates. Whatever was defined
  before, a REF that follows directly leaves the state unchanged and is an error: for every
  payload that parses as a REF, whatever its template id and its lane, a reference before its
  definition, and for every other payload the error of the parser.
\<close>

theorem epoch_reset_forgets:
  "\<exists>dc'. handle_frame U FrameEpochReset (build_epoch_reset_payload i) dc = (None, dc') \<and>
     idle dc' \<and> DEpoch dc' = i \<and> DDest dc' = DDest dc \<and> DTemplates dc' = Map.empty \<and>
     (\<forall>p. handle_frame U FrameTemplateRef p dc' =
        (Some (case parse_template_ref_payload p of
                 Inr (tid, lane) \<Rightarrow> ErrRefBeforeDefine
               | Inl err \<Rightarrow> err), dc'))"
proof -
  let ?dc = "reset_req (dc\<lparr>DEpoch := i, DTemplates := Map.empty\<rparr>)"
  have "handle_frame U FrameEpochReset (build_epoch_reset_payload i) dc = (None, ?dc)"
    by (simp add: handle_frame_def parse_build_epoch_reset)
  moreover have "handle_frame U FrameTemplateRef p ?dc =
      (Some (case parse_template_ref_payload p of
               Inr (tid, lane) \<Rightarrow> ErrRefBeforeDefine
             | Inl err \<Rightarrow> err), ?dc)" for p
    by (simp add: handle_frame_def reset_req_def split: sum.splits)
  moreover have "idle ?dc" "DEpoch ?dc = i" "DDest ?dc = DDest dc" "DTemplates ?dc = Map.empty"
    by (simp_all add: idle_def reset_req_def)
  ultimately show ?thesis by blast
qed

text \<open>
  C18: A request is delivered once, whole, and with its last byte, however the frames cut it.
  Starting idle, feeding any chunks that add up to a header and its announced body writes
  exactly the request to the backend, and the decoder is idle again.
\<close>

theorem delivery_independent_of_cut:
  assumes "framed U hdr (length body)" "idle dc" "snk_room (DDest dc) = None"
    and "concat cs = hdr @ body"
  shows "\<exists>dc'. feed_all U cs dc = (None, dc') \<and> idle dc' \<and>
    snk_bytes (DDest dc') = snk_bytes (DDest dc) @ hdr @ body"
  using feed_all_request [OF assms(1,2) _ assms(4)] assms(3) idle_delivered [OF assms(2)]
  by (auto simp: dest_open_def delivered_def)


theorem delivery_independent_of_cut_witness:
  "let U = \<lparr>uni_lower = id, uni_trim = id, uni_trim_right = id\<rparr>;
       dc = new_dec None 0 \<lparr>snk_bytes = [], snk_room = None\<rparr> None;
       hdr = str ''P / H'' @ CRLF @ str ''Content-Length: 3'' @ CRLF @ CRLF
   in \<exists>dc'. feed_all U [str ''P / '', [], str ''H'' @ CRLF @ str ''Content-Length: 3'' @ CRLF @ CRLF @ str ''a'',
          str ''bc'', []] dc = (None, dc') \<and>
        idle dc' \<and> snk_bytes (DDest dc') = [] @ hdr @ str ''abc''"
proof -
  let ?U = "\<lparr>uni_lower = id, uni_trim = id, uni_trim_right = id\<rparr>"
  let ?dc = "new_dec None 0 \<lparr>snk_bytes = [], snk_room = None\<rparr> None"
  let ?hdr = "str ''P / H'' @ CRLF @ str ''Content-Length: 3'' @ CRLF @ CRLF"
  have "framed ?U ?hdr (length (str ''abc''))"
    by (simp add: framed_def parse_content_length_from_header_string_def split_on.simps str_def CRLF_def
        has_prefix_def to_lower_def ascii_def lower_byte_def trim_space_def ascii_space_def atoi_def
        parse_int_def digit_val_def Let_def)
  from delivery_independent_of_cut [OF this, of ?dc
      "[str ''P / '', [], str ''H'' @ CRLF @ str ''Content-Length: 3'' @ CRLF @ CRLF @ str ''a'',
          str ''bc'', []]"]
  show ?thesis unfolding Let_def by (simp add: idle_def new_dec_def str_def)
qed

end
