(* ===== verification/Mem_Dictionary.thy ===== *)
theory Mem_Dictionary
  imports Span_Learner
begin

text \<open>
  The bounded pattern cache (\<^verbatim>\<open>internal/memory/dictionary.go\<close>): entries by id and by key, a
  hard cap in bytes, and guarded LRU eviction that never touches the younger half. An entry
  is reached through a pointer in the code; the only mutation through one is \<^verbatim>\<open>touch\<close>,
  which the model applies to the entry stored under the id.
\<close>

section \<open>State\<close>

record dict_entry =
  EID :: u32
  EKey :: bytes
  EBytes :: bytes
  ESize :: int
  CreatedSeq :: u64
  LastUsedSeq :: u64

type_synonym entry_map = "(u32 \<times> dict_entry) list"

record mem_dict =
  capBytes :: int
  usedBytes :: int
  nextID :: u32
  nextSeq :: u64
  entries :: entry_map
  byKey :: "bytes \<rightharpoonup> u32"

definition new_dictionary :: "int \<Rightarrow> go_error + mem_dict" where
  "new_dictionary cap =
     (if cap \<le> 0 then Inl GoPanic
      else Inr \<lparr>capBytes = cap, usedBytes = 0, nextID = 1, nextSeq = 1, entries = [],
                byKey = Map.empty\<rparr>)"

definition md_cap :: "mem_dict \<Rightarrow> int" where "md_cap d = capBytes d"
definition md_used :: "mem_dict \<Rightarrow> int" where "md_used d = usedBytes d"
definition md_count :: "mem_dict \<Rightarrow> nat" where "md_count d = length (entries d)"

section \<open>Operations\<close>

definition free_bytes :: "mem_dict \<Rightarrow> int" where
  "free_bytes d = capBytes d - usedBytes d"

definition alloc_id :: "mem_dict \<Rightarrow> u32 \<times> mem_dict" where
  "alloc_id d = (nextID d, d\<lparr>nextID := nextID d + 1\<rparr>)"

definition alloc_seq :: "mem_dict \<Rightarrow> u64 \<times> mem_dict" where
  "alloc_seq d = (nextSeq d, d\<lparr>nextSeq := nextSeq d + 1\<rparr>)"

definition touch :: "u32 \<Rightarrow> mem_dict \<Rightarrow> mem_dict" where
  "touch i d =
     (let (s, d) = alloc_seq d
      in d\<lparr>entries := map (\<lambda>(j, e). (j, if j = i then e\<lparr>LastUsedSeq := s\<rparr> else e)) (entries d)\<rparr>)"

definition get_by_id :: "u32 \<Rightarrow> mem_dict \<Rightarrow> dict_entry option \<times> mem_dict" where
  "get_by_id i d =
     (case map_of (entries d) i of
        None \<Rightarrow> (None, d)
      | Some _ \<Rightarrow> let d = touch i d in (map_of (entries d) i, d))"

definition get_by_key :: "bytes \<Rightarrow> mem_dict \<Rightarrow> dict_entry option \<times> mem_dict" where
  "get_by_key key d =
     (case byKey d key of
        None \<Rightarrow> (None, d)
      | Some i \<Rightarrow> get_by_id i d)"

definition delete_id :: "u32 \<Rightarrow> mem_dict \<Rightarrow> bool \<times> mem_dict" where
  "delete_id i d =
     (case map_of (entries d) i of
        None \<Rightarrow> (False, d)
      | Some e \<Rightarrow>
          let d = d\<lparr>entries := AList.delete i (entries d), byKey := (byKey d)(EKey e := None),
                    usedBytes := usedBytes d - ESize e\<rparr>
          in (True, if usedBytes d < 0 then d\<lparr>usedBytes := 0\<rparr> else d))"

definition clear :: "mem_dict \<Rightarrow> mem_dict" where
  "clear d = d\<lparr>entries := [], byKey := Map.empty, usedBytes := 0\<rparr>"

text \<open>Phase 1 of \<^verbatim>\<open>evictToFit\<close>: the victims, without mutation.\<close>

fun plan_victims :: "int \<Rightarrow> int \<Rightarrow> int \<Rightarrow> dict_entry list \<Rightarrow> int \<times> dict_entry list" where
  "plan_victims free need freed [] = (freed, [])"
| "plan_victims free need freed (v # vs) =
     (let freed = freed + ESize v
      in if free + freed \<ge> need then (freed, [v])
         else (case plan_victims free need freed vs of (f, victims) \<Rightarrow> (f, v # victims)))"

text \<open>Phase 2: deletion, stopping as soon as the entry fits.\<close>

fun commit_victims :: "int \<Rightarrow> dict_entry list \<Rightarrow> mem_dict \<Rightarrow> bool \<times> mem_dict" where
  "commit_victims need [] d = (free_bytes d \<ge> need, d)"
| "commit_victims need (v # vs) d =
     (let d = snd (delete_id (EID v) d)
      in if free_bytes d \<ge> need then (True, d) else commit_victims need vs d)"

text \<open>The two comparison functions of \<^verbatim>\<open>evictToFit\<close>.\<close>

definition older :: "dict_entry \<Rightarrow> dict_entry \<Rightarrow> bool" where
  "older e1 e2 \<longleftrightarrow> CreatedSeq e1 < CreatedSeq e2"

definition less_used :: "dict_entry \<Rightarrow> dict_entry \<Rightarrow> bool" where
  "less_used e1 e2 \<longleftrightarrow>
     (if LastUsedSeq e1 = LastUsedSeq e2 then CreatedSeq e1 < CreatedSeq e2
      else LastUsedSeq e1 < LastUsedSeq e2)"

type_synonym entry_sort =
  "(dict_entry \<Rightarrow> dict_entry \<Rightarrow> bool) \<Rightarrow> dict_entry list \<Rightarrow> dict_entry list"

definition older_half :: "entry_sort \<Rightarrow> (entry_map \<Rightarrow> entry_map) \<Rightarrow> entry_map \<Rightarrow> dict_entry list" where
  "older_half srt rng es =
     (let all = srt older (map snd (rng es)) in take (length all div 2) all)"

definition evict_to_fit ::
    "entry_sort \<Rightarrow> (entry_map \<Rightarrow> entry_map) \<Rightarrow> int \<Rightarrow> mem_dict \<Rightarrow> bool \<times> mem_dict" where
  "evict_to_fit srt rng need d =
     (let free = free_bytes d
      in if free \<ge> need then (True, d)
         else if length (entries d) = 0 then (False, d)
         else
           let olderHalf = older_half srt rng (entries d)
           in if length olderHalf = 0 then (False, d)
              else (case plan_victims free need 0 (srt less_used olderHalf) of
                      (freed, victims) \<Rightarrow>
                        if free + freed < need then (False, d)
                        else commit_victims need victims d))"

text \<open>\<^verbatim>\<open>AddCandidate\<close>: the entry returned (\<open>None\<close> for nil), whether it was inserted.\<close>

definition add_candidate ::
    "entry_sort \<Rightarrow> (entry_map \<Rightarrow> entry_map) \<Rightarrow> bytes \<Rightarrow> bytes \<Rightarrow> mem_dict \<Rightarrow>
     (dict_entry option \<times> bool) \<times> mem_dict" where
  "add_candidate srt rng key b d =
     (if length b = 0 then ((None, False), d)
      else (case get_by_key key d of
              (Some existing, d) \<Rightarrow> ((Some existing, False), d)
            | (None, d) \<Rightarrow>
               (let need = int (length b)
                in if need > capBytes d then ((None, False), d)
                   else (case (if free_bytes d < need then evict_to_fit srt rng need d
                               else (True, d)) of
                      (False, d) \<Rightarrow> ((None, False), d)
                    | (True, d) \<Rightarrow>
                       (let (i, d) = alloc_id d; (s, d) = alloc_seq d;
                            e = \<lparr>EID = i, EKey = key, EBytes = b, ESize = int (length b),
                                 CreatedSeq = s, LastUsedSeq = s\<rparr>
                        in ((Some e, True),
                            d\<lparr>entries := AList.update i e (entries d), byKey := (byKey d)(key \<mapsto> i),
                              usedBytes := usedBytes d + ESize e\<rparr>))))))"


section \<open>The invariant\<close>

definition sum_sizes :: "entry_map \<Rightarrow> int" where
  "sum_sizes es = sum_list (map (\<lambda>(_, e). ESize e) es)"

definition entry_ok :: "mem_dict \<Rightarrow> u32 \<times> dict_entry \<Rightarrow> bool" where
  "entry_ok d = (\<lambda>(i, e). EID e = i \<and> byKey d (EKey e) = Some i \<and>
     ESize e = int (length (EBytes e)) \<and> 0 < ESize e \<and> i < nextID d \<and> CreatedSeq e < nextSeq d)"

definition md_inv :: "mem_dict \<Rightarrow> bool" where
  "md_inv d \<longleftrightarrow>
     distinct (map fst (entries d)) \<and> distinct (map (CreatedSeq \<circ> snd) (entries d)) \<and>
     list_all (entry_ok d) (entries d) \<and>
     (\<forall>k i. byKey d k = Some i \<longrightarrow> (\<exists>e. (i, e) \<in> set (entries d) \<and> EKey e = k)) \<and>
     usedBytes d = sum_sizes (entries d) \<and> usedBytes d \<le> capBytes d"

lemma md_invD:
  assumes "md_inv d"
  shows "distinct (map fst (entries d))" "distinct (map (CreatedSeq \<circ> snd) (entries d))"
    "(i, e) \<in> set (entries d) \<Longrightarrow> entry_ok d (i, e)"
    "byKey d k = Some i \<Longrightarrow> \<exists>e. (i, e) \<in> set (entries d) \<and> EKey e = k"
    "usedBytes d = sum_sizes (entries d)" "usedBytes d \<le> capBytes d"
  using assms by (auto simp: md_inv_def list_all_iff)

lemma md_inv_map_of: "md_inv d \<Longrightarrow> map_of (entries d) i = Some e \<longleftrightarrow> (i, e) \<in> set (entries d)"
  by (simp add: md_invD)

lemma sum_sizes_append [simp]: "sum_sizes (xs @ ys) = sum_sizes xs + sum_sizes ys"
  by (simp add: sum_sizes_def)

lemma sum_sizes_delete:
  assumes "distinct (map fst es)" "(i, e) \<in> set es"
  shows "sum_sizes (AList.delete i es) = sum_sizes es - ESize e"
proof -
  obtain xs ys where es: "es = xs @ (i, e) # ys" using assms(2) by (meson split_list)
  with assms(1) have "i \<notin> fst ` set xs" "i \<notin> fst ` set ys" by auto
  then have "AList.delete i es = xs @ ys" by (simp add: es delete_append delete_absent)
  then show ?thesis by (simp add: es sum_sizes_def)
qed

lemma sum_sizes_nonneg: "list_all (\<lambda>(_, e). 0 \<le> ESize e) es \<Longrightarrow> 0 \<le> sum_sizes es"
  by (induction es) (auto simp: sum_sizes_def)

lemma new_dictionary_inv: "new_dictionary cap = Inr d \<Longrightarrow> md_inv d \<and> capBytes d = cap"
  by (auto simp: new_dictionary_def md_inv_def sum_sizes_def split: if_splits)

subsection \<open>Touching\<close>

text \<open>The counters have not reached their last value.\<close>

definition not_exhausted :: "mem_dict \<Rightarrow> bool" where
  "not_exhausted d \<longleftrightarrow> nextID d < nextID d + 1 \<and> nextSeq d < nextSeq d + 1"

lemma touch_inv:
  assumes inv: "md_inv d" and seq: "not_exhausted d"
  shows "md_inv (touch i d) \<and> capBytes (touch i d) = capBytes d \<and> byKey (touch i d) = byKey d"
proof -
  let ?f = "\<lambda>(j, e). (j, if j = i then e\<lparr>LastUsedSeq := nextSeq d\<rparr> else e)"
  have t: "touch i d = d\<lparr>nextSeq := nextSeq d + 1, entries := map ?f (entries d)\<rparr>"
    by (simp add: touch_def alloc_seq_def Let_def)
  have keys: "map fst (map ?f es) = map fst es" "sum_sizes (map ?f es) = sum_sizes es"
      "map (CreatedSeq \<circ> snd) (map ?f es) = map (CreatedSeq \<circ> snd) es" for es
    by (induction es) (auto simp: sum_sizes_def)
  have "entry_ok (touch i d) (?f x)" if "x \<in> set (entries d)" for x
  proof -
    obtain j e where x: "x = (j, e)" by fastforce
    with inv that have "entry_ok d (j, e)" by (simp add: md_invD)
    then show ?thesis
      using seq unfolding x t not_exhausted_def by (auto simp: entry_ok_def intro: less_trans)
  qed
  moreover have "\<exists>e'. (j, e') \<in> set (map ?f (entries d)) \<and> EKey e' = k" if "byKey d k = Some j" for k j
  proof -
    from md_invD(4) [OF inv that] obtain e where "(j, e) \<in> set (entries d)" "EKey e = k" by blast
    have "(j, snd (?f (j, e))) \<in> ?f ` set (entries d)"
      by (rule image_eqI [where x = "(j, e)"]) (simp, fact)
    moreover have "EKey (snd (?f (j, e))) = k" using \<open>EKey e = k\<close> by simp
    ultimately show ?thesis unfolding set_map by blast
  qed
  moreover have "distinct (map fst (map ?f (entries d)))"
      "distinct (map (CreatedSeq \<circ> snd) (map ?f (entries d)))"
      "usedBytes d = sum_sizes (map ?f (entries d))"
    using md_invD(1,2,5) [OF inv] by (simp_all only: keys)
  ultimately have "md_inv (touch i d)"
    using md_invD(6) [OF inv] unfolding md_inv_def list_all_iff
    by (simp only: t mem_dict.simps) (simp del: map_map)
  then show ?thesis by (simp add: t)
qed

lemma map_of_touched:
  "map_of (map (\<lambda>(j, e). (j, if j = i then f e else e)) es) i = map_option f (map_of es i)"
  by (induction es) auto

lemma get_by_id_inv:
  assumes "md_inv d" "not_exhausted d" "get_by_id i d = (r, d')"
  shows "md_inv d' \<and> capBytes d' = capBytes d \<and> (r = None \<longrightarrow> d' = d)"
proof (cases "map_of (entries d) i")
  case None
  with assms show ?thesis by (simp add: get_by_id_def)
next
  case (Some e)
  with assms(3) have "d' = touch i d" "r \<noteq> None"
    by (auto simp: get_by_id_def Let_def touch_def alloc_seq_def map_of_touched)
  with touch_inv [OF assms(1,2)] show ?thesis by auto
qed

lemma get_by_key_inv:
  assumes "md_inv d" "not_exhausted d" "get_by_key k d = (r, d')"
  shows "md_inv d' \<and> capBytes d' = capBytes d \<and> (r = None \<longrightarrow> d' = d)"
  using assms get_by_id_inv by (auto simp: get_by_key_def split: option.splits)

text \<open>A lookup finds a key exactly when it is present, and returns its entry, touched.\<close>

lemma get_by_key_present:
  assumes inv: "md_inv d" and e: "(i, e) \<in> set (entries d)"
  shows "fst (get_by_key (EKey e) d) = Some (e\<lparr>LastUsedSeq := nextSeq d\<rparr>)"
proof -
  have ok: "byKey d (EKey e) = Some i" "map_of (entries d) i = Some e"
    using md_invD(3) [OF inv e] e md_inv_map_of [OF inv] by (auto simp: entry_ok_def)
  then show ?thesis
    by (simp add: get_by_key_def get_by_id_def Let_def touch_def alloc_seq_def map_of_touched)
qed

lemma get_by_key_absent:
  "byKey d k = None \<Longrightarrow> get_by_key k d = (None, d)"
  by (simp add: get_by_key_def)

subsection \<open>Deleting\<close>

lemma delete_id_present:
  assumes inv: "md_inv d" and e: "(i, e) \<in> set (entries d)"
  shows "delete_id i d = (True, d\<lparr>entries := AList.delete i (entries d),
      byKey := (byKey d)(EKey e := None), usedBytes := usedBytes d - ESize e\<rparr>)"
    and "md_inv (snd (delete_id i d))"
proof -
  let ?d = "d\<lparr>entries := AList.delete i (entries d),
      byKey := (byKey d)(EKey e := None), usedBytes := usedBytes d - ESize e\<rparr>"
  have ok: "entry_ok d x" if "x \<in> set (entries d)" for x
    using md_invD(3) [OF inv] that by (cases x) auto
  have sum: "usedBytes d - ESize e = sum_sizes (AList.delete i (entries d))"
    using sum_sizes_delete [OF md_invD(1) [OF inv] e] md_invD(5) [OF inv] by simp
  have "list_all (\<lambda>(_, e). 0 \<le> ESize e) (AList.delete i (entries d))"
    using ok by (fastforce simp: list_all_iff set_delete entry_ok_def)
  then have "0 \<le> usedBytes d - ESize e" unfolding sum by (rule sum_sizes_nonneg)
  moreover have "map_of (entries d) i = Some e" using e md_inv_map_of [OF inv] by simp
  ultimately show del: "delete_id i d = (True, ?d)" by (simp add: delete_id_def Let_def)
  have dist: "distinct (map fst (AList.delete i (entries d)))"
      "distinct (map (CreatedSeq \<circ> snd) (AList.delete i (entries d)))"
    using md_invD(1,2) [OF inv] by (simp_all add: delete_filter distinct_map_filter)
  have other: "EKey e' \<noteq> EKey e" if "(j, e') \<in> set (entries d)" "j \<noteq> i" for j e'
    using ok [OF e] ok [OF that(1)] that(2) by (auto simp: entry_ok_def)
  have "list_all (entry_ok ?d) (AList.delete i (entries d))"
    using ok other by (auto simp: list_all_iff set_delete entry_ok_def)
  moreover have "\<exists>e'. (j, e') \<in> set (AList.delete i (entries d)) \<and> EKey e' = k"
    if k: "byKey d k = Some j" "k \<noteq> EKey e" for k j
  proof -
    from md_invD(4) [OF inv k(1)] obtain e' where e': "(j, e') \<in> set (entries d)" "EKey e' = k"
      by blast
    have "j \<noteq> i"
    proof
      assume "j = i"
      with e' e md_invD(1) [OF inv] have "e' = e" by (metis eq_key_imp_eq_value)
      with e' k(2) show False by simp
    qed
    with e' show ?thesis by (auto simp: set_delete)
  qed
  moreover have "0 < ESize e" using ok [OF e] unfolding entry_ok_def prod.case by blast
  ultimately have "md_inv ?d"
    using inv dist sum unfolding md_inv_def by auto
  then show "md_inv (snd (delete_id i d))" by (simp add: del)
qed

lemma delete_id_inv:
  assumes "md_inv d"
  shows "md_inv (snd (delete_id i d)) \<and> capBytes (snd (delete_id i d)) = capBytes d"
proof (cases "map_of (entries d) i")
  case None
  with assms show ?thesis by (simp add: delete_id_def)
next
  case (Some e)
  then have e: "(i, e) \<in> set (entries d)" using md_inv_map_of [OF assms] by simp
  from delete_id_present [OF assms e] show ?thesis by simp
qed

lemma clear_inv: "0 \<le> capBytes d \<Longrightarrow> md_inv (clear d)"
  by (simp add: clear_def md_inv_def sum_sizes_def)


section \<open>Eviction\<close>

definition total_size :: "dict_entry list \<Rightarrow> int" where
  "total_size vs = sum_list (map ESize vs)"

lemma plan_victims_prefix:
  "plan_victims free need freed vs = (f, victims) \<Longrightarrow>
     \<exists>post. vs = victims @ post \<and> f = freed + total_size victims"
proof (induction vs arbitrary: freed f victims)
  case Nil
  then show ?case by (simp add: total_size_def)
next
  case (Cons v vs)
  obtain g ws where r: "plan_victims free need (freed + ESize v) vs = (g, ws)" by fastforce
  show ?case
  proof (cases "free + (freed + ESize v) \<ge> need")
    case True
    with Cons.prems have "victims = [v]" "f = freed + ESize v" by (simp_all add: Let_def)
    then show ?thesis by (simp add: total_size_def)
  next
    case False
    with Cons.prems r have "victims = v # ws" "f = g" by (simp_all add: Let_def)
    with Cons.IH [OF r] show ?thesis by (auto simp: total_size_def)
  qed
qed

lemma commit_victims_facts:
  assumes "md_inv d" "distinct (map EID vs)" "\<forall>v \<in> set vs. (EID v, v) \<in> set (entries d)"
    and "need \<le> free_bytes d + total_size vs" "commit_victims need vs d = (r, d')"
  shows "r \<and> need \<le> free_bytes d' \<and> md_inv d' \<and> capBytes d' = capBytes d \<and>
    nextID d' = nextID d \<and> nextSeq d' = nextSeq d \<and>
    (\<exists>pre post. vs = pre @ post \<and> entries d' = without (EID ` set pre) (entries d))"
  using assms
proof (induction vs arbitrary: d)
  case Nil
  then show ?case by (auto simp: total_size_def without_def)
next
  case (Cons v vs)
  let ?d = "snd (delete_id (EID v) d)"
  have v: "(EID v, v) \<in> set (entries d)" using Cons.prems(3) by simp
  note del = delete_id_present [OF Cons.prems(1) v]
  have ent: "entries ?d = AList.delete (EID v) (entries d)" by (simp add: del(1))
  have same: "capBytes ?d = capBytes d" "nextID ?d = nextID d" "nextSeq ?d = nextSeq d"
      "free_bytes ?d = free_bytes d + ESize v"
    by (simp_all add: del(1) free_bytes_def)
  show ?case
  proof (cases "free_bytes ?d \<ge> need")
    case True
    with Cons.prems(5) have "r" "d' = ?d" by (simp_all add: Let_def)
    moreover have "entries ?d = without (EID ` set [v]) (entries d)"
      by (simp add: ent delete_filter without_def)
    moreover have "v # vs = [v] @ vs" by simp
    ultimately show ?thesis using True same del(2) by metis
  next
    case False
    have "\<forall>w \<in> set vs. (EID w, w) \<in> set (entries ?d)"
    proof
      fix w
      assume w: "w \<in> set vs"
      then have "EID w \<in> EID ` set vs" by simp
      with Cons.prems(2) have "EID w \<noteq> EID v" by auto
      with Cons.prems(3) w show "(EID w, w) \<in> set (entries ?d)" by (simp add: ent set_delete)
    qed
    from Cons.IH [OF del(2) _ this] Cons.prems(2,4,5) False same
    have ih: "r \<and> need \<le> free_bytes d' \<and> md_inv d' \<and> capBytes d' = capBytes ?d \<and>
        nextID d' = nextID ?d \<and> nextSeq d' = nextSeq ?d \<and>
        (\<exists>pre post. vs = pre @ post \<and> entries d' = without (EID ` set pre) (entries ?d))"
      by (simp add: Let_def total_size_def)
    then obtain pre post where "vs = pre @ post" "entries d' = without (EID ` set pre) (entries ?d)"
      by blast
    then have "v # vs = (v # pre) @ post" "entries d' = without (EID ` set (v # pre)) (entries d)"
      by (simp_all add: ent without_delete)
    with ih same show ?thesis by metis
  qed
qed


text \<open>
  What the older half guarantees, whatever \<^verbatim>\<open>sort.Slice\<close> and \<^verbatim>\<open>range\<close> do: at least half of
  all entries have been created after each of its members.
\<close>

definition created_after :: "dict_entry \<Rightarrow> entry_map \<Rightarrow> nat" where
  "created_after e es = length (filter (\<lambda>x. CreatedSeq e < CreatedSeq (snd x)) es)"

lemma older_half_facts:
  assumes "slice_sort srt" "map_range rng" "distinct (map (CreatedSeq \<circ> snd) es)"
  shows "length (older_half srt rng es) = length es div 2"
    and "v \<in> set (older_half srt rng es) \<Longrightarrow> v \<in> snd ` set es"
    and "v \<in> set (older_half srt rng es) \<Longrightarrow> length es \<le> 2 * created_after v es"
    and "distinct (older_half srt rng es)"
proof -
  let ?all = "srt older (map snd (rng es))"
  have m: "mset ?all = mset (map snd es)"
    using slice_sort.mset_srt [OF assms(1)] map_range.mset_rng [OF assms(2)] by simp
  then have len: "length ?all = length es" using mset_eq_length [OF m] by simp
  show "length (older_half srt rng es) = length es div 2"
    by (simp add: older_half_def Let_def len)
  show mem: "v \<in> snd ` set es" if "v \<in> set (older_half srt rng es)"
    using that mset_eq_setD [OF m] by (auto simp: older_half_def Let_def dest: in_set_takeD)
  have "mset (map CreatedSeq ?all) = mset (map (CreatedSeq \<circ> snd) es)"
    by (simp add: m multiset.map_comp)
  then have dist: "distinct (map CreatedSeq ?all)"
    using assms(3) mset_eq_imp_distinct_iff by blast
  then show "distinct (older_half srt rng es)"
    by (simp add: older_half_def Let_def distinct_map)
  show "length es \<le> 2 * created_after v es" if v: "v \<in> set (older_half srt rng es)"
  proof -
    let ?n = "length ?all div 2"
    have vt: "v \<in> set (take ?n ?all)" using v by (simp add: older_half_def Let_def)
    have "CreatedSeq v < CreatedSeq w" if w: "w \<in> set (drop ?n ?all)" for w
    proof -
      have "CreatedSeq v \<le> CreatedSeq w"
        using slice_sort.cut_le [OF assms(1), of v ?n CreatedSeq "map snd (rng es)" w] vt w
        by (simp add: older_def [abs_def])
      moreover have "CreatedSeq v \<noteq> CreatedSeq w"
      proof -
        have "distinct (map CreatedSeq (take ?n ?all) @ map CreatedSeq (drop ?n ?all))"
          using dist by (metis append_take_drop_id map_append)
        with vt w show ?thesis by auto
      qed
      ultimately show ?thesis by simp
    qed
    then have "filter (\<lambda>w. CreatedSeq v < CreatedSeq w) (drop ?n ?all) = drop ?n ?all"
      by (simp add: filter_id_conv)
    then have "length (drop ?n ?all) \<le> length (filter (\<lambda>w. CreatedSeq v < CreatedSeq w) ?all)"
      by (metis append_take_drop_id filter_append le_add2 length_append)
    also have "\<dots> = length (filter (\<lambda>w. CreatedSeq v < CreatedSeq w) (map snd es))"
      by (metis m mset_filter size_mset)
    also have "\<dots> = created_after v es"
      by (simp add: created_after_def filter_map comp_def)
    finally show ?thesis by (simp add: len)
  qed
qed

text \<open>What an eviction does: nothing when it fails, old entries only when it succeeds.\<close>

lemma evict_to_fit_facts:
  assumes srt: "slice_sort srt" and rng: "map_range rng" and inv: "md_inv d"
    and run: "evict_to_fit srt rng need d = (r, d')"
  shows "\<not> r \<longrightarrow> d' = d"
    and "r \<longrightarrow> need \<le> free_bytes d' \<and> md_inv d' \<and> capBytes d' = capBytes d \<and>
      nextID d' = nextID d \<and> nextSeq d' = nextSeq d \<and>
      (\<exists>vs. (\<forall>v \<in> set vs. v \<in> snd ` set (entries d) \<and>
              length (entries d) \<le> 2 * created_after v (entries d)) \<and>
        entries d' = without (EID ` set vs) (entries d))"
proof -
  let ?half = "older_half srt rng (entries d)"
  let ?sorted = "srt less_used ?half"
  note half = older_half_facts [OF srt rng md_invD(2) [OF inv]]
  have "(\<not> r \<longrightarrow> d' = d) \<and> (r \<longrightarrow> need \<le> free_bytes d' \<and> md_inv d' \<and> capBytes d' = capBytes d \<and>
      nextID d' = nextID d \<and> nextSeq d' = nextSeq d \<and>
      (\<exists>vs. (\<forall>v \<in> set vs. v \<in> snd ` set (entries d) \<and>
              length (entries d) \<le> 2 * created_after v (entries d)) \<and>
        entries d' = without (EID ` set vs) (entries d)))"
  proof (cases "need \<le> free_bytes d")
    case True
    with run have "r" "d' = d" by (simp_all add: evict_to_fit_def Let_def)
    moreover have "entries d = without (EID ` set []) (entries d)" by (simp add: without_def)
    ultimately show ?thesis using inv True by (metis empty_iff list.set(1))
  next
    case small: False
    show ?thesis
    proof (cases "length (entries d) = 0 \<or> length ?half = 0")
      case True
      with small run have "\<not> r" "d' = d"
        unfolding evict_to_fit_def Let_def by (simp_all split: if_splits)
      then show ?thesis by simp
    next
      case False
      obtain f victims where plan: "plan_victims (free_bytes d) need 0 ?sorted = (f, victims)"
        by fastforce
      from plan_victims_prefix [OF plan] obtain post where
        pre: "?sorted = victims @ post" "f = total_size victims" by auto
      have step: "(r, d') = (if free_bytes d + f < need then (False, d) else commit_victims need victims d)"
        using run small False plan unfolding evict_to_fit_def Let_def by simp
      show ?thesis
      proof (cases "free_bytes d + f < need")
        case True
        with step show ?thesis by simp
      next
        case fits: False
        have vset: "set victims \<subseteq> set ?half"
          using arg_cong [OF pre(1), of set] slice_sort.set_srt [OF srt, of less_used ?half] by auto
        have vin: "(EID v, v) \<in> set (entries d)" if "v \<in> set victims" for v
        proof -
          from that vset half(2) obtain i where i: "(i, v) \<in> set (entries d)" by force
          with md_invD(3) [OF inv i] show ?thesis by (simp add: entry_ok_def)
        qed
        have "distinct ?sorted" using slice_sort.distinct_srt [OF srt] half(4) by blast
        then have dv: "distinct victims" using pre(1) by simp
        have "inj_on EID (set victims)"
          using vin md_invD(1) [OF inv] by (intro inj_onI) (metis eq_key_imp_eq_value)
        with dv have "distinct (map EID victims)" by (simp add: distinct_map)
        from commit_victims_facts [OF inv this _ _ , of need r d'] vin step fits pre(2)
        have c: "r" "need \<le> free_bytes d'" "md_inv d'" "capBytes d' = capBytes d"
          "nextID d' = nextID d" "nextSeq d' = nextSeq d"
          "\<exists>pre post. victims = pre @ post \<and> entries d' = without (EID ` set pre) (entries d)"
          by auto
        then obtain us ws where us: "victims = us @ ws" "entries d' = without (EID ` set us) (entries d)"
          by blast
        have "\<forall>v \<in> set us. v \<in> snd ` set (entries d) \<and>
            length (entries d) \<le> 2 * created_after v (entries d)"
          using us(1) vset half(2,3) by auto
        with c us(2) show ?thesis by blast
      qed
    qed
  qed
  then show "\<not> r \<longrightarrow> d' = d"
    and "r \<longrightarrow> need \<le> free_bytes d' \<and> md_inv d' \<and> capBytes d' = capBytes d \<and>
      nextID d' = nextID d \<and> nextSeq d' = nextSeq d \<and>
      (\<exists>vs. (\<forall>v \<in> set vs. v \<in> snd ` set (entries d) \<and>
              length (entries d) \<le> 2 * created_after v (entries d)) \<and>
        entries d' = without (EID ` set vs) (entries d))"
    by blast+
qed


section \<open>Insertion\<close>

lemma insert_inv:
  assumes inv: "md_inv d" and ne: "not_exhausted d" and new: "byKey d key = None"
    and b: "b \<noteq> []" and fits: "int (length b) \<le> free_bytes d"
  defines "e \<equiv> \<lparr>EID = nextID d, EKey = key, EBytes = b, ESize = int (length b),
      CreatedSeq = nextSeq d, LastUsedSeq = nextSeq d\<rparr>"
  defines "d' \<equiv> d\<lparr>nextID := nextID d + 1, nextSeq := nextSeq d + 1,
      entries := AList.update (nextID d) e (entries d), byKey := (byKey d)(key \<mapsto> nextID d),
      usedBytes := usedBytes d + ESize e\<rparr>"
  shows "md_inv d' \<and> map_of (entries d') (nextID d) = Some e"
proof -
  have ok: "entry_ok d x" if "x \<in> set (entries d)" for x
    using md_invD(3) [OF inv] that by (cases x) auto
  have fresh: "nextID d \<notin> fst ` set (entries d)" "nextSeq d \<notin> (CreatedSeq \<circ> snd) ` set (entries d)"
    using ok by (force simp: entry_ok_def)+
  have ents: "entries d' = entries d @ [(nextID d, e)]"
    using update_absent [OF fresh(1)] by (simp add: d'_def)
  have "entry_ok d' x" if "x \<in> set (entries d)" for x
    using ok [OF that] ne new
    by (auto simp: entry_ok_def d'_def not_exhausted_def split: prod.splits intro: less_trans)
  moreover have "entry_ok d' (nextID d, e)"
    using ne b by (simp add: entry_ok_def d'_def e_def not_exhausted_def)
  moreover have "distinct (map fst (entries d'))" "distinct (map (CreatedSeq \<circ> snd) (entries d'))"
    using md_invD(1,2) [OF inv] fresh by (simp_all add: ents e_def)
  moreover have "usedBytes d' = sum_sizes (entries d')" "usedBytes d' \<le> capBytes d'"
    using md_invD(5) [OF inv] fits by (simp_all add: ents, simp_all add: d'_def e_def sum_sizes_def free_bytes_def)
  moreover have "\<exists>e'. (i, e') \<in> set (entries d') \<and> EKey e' = k" if "byKey d' k = Some i" for k i
  proof (cases "k = key")
    case True
    with that have "i = nextID d" by (simp add: d'_def)
    moreover have "EKey e = key" by (simp add: e_def)
    ultimately show ?thesis unfolding ents using True by (intro exI [of _ e]) simp
  next
    case False
    with that have "byKey d k = Some i" by (simp add: d'_def)
    from md_invD(4) [OF inv this] show ?thesis by (auto simp: ents)
  qed
  ultimately have "md_inv d'" unfolding md_inv_def by (simp add: ents list_all_iff)
  moreover have "map_of (entries d') (nextID d) = Some e"
    using fresh(1) by (simp add: ents map_add_Some_iff map_of_eq_None_iff)
  ultimately show ?thesis by blast
qed

text \<open>The three outcomes of \<^verbatim>\<open>AddCandidate\<close>.\<close>

lemma add_candidate_cases:
  assumes srt: "slice_sort srt" and rng: "map_range rng" and inv: "md_inv d" and ne: "not_exhausted d"
    and run: "add_candidate srt rng key b d = ((r, ins), d')"
  obtains (rejected) "r = None" "\<not> ins" "d' = d"
  | (existing) x where "r = Some x" "\<not> ins" "get_by_key key d = (Some x, d')"
  | (inserted) x vs where "r = Some x" "ins" "EKey x = key" "EBytes x = b" "byKey d key = None"
      "\<forall>v \<in> set vs. v \<in> snd ` set (entries d) \<and> length (entries d) \<le> 2 * created_after v (entries d)"
      "entries d' = without (EID ` set vs) (entries d) @ [(EID x, x)]" "md_inv d'"
      "capBytes d' = capBytes d" "map_of (entries d') (EID x) = Some x"
proof -
  show thesis
  proof (cases "b = []")
    case True
    with run show thesis by (intro rejected) (auto simp: add_candidate_def)
  next
    case b: False
    obtain g d1 where g: "get_by_key key d = (g, d1)" by fastforce
    show thesis
    proof (cases g)
      case (Some x)
      with run b g show thesis by (intro existing [of x]) (auto simp: add_candidate_def)
    next
      case None
      with get_by_key_inv [OF inv ne g] have d1: "d1 = d" by simp
      have absent: "byKey d key = None"
      proof (rule ccontr)
        assume "byKey d key \<noteq> None"
        then obtain i where "byKey d key = Some i" by blast
        from md_invD(4) [OF inv this] obtain e where "(i, e) \<in> set (entries d)" "EKey e = key" by blast
        with get_by_key_present [OF inv] g None show False by fastforce
      qed
      let ?need = "int (length b)"
      obtain fit d2 where fit: "(if free_bytes d < ?need then evict_to_fit srt rng ?need d
          else (True, d)) = (fit, d2)"
        by fastforce
      have ev: "fit \<longrightarrow> ?need \<le> free_bytes d2 \<and> md_inv d2 \<and> capBytes d2 = capBytes d \<and>
          nextID d2 = nextID d \<and> nextSeq d2 = nextSeq d \<and>
          (\<exists>vs. (\<forall>v \<in> set vs. v \<in> snd ` set (entries d) \<and>
                  length (entries d) \<le> 2 * created_after v (entries d)) \<and>
            entries d2 = without (EID ` set vs) (entries d))" "\<not> fit \<longrightarrow> d2 = d"
      proof -
        have "without (EID ` set []) (entries d) = entries d" by (simp add: without_def)
        then have same: "\<exists>vs. (\<forall>v \<in> set vs. v \<in> snd ` set (entries d) \<and>
              length (entries d) \<le> 2 * created_after v (entries d)) \<and>
            entries d = without (EID ` set vs) (entries d)"
          by (metis empty_iff list.set(1))
        show "fit \<longrightarrow> ?need \<le> free_bytes d2 \<and> md_inv d2 \<and> capBytes d2 = capBytes d \<and>
            nextID d2 = nextID d \<and> nextSeq d2 = nextSeq d \<and>
            (\<exists>vs. (\<forall>v \<in> set vs. v \<in> snd ` set (entries d) \<and>
                    length (entries d) \<le> 2 * created_after v (entries d)) \<and>
              entries d2 = without (EID ` set vs) (entries d))" "\<not> fit \<longrightarrow> d2 = d"
          using fit evict_to_fit_facts [OF srt rng inv, of ?need fit d2] inv same
          by (auto split: if_splits)
      qed
      show thesis
      proof (cases "?need > capBytes d \<or> \<not> fit")
        case True
        with run b g None d1 fit have "r = None" "\<not> ins" "d' = d"
          using ev(2) by (auto simp: add_candidate_def Let_def split: if_splits)
        then show thesis by (rule rejected)
      next
        case False
        let ?e = "\<lparr>EID = nextID d2, EKey = key, EBytes = b, ESize = ?need,
            CreatedSeq = nextSeq d2, LastUsedSeq = nextSeq d2\<rparr>"
        from False run b g None d1 fit have out: "r = Some ?e" "ins"
          "d' = d2\<lparr>nextID := nextID d2 + 1, nextSeq := nextSeq d2 + 1,
            entries := AList.update (nextID d2) ?e (entries d2), byKey := (byKey d2)(key \<mapsto> nextID d2),
            usedBytes := usedBytes d2 + ESize ?e\<rparr>"
          by (auto simp: add_candidate_def Let_def alloc_id_def alloc_seq_def)
        obtain vs where vs: "\<forall>v \<in> set vs. v \<in> snd ` set (entries d) \<and>
              length (entries d) \<le> 2 * created_after v (entries d)"
            "entries d2 = without (EID ` set vs) (entries d)"
          and e2: "?need \<le> free_bytes d2" "md_inv d2" "capBytes d2 = capBytes d"
            "nextID d2 = nextID d" "nextSeq d2 = nextSeq d"
          using ev(1) False by blast
        have ne2: "not_exhausted d2" using ne e2 by (simp add: not_exhausted_def)
        have absent2: "byKey d2 key = None"
        proof (rule ccontr)
          assume "byKey d2 key \<noteq> None"
          then obtain i where "byKey d2 key = Some i" by blast
          from md_invD(4) [OF e2(2) this] obtain e where e: "(i, e) \<in> set (entries d2)" "EKey e = key"
            by blast
          then have "(i, e) \<in> set (entries d)" by (simp add: vs(2) without_def)
          with md_invD(3) [OF inv this] e(2) absent show False by (simp add: entry_ok_def)
        qed
        note ins = insert_inv [OF e2(2) ne2 absent2 b e2(1), folded out(3)]
        have "nextID d2 \<notin> fst ` set (entries d2)"
          using md_invD(3) [OF e2(2)] by (force simp: entry_ok_def)
        then have "entries d' = without (EID ` set vs) (entries d) @ [(EID ?e, ?e)]"
          using update_absent by (simp add: out(3) vs(2))
        moreover have "capBytes d' = capBytes d" using e2(3) by (simp add: out(3))
        ultimately show thesis
          using inserted [of ?e vs] out(1,2) absent vs(1) ins by simp
      qed
    qed
  qed
qed


section \<open>The cache as a bounded store\<close>

text \<open>The operations a user can call; the counters must not wrap around.\<close>

inductive md_step :: "mem_dict \<Rightarrow> mem_dict \<Rightarrow> bool" where
  get_id: "not_exhausted d \<Longrightarrow> get_by_id i d = (r, d') \<Longrightarrow> md_step d d'"
| get_key: "not_exhausted d \<Longrightarrow> get_by_key k d = (r, d') \<Longrightarrow> md_step d d'"
| add: "not_exhausted d \<Longrightarrow> slice_sort srt \<Longrightarrow> map_range rng \<Longrightarrow>
    add_candidate srt rng k b d = (r, d') \<Longrightarrow> md_step d d'"
| remove: "delete_id i d = (r, d') \<Longrightarrow> md_step d d'"
| clear: "md_step d (clear d)"

lemma md_inv_used: "md_inv d \<Longrightarrow> 0 \<le> md_used d \<and> md_used d \<le> md_cap d"
proof -
  assume inv: "md_inv d"
  have "list_all (\<lambda>(_, e). 0 \<le> ESize e) (entries d)"
    using md_invD(3) [OF inv] by (fastforce simp: list_all_iff entry_ok_def)
  then show ?thesis
    using sum_sizes_nonneg md_invD(5,6) [OF inv] by (simp add: md_used_def md_cap_def)
qed

lemma md_step_inv: "md_step d d' \<Longrightarrow> md_inv d \<Longrightarrow> md_inv d' \<and> md_cap d' = md_cap d"
proof (induction rule: md_step.induct)
  case (get_id d i r d')
  with get_by_id_inv show ?case by (simp add: md_cap_def)
next
  case (get_key d k r d')
  with get_by_key_inv show ?case by (simp add: md_cap_def)
next
  case (add d srt rng k b r d')
  obtain x ins where r: "r = (x, ins)" by fastforce
  from add.hyps(2,3) add.prems add.hyps(1) add.hyps(4) [unfolded r] show ?case
  proof (cases rule: add_candidate_cases)
    case rejected
    with add.prems show ?thesis by simp
  next
    case (existing y)
    with get_by_key_inv [OF add.prems add.hyps(1)] show ?thesis by (simp add: md_cap_def)
  next
    case (inserted y vs)
    then show ?thesis by (simp add: md_cap_def)
  qed
next
  case (remove i d r d')
  with delete_id_inv [OF remove.prems, of i] show ?case by (simp add: md_cap_def)
next
  case (clear d)
  from md_inv_used [OF clear] have "0 \<le> capBytes d" by (simp add: md_cap_def)
  then show ?case by (simp add: clear_inv) (simp add: clear_def md_cap_def)
qed

interpretation cache: capped_store md_used md_cap md_inv md_step
  by unfold_locales (use md_inv_used md_step_inv in blast)+

section \<open>Properties\<close>

text \<open>
  C34: The cache never exceeds its cap. Starting from \<^verbatim>\<open>NewDictionary(cap)\<close>, after any sequence of
  lookups, insertions, deletions and clears, the bytes in use are between 0 and the cap and
  are exactly the sizes of the entries present, whatever \<^verbatim>\<open>sort.Slice\<close> and the map order do.
  The steps leave out the wrap-around of the counters: lookups and insertions happen while
  neither the 32-bit \<^verbatim>\<open>nextID\<close> nor the 64-bit \<^verbatim>\<open>nextSeq\<close> is at its last value.
\<close>

theorem memory_dictionary_bounded:
  assumes "new_dictionary cap = Inr start" "md_step\<^sup>*\<^sup>* start d"
  shows "0 \<le> md_used d \<and> md_used d \<le> cap \<and>
    md_used d = sum_list (map (\<lambda>(_, e). int (length (EBytes e))) (entries d))"
proof -
  from new_dictionary_inv [OF assms(1)] have start: "md_inv start" "capBytes start = cap" by simp_all
  note bounds = cache.never_exceeds [OF assms(2) start(1)]
  have inv: "md_inv d" using cache.steps_inv [OF assms(2) start(1)] by simp
  have "map (\<lambda>(_, e). ESize e) (entries d) = map (\<lambda>(_, e). int (length (EBytes e))) (entries d)"
    using md_invD(3) [OF inv] by (auto simp: entry_ok_def)
  with bounds start(2) md_invD(5) [OF inv] show ?thesis
    by (simp add: md_used_def md_cap_def sum_sizes_def)
qed

definition sample_dict :: mem_dict where
  "sample_dict = \<lparr>capBytes = 8, usedBytes = 6, nextID = 3, nextSeq = 3,
     entries = [(1, \<lparr>EID = 1, EKey = [65], EBytes = [1, 2, 3], ESize = 3, CreatedSeq = 1, LastUsedSeq = 1\<rparr>),
                (2, \<lparr>EID = 2, EKey = [66], EBytes = [4, 5, 6], ESize = 3, CreatedSeq = 2, LastUsedSeq = 2\<rparr>)],
     byKey = [[65] \<mapsto> 1, [66] \<mapsto> 2]\<rparr>"

text \<open>
  C35: Insertion and eviction. When \<^verbatim>\<open>AddCandidate\<close> inserts, the new entry holds the given
  bytes under the given key and can be found under both; every other entry of the result was
  there before unchanged; and an entry that is gone belonged to the older half: at least half
  of all entries were created after it. When it returns nil, nothing at all has changed.
\<close>

theorem add_candidate_guarded:
  assumes "slice_sort srt" "map_range rng" "md_inv d" "not_exhausted d"
    and run: "add_candidate srt rng key b d = ((r, ins), d')"
  shows "(r = None \<longrightarrow> d' = d \<and> \<not> ins) \<and>
    (ins \<longrightarrow> (\<exists>x. r = Some x \<and> EKey x = key \<and> EBytes x = b \<and> byKey d' key = Some (EID x) \<and>
       (EID x, x) \<in> set (entries d') \<and>
       set (entries d') - {(EID x, x)} \<subseteq> set (entries d) \<and>
       (\<forall>(i, e) \<in> set (entries d) - set (entries d'). length (entries d) \<le> 2 * created_after e (entries d))))"
  using assms
proof (cases rule: add_candidate_cases)
  case rejected
  then show ?thesis by simp
next
  case (existing x)
  then show ?thesis by simp
next
  case (inserted x vs)
  have "(EID x, x) \<in> set (entries d')" using inserted(7) by simp
  moreover from md_invD(3) [OF inserted(8) this] have "byKey d' key = Some (EID x)"
    using inserted(3) by (simp add: entry_ok_def)
  moreover have "set (entries d') - {(EID x, x)} \<subseteq> set (entries d)"
    by (auto simp: inserted(7) without_def)
  moreover have "length (entries d) \<le> 2 * created_after e (entries d)"
    if ie: "(i, e) \<in> set (entries d)" "(i, e) \<notin> set (entries d')" for i e
  proof -
    from ie obtain v where v: "v \<in> set vs" "i = EID v" by (auto simp: inserted(7) without_def)
    with inserted(6) obtain j where "(j, v) \<in> set (entries d)" by force
    with md_invD(3) [OF assms(3) this] v(2) have "(i, v) \<in> set (entries d)" by (simp add: entry_ok_def)
    with ie(1) md_invD(1) [OF assms(3)] have "e = v" by (metis eq_key_imp_eq_value)
    with inserted(6) v(1) show ?thesis by blast
  qed
  ultimately show ?thesis using inserted(1-4) by auto
qed

text \<open>
  A key that is present is never replaced. \<^verbatim>\<open>AddCandidate\<close> returns the existing entry with
  its old bytes, marked as used, and inserts nothing.
\<close>

theorem add_candidate_keeps_existing:
  assumes "md_inv d" "(i, e) \<in> set (entries d)" "b \<noteq> []"
  shows "fst (add_candidate srt rng (EKey e) b d) = (Some (e\<lparr>LastUsedSeq := nextSeq d\<rparr>), False)"
  using get_by_key_present [OF assms(1,2)] assms(3)
  by (cases "get_by_key (EKey e) d") (simp add: add_candidate_def)

lemma sample_dict_inv: "md_inv sample_dict" "not_exhausted sample_dict"
  by (auto simp: md_inv_def sample_dict_def entry_ok_def sum_sizes_def not_exhausted_def
      split: if_splits)

theorem add_candidate_keeps_existing_witness:
  "fst (add_candidate go_insertion_sort range_in_order [65] [9, 9] sample_dict) =
     (Some \<lparr>EID = 1, EKey = [65], EBytes = [1, 2, 3], ESize = 3, CreatedSeq = 1, LastUsedSeq = 3\<rparr>, False)"
  using add_candidate_keeps_existing [OF sample_dict_inv(1), of 1
      "\<lparr>EID = 1, EKey = [65], EBytes = [1, 2, 3], ESize = 3, CreatedSeq = 1, LastUsedSeq = 1\<rparr>" "[9, 9]"]
  by (simp add: sample_dict_def)

lemma sample_add:
  "add_candidate go_insertion_sort range_in_order [67] [7, 8, 9] sample_dict =
     ((Some \<lparr>EID = 3, EKey = [67], EBytes = [7, 8, 9], ESize = 3, CreatedSeq = 3, LastUsedSeq = 3\<rparr>, True),
      \<lparr>capBytes = 8, usedBytes = 6, nextID = 4, nextSeq = 4,
       entries = [(2, \<lparr>EID = 2, EKey = [66], EBytes = [4, 5, 6], ESize = 3, CreatedSeq = 2, LastUsedSeq = 2\<rparr>),
                  (3, \<lparr>EID = 3, EKey = [67], EBytes = [7, 8, 9], ESize = 3, CreatedSeq = 3, LastUsedSeq = 3\<rparr>)],
       byKey = [[66] \<mapsto> 2, [67] \<mapsto> 3]\<rparr>)"
  by (auto simp: sample_dict_def add_candidate_def get_by_key_def free_bytes_def evict_to_fit_def
      older_half_def go_insertion_sort_def go_insert_def older_def less_used_def range_in_order_def
      delete_id_def alloc_id_def alloc_seq_def Let_def fun_eq_iff)

theorem add_candidate_guarded_witness:
  "\<exists>x d'. add_candidate go_insertion_sort range_in_order [67] [7, 8, 9] sample_dict = ((Some x, True), d') \<and>
     byKey d' [67] = Some (EID x) \<and> set (entries d') - {(EID x, x)} \<subseteq> set (entries sample_dict) \<and>
     (\<forall>(i, e) \<in> set (entries sample_dict) - set (entries d').
        length (entries sample_dict) \<le> 2 * created_after e (entries sample_dict))"
  using add_candidate_guarded [OF insertion.slice_sort_axioms in_order.map_range_axioms
      sample_dict_inv sample_add] sample_add by blast

definition small_dict :: mem_dict where
  "small_dict = \<lparr>capBytes = 8, usedBytes = 0, nextID = 1, nextSeq = 1, entries = [], byKey = Map.empty\<rparr>"

lemma small_add:
  "add_candidate go_insertion_sort range_in_order [65] [1, 2, 3] small_dict =
     ((Some \<lparr>EID = 1, EKey = [65], EBytes = [1, 2, 3], ESize = 3, CreatedSeq = 1, LastUsedSeq = 1\<rparr>, True),
      \<lparr>capBytes = 8, usedBytes = 3, nextID = 2, nextSeq = 2,
       entries = [(1, \<lparr>EID = 1, EKey = [65], EBytes = [1, 2, 3], ESize = 3, CreatedSeq = 1, LastUsedSeq = 1\<rparr>)],
       byKey = [[65] \<mapsto> 1]\<rparr>)"
  by (simp add: small_dict_def add_candidate_def get_by_key_def free_bytes_def alloc_id_def alloc_seq_def
      Let_def)

theorem memory_dictionary_bounded_witness:
  "\<exists>d. md_step\<^sup>*\<^sup>* small_dict d \<and> md_used d = 3 \<and> md_used d \<le> 8"
proof -
  let ?d = "snd (add_candidate go_insertion_sort range_in_order [65] [1, 2, 3] small_dict)"
  have "md_step small_dict ?d"
    by (rule md_step.add [OF _ insertion.slice_sort_axioms in_order.map_range_axioms prod.collapse [symmetric]])
      (simp add: small_dict_def not_exhausted_def)
  then have step: "md_step\<^sup>*\<^sup>* small_dict ?d" by simp
  have "new_dictionary 8 = Inr small_dict" by (simp add: new_dictionary_def small_dict_def)
  from memory_dictionary_bounded [OF this step] have "md_used ?d \<le> 8" by simp
  moreover have "md_used ?d = 3" by (simp add: small_add md_used_def)
  ultimately show ?thesis using step by blast
qed

end
