(* ===== verification/Mem_Eviction.thy ===== *)
theory Mem_Eviction
  imports Mem_Dictionary "HOL-Library.Sublist"
begin

text \<open>
  The eviction of the pattern cache is deterministic. \<^verbatim>\<open>evictToFit\<close> ranges over a map and
  calls \<^verbatim>\<open>sort.Slice\<close>, both of which Go leaves partly open; creation numbers are distinct, so
  each of the two comparisons orders the entries strictly and only one result is possible. The
  second comparison is the order of the ranks \<open>lru_rank\<close>.
\<close>

section \<open>The order of use\<close>

datatype lru_rank = LRU_Rank (last_used: u64) (created: u64)

instantiation lru_rank :: linorder
begin

definition less_eq_lru_rank :: "lru_rank \<Rightarrow> lru_rank \<Rightarrow> bool" where
  "r \<le> s \<longleftrightarrow> last_used r < last_used s \<or> last_used r = last_used s \<and> created r \<le> created s"

definition less_lru_rank :: "lru_rank \<Rightarrow> lru_rank \<Rightarrow> bool" where
  "r < s \<longleftrightarrow> last_used r < last_used s \<or> last_used r = last_used s \<and> created r < created s"

instance
proof
  fix r s t :: lru_rank
  show "r < s \<longleftrightarrow> r \<le> s \<and> \<not> s \<le> r" and "r \<le> r" and "r \<le> s \<or> s \<le> r"
    by (auto simp: less_eq_lru_rank_def less_lru_rank_def)
  show "r \<le> t" if "r \<le> s" "s \<le> t"
    using that unfolding less_eq_lru_rank_def by (elim disjE conjE) auto
  show "r = s" if "r \<le> s" "s \<le> r"
    using that unfolding less_eq_lru_rank_def by (auto intro: lru_rank.expand)
qed

end

definition rank_of :: "dict_entry \<Rightarrow> lru_rank" where
  "rank_of e = LRU_Rank (LastUsedSeq e) (CreatedSeq e)"

lemma less_used_rank: "less_used = (\<lambda>e1 e2. rank_of e1 < rank_of e2)"
  by (intro ext) (simp add: less_used_def rank_of_def less_lru_rank_def)

lemma older_created: "older = (\<lambda>e1 e2. CreatedSeq e1 < CreatedSeq e2)"
  by (intro ext) (simp add: older_def)

lemma inj_on_rank_of:
  assumes "inj_on CreatedSeq A"
  shows "inj_on rank_of A"
  using assms by (auto simp: inj_on_def rank_of_def)

section \<open>Only one result\<close>

context slice_sort
begin

text \<open>A key that tells the elements apart leaves the sort no choice, whatever their order was.\<close>

lemma srt_inj_key:
  fixes f :: "'a \<Rightarrow> 'k::linorder"
  assumes "inj_on f (set ys)" "mset xs = mset ys"
  shows "srt (\<lambda>x y. f x < f y) xs = sort_key f ys"
proof -
  have "sorted (map f (srt (\<lambda>x y. f x < f y) xs))"
    using sorted_by_key [of f xs] by (simp add: sorted_wrt_map)
  moreover have "mset ys = mset (srt (\<lambda>x y. f x < f y) xs)" using assms(2) by (simp add: mset_srt)
  ultimately show ?thesis using assms(1) by (metis sort_key_inj_key_eq)
qed

end

lemma older_half_unique:
  assumes "slice_sort srt" "map_range rng" and inj: "inj_on CreatedSeq (snd ` set es)"
  shows "older_half srt rng es = take (length es div 2) (sort_key CreatedSeq (map snd es))"
proof -
  have "srt older (map snd (rng es)) = sort_key CreatedSeq (map snd es)"
    unfolding older_created
    by (rule slice_sort.srt_inj_key [OF assms(1)])
      (simp_all add: inj map_range.mset_rng [OF assms(2)])
  then show ?thesis by (simp add: older_half_def)
qed

text \<open>The entries that may go, the first to go first.\<close>

definition lru_order :: "mem_dict \<Rightarrow> dict_entry list" where
  "lru_order d =
     sort_key rank_of (take (length (entries d) div 2) (sort_key CreatedSeq (map snd (entries d))))"

lemma md_inv_created: "md_inv d \<Longrightarrow> inj_on CreatedSeq (snd ` set (entries d))"
  using md_invD(2) [of d] by (auto simp: distinct_map inj_on_def)

lemma set_older: "set (take n (sort_key CreatedSeq (map snd es))) \<subseteq> snd ` set es"
  using set_take_subset by fastforce

lemma lru_order_unique:
  assumes "slice_sort srt" "map_range rng" "md_inv d"
  shows "srt less_used (older_half srt rng (entries d)) = lru_order d"
proof -
  note inj = md_inv_created [OF assms(3)]
  show ?thesis
    unfolding older_half_unique [OF assms(1,2) inj] lru_order_def less_used_rank
    by (rule slice_sort.srt_inj_key [OF assms(1) inj_on_rank_of [OF inj_on_subset [OF inj set_older]] refl])
qed

section \<open>What is evicted\<close>

definition remove_entries :: "dict_entry list \<Rightarrow> mem_dict \<Rightarrow> mem_dict" where
  "remove_entries vs d =
     d\<lparr>entries := without (EID ` set vs) (entries d), byKey := byKey d |` (- (EKey ` set vs)),
       usedBytes := usedBytes d - total_size vs\<rparr>"

text \<open>
  The reference: remove the shortest run of entries, in the order of use, after which the
  new entry fits; remove nothing when even the whole older half would not be enough.
\<close>

definition lru_evict :: "int \<Rightarrow> mem_dict \<Rightarrow> bool \<times> mem_dict" where
  "lru_evict need d =
     (case find (\<lambda>vs. need \<le> free_bytes d + total_size vs) (prefixes (lru_order d)) of
        None \<Rightarrow> (False, d)
      | Some vs \<Rightarrow> (True, remove_entries vs d))"

lemma total_size_simps [simp]: "total_size [] = 0" "total_size (v # vs) = ESize v + total_size vs"
  by (simp_all add: total_size_def)

lemma find_map_comp: "find P (map f xs) = map_option f (find (P \<circ> f) xs)"
  by (induction xs) simp_all

lemma find_prefixes_Cons:
  "find P (prefixes (v # vs)) =
     (if P [] then Some [] else map_option ((#) v) (find (\<lambda>ws. P (v # ws)) (prefixes vs)))"
  by (simp add: find_map_comp comp_def)

lemma find_prefixes_Nil: "P [] \<Longrightarrow> find P (prefixes vs) = Some []"
  by (cases vs) simp_all

lemma remove_entries_Nil [simp]: "remove_entries [] d = d"
  by (cases d) (simp add: remove_entries_def restrict_map_def)

lemma remove_entries_Cons:
  assumes "md_inv d" "(EID v, v) \<in> set (entries d)"
  shows "remove_entries (v # vs) d = remove_entries vs (snd (delete_id (EID v) d))"
  by (simp add: remove_entries_def delete_id_present(1) [OF assms] without_delete
      restrict_map_def fun_eq_iff)

text \<open>The two phases of \<^verbatim>\<open>evictToFit\<close>: the plan stops at the shortest run, the commit removes it.\<close>

lemma plan_victims_shortest:
  assumes "free + freed < need" "plan_victims free need freed vs = (f, victims)"
  shows "find (\<lambda>ws. need \<le> free + freed + total_size ws) (prefixes vs) =
     (if need \<le> free + f then Some victims else None)"
  using assms
proof (induction vs arbitrary: freed f victims)
  case Nil
  then show ?case by auto
next
  case (Cons v vs)
  have eq: "find (\<lambda>ws. need \<le> free + freed + total_size ws) (prefixes (v # vs)) =
      map_option ((#) v) (find (\<lambda>ws. need \<le> free + (freed + ESize v) + total_size ws) (prefixes vs))"
    using Cons.prems(1) unfolding find_prefixes_Cons by (simp add: ac_simps)
  show ?case
  proof (cases "need \<le> free + (freed + ESize v)")
    case True
    with Cons.prems(2) show ?thesis
      unfolding eq by (auto simp: Let_def find_prefixes_Nil)
  next
    case False
    obtain g ws where r: "plan_victims free need (freed + ESize v) vs = (g, ws)" by fastforce
    with Cons.prems(2) False have "victims = v # ws" "f = g" by (simp_all add: Let_def)
    with False Cons.IH [OF _ r] show ?thesis unfolding eq by simp
  qed
qed

lemma commit_victims_shortest:
  assumes "md_inv d" "distinct (map EID vs)" "\<forall>v \<in> set vs. (EID v, v) \<in> set (entries d)"
    and "free_bytes d < need"
    and "find (\<lambda>ws. need \<le> free_bytes d + total_size ws) (prefixes vs) = Some victims"
  shows "commit_victims need victims d = (True, remove_entries victims d)"
  using assms
proof (induction vs arbitrary: d victims)
  case Nil
  then show ?case by (simp split: if_splits)
next
  case (Cons v vs)
  let ?d = "snd (delete_id (EID v) d)"
  have v: "(EID v, v) \<in> set (entries d)" using Cons.prems(3) by simp
  note del = delete_id_present [OF Cons.prems(1) v]
  have free: "free_bytes ?d = free_bytes d + ESize v" by (simp add: del(1) free_bytes_def)
  from Cons.prems(4,5) obtain ws where ws: "victims = v # ws"
      "find (\<lambda>ws. need \<le> free_bytes ?d + total_size ws) (prefixes vs) = Some ws"
    unfolding find_prefixes_Cons free by (auto simp: ac_simps)
  show ?case
  proof (cases "need \<le> free_bytes ?d")
    case True
    with ws(2) have "ws = []" by (simp add: find_prefixes_Nil)
    with True show ?thesis by (simp add: ws(1) remove_entries_Cons [OF Cons.prems(1) v] Let_def)
  next
    case False
    have "\<forall>w \<in> set vs. (EID w, w) \<in> set (entries ?d)"
      using Cons.prems(2,3) by (auto simp: del(1) set_delete rev_image_eqI)
    with Cons.IH [OF del(2) _ this _ ws(2)] Cons.prems(2) False
    show ?thesis by (simp add: ws(1) remove_entries_Cons [OF Cons.prems(1) v] Let_def)
  qed
qed

lemma lru_order_entries:
  assumes "md_inv d"
  shows "distinct (map EID (lru_order d))"
    and "\<forall>v \<in> set (lru_order d). (EID v, v) \<in> set (entries d)"
proof -
  have ok: "EID e = i" if "(i, e) \<in> set (entries d)" for i e
    using md_invD(3) [OF assms that] by (simp add: entry_ok_def)
  have "map (EID \<circ> snd) (entries d) = map fst (entries d)"
    using ok by auto
  with md_invD(1) [OF assms] have "distinct (map EID (map snd (entries d)))"
    by (simp only: map_map)
  then have d: "distinct (map EID (sort_key CreatedSeq (map snd (entries d))))"
    by (metis mset_eq_imp_distinct_iff mset_map mset_sort)
  then have "distinct (map EID (take n (sort_key CreatedSeq (map snd (entries d)))))" for n
    by (simp add: take_map [symmetric])
  then show "distinct (map EID (lru_order d))"
    unfolding lru_order_def by (metis mset_eq_imp_distinct_iff mset_map mset_sort)
  show "\<forall>v \<in> set (lru_order d). (EID v, v) \<in> set (entries d)"
    using set_older [of "length (entries d) div 2" "entries d"] ok by (force simp: lru_order_def)
qed

lemma evict_to_fit_lru:
  assumes "slice_sort srt" "map_range rng" "md_inv d"
  shows "evict_to_fit srt rng need d = lru_evict need d"
proof (cases "need \<le> free_bytes d")
  case True
  then show ?thesis by (simp add: evict_to_fit_def lru_evict_def find_prefixes_Nil)
next
  case False
  obtain f vs where plan: "plan_victims (free_bytes d) need 0 (lru_order d) = (f, vs)" by fastforce
  have spec: "find (\<lambda>ws. need \<le> free_bytes d + total_size ws) (prefixes (lru_order d)) =
      (if need \<le> free_bytes d + f then Some vs else None)"
    using plan_victims_shortest [OF _ plan] False by simp
  have half: "length (older_half srt rng (entries d)) = length (entries d) div 2"
    using older_half_facts(1) [OF assms(1,2) md_invD(2) [OF assms(3)]] .
  show ?thesis
  proof (cases "length (entries d) div 2 = 0")
    case True
    then have "lru_order d = []" by (simp add: lru_order_def)
    with True False half show ?thesis by (simp add: evict_to_fit_def lru_evict_def Let_def)
  next
    case nonempty: False
    then have "entries d \<noteq> []" "older_half srt rng (entries d) \<noteq> []" using half by auto
    with False have "evict_to_fit srt rng need d =
        (if free_bytes d + f < need then (False, d) else commit_victims need vs d)"
      by (simp add: evict_to_fit_def Let_def lru_order_unique [OF assms] plan)
    with spec False commit_victims_shortest [OF assms(3) lru_order_entries [OF assms(3)], of need vs]
    show ?thesis by (simp add: lru_evict_def)
  qed
qed

text \<open>
  C30: Eviction is the same whatever \<^verbatim>\<open>range\<close> and \<^verbatim>\<open>sort.Slice\<close> do with the order they are
  free to choose, and it is least-recently-used: on a dictionary in its invariant,
  \<^verbatim>\<open>evictToFit\<close> removes the shortest run of the older half, ordered by last use and then by
  creation, after which the new entry fits, and nothing when the whole older half is too
  little.
\<close>

theorem eviction_is_lru:
  assumes "slice_sort srt" "map_range rng" "md_inv d"
  shows "evict_to_fit srt rng need d = lru_evict need d"
  using assms by (rule evict_to_fit_lru)

theorem eviction_is_lru_witness:
  "evict_to_fit go_insertion_sort rev 3 sample_dict = lru_evict 3 sample_dict \<and>
   fst (evict_to_fit go_insertion_sort rev 3 sample_dict)"
proof -
  have "map_range (rev :: entry_map \<Rightarrow> entry_map)" by unfold_locales simp
  from eviction_is_lru [OF insertion.slice_sort_axioms this sample_dict_inv(1), of 3]
  have eq: "evict_to_fit go_insertion_sort rev 3 sample_dict = lru_evict 3 sample_dict" .
  show ?thesis unfolding eq
    by (simp add: lru_evict_def lru_order_def sample_dict_def free_bytes_def)
qed

lemma add_candidate_deterministic:
  assumes "slice_sort srt" "map_range rng" "md_inv d" "not_exhausted d"
  shows "add_candidate srt rng key b d = add_candidate go_insertion_sort range_in_order key b d"
proof -
  obtain r d' where g: "get_by_key key d = (r, d')" by fastforce
  then have "md_inv d'" using get_by_key_inv assms(3,4) by blast
  then have "evict_to_fit srt rng need d' = evict_to_fit go_insertion_sort range_in_order need d'" for need
    using evict_to_fit_lru [OF assms(1,2)]
      evict_to_fit_lru [OF insertion.slice_sort_axioms in_order.map_range_axioms] by metis
  then show ?thesis by (cases r) (simp_all add: add_candidate_def g Let_def)
qed

end
