(* ===== verification/Entry_Dictionary.thy ===== *)
theory Entry_Dictionary
  imports Span_Learner
begin

text \<open>
  The dictionary of promoted patterns (\<^verbatim>\<open>internal/dictionary/types.go\<close>, \<^verbatim>\<open>insert.go\<close>,
  \<^verbatim>\<open>evict.go\<close>): entries by id under a cap in bytes kept as 32-bit counters. Two hand-written
  copies of the eviction loop exist, \<^verbatim>\<open>evictFor\<close> and \<^verbatim>\<open>EnsureCapacity\<close>; both are modelled as
  they are written and shown to agree.
\<close>

section \<open>State\<close>

record dictionary_entry =
  DEID :: u32
  DEConstA :: bytes
  DEConstB :: bytes
  DETotalHits :: u64
  DESpanSize :: u32
  DEScore :: u64
  DELastSeen :: u64

type_synonym entry_table = "(u32 \<times> dictionary_entry) list"

record dictionary =
  MaxBytes :: u32
  UsedBytes :: u32
  Entries :: entry_table
  NextID :: u32

section \<open>Operations\<close>

definition const_bytes :: "dictionary_entry \<Rightarrow> u32" where
  "const_bytes e = of_nat (length (DEConstA e) + length (DEConstB e))"

text \<open>The comparisons of the two \<^verbatim>\<open>sort.Slice\<close> calls: age and score.\<close>

definition seen_before :: "u32 \<times> dictionary_entry \<Rightarrow> u32 \<times> dictionary_entry \<Rightarrow> bool" where
  "seen_before x y \<longleftrightarrow> DELastSeen (snd x) < DELastSeen (snd y)"

definition scores_less :: "u32 \<times> dictionary_entry \<Rightarrow> u32 \<times> dictionary_entry \<Rightarrow> bool" where
  "scores_less x y \<longleftrightarrow> DEScore (snd x) < DEScore (snd y)"

type_synonym table_sort =
  "(u32 \<times> dictionary_entry \<Rightarrow> u32 \<times> dictionary_entry \<Rightarrow> bool) \<Rightarrow> entry_table \<Rightarrow> entry_table"

text \<open>The body of the eviction loops: one entry leaves the table.\<close>

definition drop_entry :: "u32 \<times> dictionary_entry \<Rightarrow> dictionary \<Rightarrow> dictionary" where
  "drop_entry = (\<lambda>(i, e) d.
     (let freed = const_bytes e;
          d = d\<lparr>Entries := AList.delete i (Entries d)\<rparr>
      in d\<lparr>UsedBytes := (if UsedBytes d \<ge> freed then UsedBytes d - freed else 0)\<rparr>))"

fun evict_for_loop :: "u32 \<Rightarrow> entry_table \<Rightarrow> dictionary \<Rightarrow> bool \<times> dictionary" where
  "evict_for_loop need [] d = (False, d)"
| "evict_for_loop need (it # its) d =
     (let d = drop_entry it d
      in if UsedBytes d + need \<le> MaxBytes d then (True, d) else evict_for_loop need its d)"

definition evict_for ::
    "table_sort \<Rightarrow> (entry_table \<Rightarrow> entry_table) \<Rightarrow> u32 \<Rightarrow> dictionary \<Rightarrow> bool \<times> dictionary" where
  "evict_for srt rng need d =
     (if length (Entries d) = 0 then (False, d)
      else let items = srt seen_before (rng (Entries d));
               cut = length items div 2
           in if cut = 0 then (False, d)
              else let evictable = take cut items
                   in evict_for_loop need (srt scores_less evictable) d)"

fun ensure_loop :: "u32 \<Rightarrow> entry_table \<Rightarrow> dictionary \<Rightarrow> bool \<times> dictionary" where
  "ensure_loop needBytes [] d = (False, d)"
| "ensure_loop needBytes (it # its) d =
     (let d = drop_entry it d
      in if UsedBytes d + needBytes \<le> MaxBytes d then (True, d)
         else ensure_loop needBytes its d)"

definition ensure_capacity ::
    "table_sort \<Rightarrow> (entry_table \<Rightarrow> entry_table) \<Rightarrow> u32 \<Rightarrow> dictionary \<Rightarrow> bool \<times> dictionary" where
  "ensure_capacity srt rng needBytes d =
     (if UsedBytes d + needBytes \<le> MaxBytes d then (True, d)
      else let items = rng (Entries d)
           in if length items = 0 then (False, d)
              else let items = srt seen_before items;
                       cut = length items div 2;
                       evictable = take cut items
                   in if length evictable = 0 then (False, d)
                      else ensure_loop needBytes (srt scores_less evictable) d)"

definition insert_entry :: "dictionary_entry \<Rightarrow> u32 \<Rightarrow> dictionary \<Rightarrow> dictionary" where
  "insert_entry entry need d =
     d\<lparr>Entries := AList.update (DEID entry) entry (Entries d), UsedBytes := UsedBytes d + need\<rparr>"

definition try_insert ::
    "table_sort \<Rightarrow> (entry_table \<Rightarrow> entry_table) \<Rightarrow> dictionary_entry \<Rightarrow> dictionary \<Rightarrow>
     bool \<times> dictionary" where
  "try_insert srt rng entry d =
     (let need = of_nat (length (DEConstA entry) + length (DEConstB entry))
      in if UsedBytes d + need \<le> MaxBytes d then (True, insert_entry entry need d)
         else (case evict_for srt rng need d of
                 (False, d) \<Rightarrow> (False, d)
               | (True, d) \<Rightarrow> (True, insert_entry entry need d)))"

section \<open>The invariant\<close>

definition entry_len :: "dictionary_entry \<Rightarrow> nat" where
  "entry_len e = length (DEConstA e) + length (DEConstB e)"

definition table_bytes :: "entry_table \<Rightarrow> nat" where
  "table_bytes es = sum_list (map (\<lambda>x. entry_len (snd x)) es)"

definition ed_inv :: "dictionary \<Rightarrow> bool" where
  "ed_inv d \<longleftrightarrow> distinct (map fst (Entries d)) \<and> unat (UsedBytes d) = table_bytes (Entries d) \<and>
     UsedBytes d \<le> MaxBytes d"

lemma table_bytes_append [simp]: "table_bytes (xs @ ys) = table_bytes xs + table_bytes ys"
  by (simp add: table_bytes_def)

lemma table_bytes_delete:
  assumes "distinct (map fst es)" "x \<in> set es"
  shows "table_bytes es = entry_len (snd x) + table_bytes (AList.delete (fst x) es)"
proof -
  from assms(2) obtain ys zs where es: "es = ys @ x # zs" by (meson split_list)
  with assms(1) have "fst x \<notin> fst ` set ys" "fst x \<notin> fst ` set zs" by auto
  then have "AList.delete (fst x) es = ys @ zs"
    by (cases x) (simp add: es delete_append delete_absent)
  then show ?thesis by (simp add: es table_bytes_def)
qed

lemma unat_const_bytes:
  assumes "entry_len e \<le> unat (v :: u32)"
  shows "unat (const_bytes e) = entry_len e"
proof -
  have "entry_len e < 4294967296" using assms unat_u32_lt [of v] by linarith
  then show ?thesis by (simp add: const_bytes_def entry_len_def flip: of_nat_add)
qed

lemma drop_entry_inv:
  assumes inv: "ed_inv d" and x: "x \<in> set (Entries d)"
  shows "ed_inv (drop_entry x d)" "Entries (drop_entry x d) = AList.delete (fst x) (Entries d)"
    "MaxBytes (drop_entry x d) = MaxBytes d" "UsedBytes (drop_entry x d) \<le> UsedBytes d"
proof -
  obtain i e where xe: "x = (i, e)" by fastforce
  from inv have dist: "distinct (map fst (Entries d))"
    and used: "unat (UsedBytes d) = table_bytes (Entries d)" and cap: "UsedBytes d \<le> MaxBytes d"
    by (simp_all add: ed_inv_def)
  note split = table_bytes_delete [OF dist x]
  with used have len: "entry_len e \<le> unat (UsedBytes d)" by (simp add: xe)
  note size = unat_const_bytes [OF len]
  then have fits: "const_bytes e \<le> UsedBytes d" using len by (simp add: word_le_nat_alt)
  show ent: "Entries (drop_entry x d) = AList.delete (fst x) (Entries d)"
    by (simp add: drop_entry_def Let_def xe)
  show max: "MaxBytes (drop_entry x d) = MaxBytes d"
    by (simp add: drop_entry_def Let_def xe)
  have used': "UsedBytes (drop_entry x d) = UsedBytes d - const_bytes e"
    using fits by (simp add: drop_entry_def Let_def xe)
  have n: "unat (UsedBytes d - const_bytes e) = unat (UsedBytes d) - entry_len e"
    using unat_sub [OF fits] size by simp
  then show le: "UsedBytes (drop_entry x d) \<le> UsedBytes d"
    by (simp add: used' word_le_nat_alt)
  show "ed_inv (drop_entry x d)"
    unfolding ed_inv_def ent max used'
    using dist used cap split le [unfolded used'] n by (simp add: xe distinct_delete)
qed


section \<open>The eviction loops\<close>

text \<open>The dictionary after a list of evictions, and what the loops look for.\<close>

definition drop_entries :: "entry_table \<Rightarrow> dictionary \<Rightarrow> dictionary" where
  "drop_entries vs d = fold drop_entry vs d"

definition fits :: "u32 \<Rightarrow> dictionary \<Rightarrow> bool" where
  "fits need d \<longleftrightarrow> UsedBytes d + need \<le> MaxBytes d"

lemma drop_entries_simps [simp]:
  "drop_entries [] d = d" "drop_entries (v # vs) d = drop_entries vs (drop_entry v d)"
  by (simp_all add: drop_entries_def)

lemma drop_entries_inv:
  assumes "ed_inv d" "distinct (map fst vs)" "set vs \<subseteq> set (Entries d)"
  shows "ed_inv (drop_entries vs d) \<and>
    Entries (drop_entries vs d) = without (fst ` set vs) (Entries d) \<and>
    MaxBytes (drop_entries vs d) = MaxBytes d \<and> UsedBytes (drop_entries vs d) \<le> UsedBytes d"
  using assms
proof (induction vs arbitrary: d)
  case Nil
  then show ?case by simp
next
  case (Cons v vs)
  then have v: "v \<in> set (Entries d)" by simp
  note drop = drop_entry_inv [OF Cons.prems(1) v]
  have "set vs \<subseteq> set (Entries (drop_entry v d))"
    using Cons.prems(2,3) by (auto simp: drop(2) set_delete rev_image_eqI)
  with Cons.IH [OF drop(1)] Cons.prems(2) drop(2-4) show ?case
    by (auto simp: without_delete)
qed

lemma ensure_loop_evict_for: "ensure_loop need vs d = evict_for_loop need vs d"
  by (induction vs arbitrary: d) (simp_all add: Let_def)

text \<open>The loop stops at the first list of victims that makes room.\<close>

lemma evict_for_loop_cut:
  assumes "evict_for_loop need vs d = (r, d')" "\<not> fits need d"
  shows "\<exists>pre post. vs = pre @ post \<and> d' = drop_entries pre d \<and> (r \<longleftrightarrow> fits need d') \<and>
    (\<not> r \<longrightarrow> post = []) \<and> (\<forall>k < length pre. \<not> fits need (drop_entries (take k pre) d))"
  using assms
proof (induction vs arbitrary: d)
  case Nil
  then show ?case by auto
next
  case (Cons v vs)
  show ?case
  proof (cases "fits need (drop_entry v d)")
    case True
    with Cons.prems have "r" "d' = drop_entries [v] d" by (simp_all add: fits_def Let_def)
    with True Cons.prems(2) show ?thesis
      by (intro exI [of _ "[v]"] exI [of _ vs]) simp
  next
    case False
    with Cons.prems have "evict_for_loop need vs (drop_entry v d) = (r, d')"
      by (simp add: fits_def Let_def)
    from Cons.IH [OF this False] obtain pre post where
      ih: "vs = pre @ post" "d' = drop_entries pre (drop_entry v d)" "r \<longleftrightarrow> fits need d'"
        "\<not> r \<longrightarrow> post = []" "\<forall>k < length pre. \<not> fits need (drop_entries (take k pre) (drop_entry v d))"
      by blast
    have "\<not> fits need (drop_entries (take k (v # pre)) d)" if "k < length (v # pre)" for k
      using that ih(5) Cons.prems(2) by (cases k) simp_all
    with ih(1-4) show ?thesis
      by (intro exI [of _ "v # pre"] exI [of _ post]) simp
  qed
qed

section \<open>The order of eviction\<close>

text \<open>
  What the two sorts and the cut give, whatever \<^verbatim>\<open>sort.Slice\<close> and \<^verbatim>\<open>range\<close> do: half of the
  entries, none of them seen later than one outside, by rising score.
\<close>

definition eviction_order :: "entry_table \<Rightarrow> entry_table \<Rightarrow> bool" where
  "eviction_order es vs \<longleftrightarrow>
     distinct (map fst vs) \<and> set vs \<subseteq> set es \<and> length vs = length es div 2 \<and>
     sorted_wrt (\<lambda>x y. DEScore (snd x) \<le> DEScore (snd y)) vs \<and>
     (\<forall>x \<in> set vs. \<forall>y \<in> set es - set vs. DELastSeen (snd x) \<le> DELastSeen (snd y))"

lemma eviction_order_sorts:
  fixes es :: entry_table
  assumes srt: "slice_sort srt" and rng: "map_range rng" and dist: "distinct (map fst es)"
  defines "items \<equiv> srt seen_before (rng es)"
  shows "eviction_order es (srt scores_less (take (length items div 2) items))"
    (is "eviction_order es ?vs") and "length items = length es"
proof -
  let ?n = "length items div 2"
  have set_items: "set items = set es" and len: "length items = length es"
    and dist_items: "distinct (map fst items)"
    using slice_sort.set_srt [OF srt] slice_sort.length_srt [OF srt] map_range.set_rng [OF rng]
      map_range.length_rng [OF rng]
      slice_sort.map_fst_srt_distinct [OF srt map_range.distinct_keys_rng [OF rng dist]]
    by (simp_all add: items_def)
  show "length items = length es" by (rule len)
  have set_vs: "set ?vs = set (take ?n items)" by (rule slice_sort.set_srt [OF srt])
  have "distinct (map fst (take ?n items))"
    using dist_items by (simp add: take_map [symmetric])
  then have "distinct (map fst ?vs)" by (rule slice_sort.map_fst_srt_distinct [OF srt])
  moreover have "set ?vs \<subseteq> set es"
    using set_take_subset [of ?n items] by (simp add: set_vs set_items)
  moreover have "length ?vs = length es div 2"
    using slice_sort.length_srt [OF srt, of scores_less] by (simp add: len)
  moreover have "sorted_wrt (\<lambda>x y. DEScore (snd x) \<le> DEScore (snd y)) ?vs"
    using slice_sort.sorted_by_key [OF srt, of "\<lambda>x. DEScore (snd x)"]
    by (simp add: scores_less_def [abs_def])
  moreover have "DELastSeen (snd x) \<le> DELastSeen (snd y)"
    if "x \<in> set ?vs" "y \<in> set es - set ?vs" for x y
  proof -
    have "y \<in> set (drop ?n items)"
      using that(2) set_items set_vs by (metis DiffE UnE append_take_drop_id set_append)
    moreover have "x \<in> set (take ?n items)" using that(1) set_vs by blast
    ultimately show ?thesis
      using slice_sort.cut_le [OF srt, of x ?n "\<lambda>x. DELastSeen (snd x)" "rng es" y]
      by (simp add: items_def seen_before_def [abs_def])
  qed
  ultimately show "eviction_order es ?vs" unfolding eviction_order_def by blast
qed

text \<open>Both routines, on a dictionary that has no room, run the loop along such an order.\<close>

lemma evict_for_order:
  assumes "slice_sort srt" "map_range rng" "ed_inv d"
  obtains vs where "eviction_order (Entries d) vs"
    "evict_for srt rng need d = evict_for_loop need vs d"
proof -
  have dist: "distinct (map fst (Entries d))" using assms(3) by (simp add: ed_inv_def)
  note order = eviction_order_sorts [OF assms(1,2) dist]
  let ?items = "srt seen_before (rng (Entries d))"
  let ?vs = "srt scores_less (take (length ?items div 2) ?items)"
  have "evict_for srt rng need d = evict_for_loop need ?vs d"
  proof (cases "length (Entries d) div 2 = 0")
    case True
    then have "?vs = []" using order(1) by (simp add: eviction_order_def)
    then show ?thesis using True by (simp add: evict_for_def Let_def order(2))
  next
    case False
    then have "length (Entries d) \<noteq> 0" by (metis div_0)
    then show ?thesis using False by (simp add: evict_for_def Let_def order(2))
  qed
  with order(1) show ?thesis by (rule that)
qed

lemma ensure_capacity_evict_for:
  assumes "slice_sort srt" "map_range rng" "ed_inv d"
  shows "ensure_capacity srt rng need d =
    (if fits need d then (True, d) else evict_for srt rng need d)"
proof -
  have dist: "distinct (map fst (Entries d))" using assms(3) by (simp add: ed_inv_def)
  note len = eviction_order_sorts(2) [OF assms(1,2) dist]
  have rng: "length (rng (Entries d)) = length (Entries d)"
    by (rule map_range.length_rng [OF assms(2)])
  show ?thesis
    by (simp add: ensure_capacity_def evict_for_def fits_def len rng ensure_loop_evict_for Let_def
        del: length_0_conv length_greater_0_conv)
qed

text \<open>What an eviction does to a well-formed dictionary.\<close>

lemma ensure_capacity_cases:
  assumes srt: "slice_sort srt" and rng: "map_range rng" and inv: "ed_inv d"
    and run: "ensure_capacity srt rng need d = (r, d')"
  obtains vs rest where "eviction_order (Entries d) (vs @ rest)" "d' = drop_entries vs d"
    "r \<longleftrightarrow> fits need d'" "\<not> r \<longrightarrow> rest = []"
    "\<forall>k < length vs. \<not> fits need (drop_entries (take k vs) d)"
proof -
  obtain es where es: "eviction_order (Entries d) es"
      "evict_for srt rng need d = evict_for_loop need es d"
    using evict_for_order [OF srt rng inv] .
  note split = ensure_capacity_evict_for [OF srt rng inv, of need]
  show thesis
  proof (cases "fits need d")
    case True
    with run split have "r" "d' = d" by simp_all
    with True es(1) show thesis by (intro that [of "[]" es]) simp_all
  next
    case False
    with run split es(2) have "evict_for_loop need es d = (r, d')" by simp
    from evict_for_loop_cut [OF this False] es(1) show thesis using that by blast
  qed
qed

lemma evicted_inv:
  assumes inv: "ed_inv d" and order: "eviction_order (Entries d) (vs @ rest)"
  shows "ed_inv (drop_entries vs d) \<and>
    Entries (drop_entries vs d) = without (fst ` set vs) (Entries d) \<and>
    MaxBytes (drop_entries vs d) = MaxBytes d \<and> UsedBytes (drop_entries vs d) \<le> UsedBytes d"
  by (rule drop_entries_inv [OF inv]) (use order in \<open>auto simp: eviction_order_def\<close>)

lemma used_bytes_inv: "ed_inv d \<Longrightarrow> UsedBytes d = of_nat (table_bytes (Entries d))"
proof -
  assume "ed_inv d"
  then have "unat (UsedBytes d) = table_bytes (Entries d)" by (simp add: ed_inv_def)
  then have "of_nat (table_bytes (Entries d)) = (of_nat (unat (UsedBytes d)) :: u32)" by simp
  then show ?thesis by simp
qed

lemma evicted_fits:
  assumes "ed_inv d" "eviction_order (Entries d) (vs @ rest)"
  shows "fits need (drop_entries (take k vs) d) \<longleftrightarrow>
    of_nat (table_bytes (without (fst ` set (take k vs)) (Entries d))) + need \<le> MaxBytes d"
proof -
  have "eviction_order (Entries d) (take k vs @ (drop k vs @ rest))"
    using assms(2) by (metis append.assoc append_take_drop_id)
  from evicted_inv [OF assms(1) this] used_bytes_inv show ?thesis
    unfolding fits_def by metis
qed

text \<open>Inserting under a fresh id, within the cap and without wrapping.\<close>

lemma insert_entry_inv:
  assumes inv: "ed_inv d" and fresh: "DEID e \<notin> fst ` set (Entries d)"
    and small: "unat (UsedBytes d) + entry_len e < 2 ^ 32"
    and fits: "fits (const_bytes e) d"
  shows "ed_inv (insert_entry e (const_bytes e) d) \<and>
    MaxBytes (insert_entry e (const_bytes e) d) = MaxBytes d"
proof -
  have "unat (const_bytes e) = entry_len e"
    using small by (simp add: const_bytes_def entry_len_def flip: of_nat_add)
  then have "unat (UsedBytes d + const_bytes e) = unat (UsedBytes d) + entry_len e"
    using small by (subst unat_add_lem [THEN iffD1]) simp_all
  with inv fresh fits show ?thesis
    by (simp add: ed_inv_def insert_entry_def update_absent fits_def table_bytes_def)
qed

section \<open>The dictionary as a bounded store\<close>

text \<open>
  The operations a user can call, with any arguments: any entry, also one whose id is in use
  or whose bytes make the 32-bit sum of used and needed bytes wrap around.
\<close>

inductive ed_call :: "dictionary \<Rightarrow> dictionary \<Rightarrow> bool" where
  insert: "try_insert srt rng e d = (r, d') \<Longrightarrow> ed_call d d'"
| ensure: "ensure_capacity srt rng need d = (r, d') \<Longrightarrow> ed_call d d'"

text \<open>
  Disciplined use: new entries carry a fresh id (ids are never recycled within an epoch) and
  the sum of used and new bytes stays below \<open>2 ^ 32\<close>.
\<close>

inductive ed_step :: "dictionary \<Rightarrow> dictionary \<Rightarrow> bool" where
  insert: "slice_sort srt \<Longrightarrow> map_range rng \<Longrightarrow> DEID e \<notin> fst ` set (Entries d) \<Longrightarrow>
    unat (UsedBytes d) + entry_len e < 2 ^ 32 \<Longrightarrow> try_insert srt rng e d = (r, d') \<Longrightarrow> ed_step d d'"
| ensure: "slice_sort srt \<Longrightarrow> map_range rng \<Longrightarrow>
    ensure_capacity srt rng need d = (r, d') \<Longrightarrow> ed_step d d'"

lemma ed_step_call: "ed_step d d' \<Longrightarrow> ed_call d d'"
  by (induction rule: ed_step.induct) (auto intro: ed_call.intros)

inductive_cases ed_stepE: "ed_step d d'"

lemma try_insert_alt:
  "try_insert srt rng e d =
     (if UsedBytes d + const_bytes e \<le> MaxBytes d then (True, insert_entry e (const_bytes e) d)
      else (case evict_for srt rng (const_bytes e) d of
              (False, d) \<Rightarrow> (False, d)
            | (True, d) \<Rightarrow> (True, insert_entry e (const_bytes e) d)))"
  unfolding try_insert_def const_bytes_def Let_def by (rule refl)

lemma try_insert_ensure:
  assumes "map_range rng"
  shows "try_insert srt rng e d =
    (case ensure_capacity srt rng (const_bytes e) d of
       (False, d) \<Rightarrow> (False, d)
     | (True, d) \<Rightarrow> (True, insert_entry e (const_bytes e) d))"
proof -
  have rng: "rng (Entries d) = [] \<longleftrightarrow> Entries d = []"
    using map_range.length_rng [OF assms] by (metis length_0_conv)
  have cut: "take (length xs div 2) xs = [] \<longleftrightarrow> length xs div 2 = 0" for xs :: entry_table
    by auto
  show ?thesis
    by (simp add: try_insert_alt ensure_capacity_def evict_for_def rng cut ensure_loop_evict_for
        Let_def)
qed

lemma ed_step_inv: "ed_step d d' \<Longrightarrow> ed_inv d \<Longrightarrow> ed_inv d' \<and> MaxBytes d' = MaxBytes d"
proof (induction rule: ed_step.induct)
  case (ensure srt rng need d r d')
  from ensure.hyps(1,2) ensure.prems ensure.hyps(3) show ?case
    by (cases rule: ensure_capacity_cases) (use evicted_inv [OF ensure.prems] in blast)
next
  case (insert srt rng e d r d')
  obtain q d1 where q: "ensure_capacity srt rng (const_bytes e) d = (q, d1)" by fastforce
  from insert.hyps(1,2) insert.prems q show ?case
  proof (cases rule: ensure_capacity_cases)
    case (1 vs rest)
    note d1 = evicted_inv [OF insert.prems 1(1), folded 1(2)]
    show ?thesis
    proof (cases q)
      case True
      from d1 insert.hyps(3) have "DEID e \<notin> fst ` set (Entries d1)" by (auto simp: without_def)
      moreover from d1 insert.hyps(4) have "unat (UsedBytes d1) + entry_len e < 2 ^ 32"
        by (simp add: word_le_nat_alt)
      ultimately have "ed_inv (insert_entry e (const_bytes e) d1) \<and>
          MaxBytes (insert_entry e (const_bytes e) d1) = MaxBytes d1"
        using insert_entry_inv d1 1(3) True by blast
      with d1 insert.hyps(5) try_insert_ensure [OF insert.hyps(2), of srt e d] q True show ?thesis
        by simp
    next
      case False
      with d1 insert.hyps(5) try_insert_ensure [OF insert.hyps(2), of srt e d] q show ?thesis
        by simp
    qed
  qed
qed

text \<open>Whatever is called, the counter stays under the cap.\<close>

definition under_cap :: "dictionary \<Rightarrow> dictionary \<Rightarrow> bool" where
  "under_cap d d' \<longleftrightarrow> MaxBytes d' = MaxBytes d \<and> (UsedBytes d \<le> MaxBytes d \<longrightarrow> UsedBytes d' \<le> MaxBytes d')"

lemma drop_entry_under_cap: "under_cap d (drop_entry x d)"
proof -
  have "UsedBytes d - const_bytes (snd x) \<le> UsedBytes d" if "const_bytes (snd x) \<le> UsedBytes d"
    using that by (simp add: word_sub_le)
  then show ?thesis
    by (auto simp: under_cap_def drop_entry_def case_prod_unfold Let_def intro: order_trans)
qed

lemma evict_for_loop_under_cap:
  "evict_for_loop need its d = (r, d') \<Longrightarrow> under_cap d d' \<and> (r \<longrightarrow> UsedBytes d' + need \<le> MaxBytes d')"
proof (induction need its d rule: evict_for_loop.induct)
  case (1 need d)
  then show ?case by (simp add: under_cap_def)
next
  case (2 need it its d)
  have one: "under_cap d (drop_entry it d)" by (rule drop_entry_under_cap)
  show ?case
  proof (cases "UsedBytes (drop_entry it d) + need \<le> MaxBytes (drop_entry it d)")
    case True
    with "2.prems" one show ?thesis by (auto simp: Let_def)
  next
    case False
    with "2.prems" have "evict_for_loop need its (drop_entry it d) = (r, d')"
      by (simp add: Let_def)
    with "2.IH" [OF refl False] one show ?thesis by (auto simp: under_cap_def)
  qed
qed

lemma evict_for_under_cap:
  "evict_for srt rng need d = (r, d') \<Longrightarrow> under_cap d d' \<and> (r \<longrightarrow> UsedBytes d' + need \<le> MaxBytes d')"
  by (auto simp: evict_for_def Let_def under_cap_def split: if_splits
      dest!: evict_for_loop_under_cap [unfolded under_cap_def])

lemma ed_call_under_cap: "ed_call d d' \<Longrightarrow> under_cap d d'"
proof (induction rule: ed_call.induct)
  case (ensure srt rng need d r d')
  then show ?case
    by (auto simp: ensure_capacity_def ensure_loop_evict_for Let_def under_cap_def split: if_splits
        dest!: evict_for_loop_under_cap [unfolded under_cap_def])
next
  case (insert srt rng e d r d')
  show ?case
  proof (cases "UsedBytes d + const_bytes e \<le> MaxBytes d")
    case True
    with insert show ?thesis by (auto simp: try_insert_alt insert_entry_def under_cap_def)
  next
    case False
    obtain q d1 where q: "evict_for srt rng (const_bytes e) d = (q, d1)" by fastforce
    with evict_for_under_cap [OF q] insert False show ?thesis
      by (cases q) (auto simp: try_insert_alt insert_entry_def under_cap_def)
  qed
qed

definition used_int :: "dictionary \<Rightarrow> int" where "used_int d = uint (UsedBytes d)"
definition cap_int :: "dictionary \<Rightarrow> int" where "cap_int d = uint (MaxBytes d)"

interpretation table: capped_store used_int cap_int ed_inv ed_step
proof unfold_locales
  show "0 \<le> used_int d \<and> used_int d \<le> cap_int d" if "ed_inv d" for d
    using that by (simp add: ed_inv_def used_int_def cap_int_def word_le_def)
  show "ed_inv d' \<and> cap_int d' = cap_int d" if "ed_inv d" "ed_step d d'" for d d'
    using ed_step_inv [OF that(2,1)] by (simp add: cap_int_def)
qed

interpretation any_table: capped_store used_int cap_int "\<lambda>d. UsedBytes d \<le> MaxBytes d" ed_call
proof unfold_locales
  show "0 \<le> used_int d \<and> used_int d \<le> cap_int d" if "UsedBytes d \<le> MaxBytes d" for d
    using that by (simp add: used_int_def cap_int_def word_le_def)
  show "UsedBytes d' \<le> MaxBytes d' \<and> cap_int d' = cap_int d"
    if "UsedBytes d \<le> MaxBytes d" "ed_call d d'" for d d'
    using ed_call_under_cap [OF that(2)] that(1) by (auto simp: under_cap_def cap_int_def)
qed

section \<open>Properties\<close>

text \<open>
  C36: The cap holds. Starting empty, after any calls of \<^verbatim>\<open>TryInsert\<close> and \<^verbatim>\<open>EnsureCapacity\<close>
  whatsoever (ids in use and wrapping sums included), \<^verbatim>\<open>UsedBytes\<close> is at most \<^verbatim>\<open>MaxBytes\<close>, whatever
  \<^verbatim>\<open>sort.Slice\<close> and the map order do. If all insertions were disciplined (a fresh id each, no sum
  of used and new bytes beyond \<open>2 ^ 32\<close>), \<^verbatim>\<open>UsedBytes\<close> is moreover the total length of the
  constants stored; without the discipline it need not be (\<open>reinsert_counts_twice\<close> and
  \<open>wrapping_insert_accepted\<close> below).
\<close>

theorem entry_dictionary_bounded:
  assumes "ed_call\<^sup>*\<^sup>* \<lparr>MaxBytes = cap, UsedBytes = 0, Entries = [], NextID = n\<rparr> d"
  shows "UsedBytes d \<le> cap \<and> MaxBytes d = cap \<and>
    (ed_step\<^sup>*\<^sup>* \<lparr>MaxBytes = cap, UsedBytes = 0, Entries = [], NextID = n\<rparr> d \<longrightarrow>
       unat (UsedBytes d) =
         sum_list (map (\<lambda>(_, e). length (DEConstA e) + length (DEConstB e)) (Entries d)))"
proof (intro conjI impI)
  let ?start = "\<lparr>MaxBytes = cap, UsedBytes = 0, Entries = [], NextID = n\<rparr>"
  have ok: "UsedBytes ?start \<le> MaxBytes ?start" by simp
  from any_table.steps_inv [OF assms ok] show "MaxBytes d = cap"
    by (simp add: cap_int_def word_uint_eq_iff)
  with any_table.steps_inv [OF assms ok] show "UsedBytes d \<le> cap" by simp
  assume steps: "ed_step\<^sup>*\<^sup>* ?start d"
  have "ed_inv ?start" by (simp add: ed_inv_def table_bytes_def)
  from table.steps_inv [OF steps this] have "unat (UsedBytes d) = table_bytes (Entries d)"
    by (simp add: ed_inv_def)
  then show "unat (UsedBytes d) =
      sum_list (map (\<lambda>(_, e). length (DEConstA e) + length (DEConstB e)) (Entries d))"
    by (simp add: table_bytes_def entry_len_def case_prod_unfold)
qed

text \<open>
  C37: What \<^verbatim>\<open>EnsureCapacity\<close> evicts. The older half of the entries, in the order of rising score,
  starts with the victims: exactly those leave the table, no shorter beginning would have made
  room, and the routine reports success exactly when there is room afterwards. When it fails
  the whole older half is gone all the same.
\<close>

theorem ensure_capacity_evicts_shortest_prefix:
  assumes "slice_sort srt" "map_range rng" "ed_inv d"
    and "ensure_capacity srt rng need d = (r, d')"
  shows "\<exists>vs rest. eviction_order (Entries d) (vs @ rest) \<and>
    Entries d' = without (fst ` set vs) (Entries d) \<and>
    unat (UsedBytes d') = table_bytes (Entries d') \<and> MaxBytes d' = MaxBytes d \<and>
    (r \<longleftrightarrow> UsedBytes d' + need \<le> MaxBytes d') \<and> (\<not> r \<longrightarrow> rest = []) \<and>
    (\<forall>k < length vs. \<not> of_nat (table_bytes (without (fst ` set (take k vs)) (Entries d))) + need
       \<le> MaxBytes d)"
  using assms
proof (cases rule: ensure_capacity_cases)
  case (1 vs rest)
  with evicted_inv [OF assms(3) 1(1)] evicted_fits [OF assms(3) 1(1)] show ?thesis
    by (intro exI [of _ vs] exI [of _ rest]) (simp add: ed_inv_def fits_def)
qed

text \<open>
  The two copies of the eviction code agree. \<^verbatim>\<open>TryInsert\<close>, which has its own eviction loop,
  behaves as \<^verbatim>\<open>EnsureCapacity\<close> for the bytes of the entry followed by the insertion.
\<close>

theorem try_insert_is_ensure_then_insert:
  assumes "map_range rng"
  shows "try_insert srt rng e d =
    (case ensure_capacity srt rng (const_bytes e) d of
       (False, d) \<Rightarrow> (False, d)
     | (True, d) \<Rightarrow> (True, insert_entry e (const_bytes e) d))"
  using assms by (rule try_insert_ensure)

text \<open>
  An entry inserted twice is counted twice. When an entry of the table is inserted again and
  its bytes fit once more, the table stays as it is while \<^verbatim>\<open>UsedBytes\<close> grows by the bytes of
  the entry, and from then on exceeds what the table holds.
\<close>

theorem reinsert_counts_twice:
  assumes "ed_inv d" "(DEID e, e) \<in> set (Entries d)"
    and "unat (UsedBytes d) + entry_len e \<le> unat (MaxBytes d)"
  shows "\<exists>d'. try_insert srt rng e d = (True, d') \<and> map_of (Entries d') = map_of (Entries d) \<and>
    unat (UsedBytes d') = table_bytes (Entries d) + entry_len e"
proof -
  have small: "unat (UsedBytes d) + entry_len e < 4294967296"
    using assms(3) unat_u32_lt [of "MaxBytes d"] by linarith
  then have "unat (const_bytes e) = entry_len e"
    by (simp add: const_bytes_def entry_len_def flip: of_nat_add)
  then have sum: "unat (UsedBytes d + const_bytes e) = unat (UsedBytes d) + entry_len e"
    using small by (subst unat_add_lem [THEN iffD1]) simp_all
  have dist: "distinct (map fst (Entries d))" using assms(1) by (simp add: ed_inv_def)
  have "map_of (AList.update (DEID e) e (Entries d)) = map_of (Entries d)"
    using dist assms(2) by (simp add: update_conv' fun_upd_idem)
  with sum assms(1,3) show ?thesis
    by (simp add: try_insert_alt insert_entry_def word_le_nat_alt ed_inv_def)
qed

text \<open>
  The check of the capacity can wrap around. An entry whose constants make the 32-bit sum of
  used and needed bytes exactly \<open>2 ^ 32\<close> is inserted without any eviction into a dictionary of
  any cap, and \<^verbatim>\<open>UsedBytes\<close> is 0 afterwards.
\<close>

theorem wrapping_insert_accepted:
  assumes "unat (UsedBytes d) + entry_len e = 2 ^ 32"
  shows "\<exists>d'. try_insert srt rng e d = (True, d') \<and> UsedBytes d' = 0 \<and>
    map_of (Entries d') = (map_of (Entries d))(DEID e \<mapsto> e)"
proof -
  have "UsedBytes d + const_bytes e = of_nat (unat (UsedBytes d) + entry_len e)"
    by (simp add: const_bytes_def entry_len_def)
  also have "\<dots> = 0" unfolding assms by simp
  finally show ?thesis by (simp add: try_insert_alt insert_entry_def)
qed

section \<open>Examples\<close>

definition entry_one :: dictionary_entry where
  "entry_one = \<lparr>DEID = 1, DEConstA = [65, 61], DEConstB = [44], DETotalHits = 3, DESpanSize = 5,
     DEScore = 9, DELastSeen = 10\<rparr>"

definition entry_two :: dictionary_entry where
  "entry_two = \<lparr>DEID = 2, DEConstA = [66, 61], DEConstB = [32], DETotalHits = 3, DESpanSize = 5,
     DEScore = 4, DELastSeen = 20\<rparr>"

definition full_dictionary :: dictionary where
  "full_dictionary = \<lparr>MaxBytes = 7, UsedBytes = 6, Entries = [(2, entry_two), (1, entry_one)],
     NextID = 3\<rparr>"

lemma full_dictionary_inv: "ed_inv full_dictionary"
  by (simp add: ed_inv_def full_dictionary_def table_bytes_def entry_len_def entry_one_def
      entry_two_def)

lemmas run_dictionary = ensure_capacity_def full_dictionary_def entry_one_def entry_two_def
  range_in_order_def go_insertion_sort_def go_insert_def seen_before_def scores_less_def
  drop_entry_def const_bytes_def

theorem ensure_capacity_evicts_shortest_prefix_witness:
  "\<exists>d' vs rest. ensure_capacity go_insertion_sort range_in_order 3 full_dictionary = (True, d') \<and>
     map fst (Entries d') = [2] \<and> eviction_order (Entries full_dictionary) (vs @ rest) \<and>
     Entries d' = without (fst ` set vs) (Entries full_dictionary)"
proof -
  let ?d = "\<lparr>MaxBytes = 7, UsedBytes = 3, Entries = [(2, entry_two)], NextID = 3\<rparr>"
  have run: "ensure_capacity go_insertion_sort range_in_order 3 full_dictionary = (True, ?d)"
    by (simp add: run_dictionary Let_def)
  from ensure_capacity_evicts_shortest_prefix [OF insertion.slice_sort_axioms
      in_order.map_range_axioms full_dictionary_inv run]
  show ?thesis using run by auto
qed

theorem try_insert_is_ensure_then_insert_witness:
  "fst (try_insert go_insertion_sort range_in_order (entry_one\<lparr>DEID := 3\<rparr>) full_dictionary)"
  by (subst try_insert_is_ensure_then_insert [OF in_order.map_range_axioms])
    (simp add: run_dictionary Let_def)

theorem reinsert_counts_twice_witness:
  "\<exists>d'. try_insert go_insertion_sort range_in_order entry_one (full_dictionary\<lparr>MaxBytes := 9\<rparr>) =
     (True, d') \<and> unat (UsedBytes d') = 9"
proof -
  have inv: "ed_inv (full_dictionary\<lparr>MaxBytes := 9\<rparr>)"
    by (simp add: ed_inv_def full_dictionary_def table_bytes_def entry_len_def entry_one_def
        entry_two_def)
  have mem: "(DEID entry_one, entry_one) \<in> set (Entries (full_dictionary\<lparr>MaxBytes := 9\<rparr>))"
    by (simp add: full_dictionary_def) (simp add: entry_one_def)
  have room: "unat (UsedBytes (full_dictionary\<lparr>MaxBytes := 9\<rparr>)) + entry_len entry_one \<le>
      unat (MaxBytes (full_dictionary\<lparr>MaxBytes := 9\<rparr>))"
    by (simp add: full_dictionary_def entry_one_def entry_len_def)
  have total: "table_bytes (Entries (full_dictionary\<lparr>MaxBytes := 9\<rparr>)) + entry_len entry_one = 9"
    by (simp add: full_dictionary_def entry_one_def entry_two_def entry_len_def table_bytes_def)
  show ?thesis
    by (rule reinsert_counts_twice [OF inv mem room, of go_insertion_sort range_in_order,
          unfolded total, THEN exE]) (elim conjE, intro exI conjI)
qed

text \<open>
  One disciplined insertion, and the same entry once more: the counter is 6 with 3 bytes
  stored, and still under the cap.
\<close>

theorem entry_dictionary_bounded_witness:
  "\<exists>d d'. ed_step\<^sup>*\<^sup>* \<lparr>MaxBytes = 7, UsedBytes = 0, Entries = [], NextID = 1\<rparr> d \<and>
     map fst (Entries d) = [1] \<and> UsedBytes d \<le> 7 \<and>
     unat (UsedBytes d) =
       sum_list (map (\<lambda>(_, e). length (DEConstA e) + length (DEConstB e)) (Entries d)) \<and>
     ed_call d d' \<and> UsedBytes d' = 6 \<and> map fst (Entries d') = [1] \<and> UsedBytes d' \<le> 7"
proof -
  let ?s = "\<lparr>MaxBytes = 7, UsedBytes = 0, Entries = [], NextID = 1\<rparr>"
  let ?d = "insert_entry entry_one 3 ?s" and ?d' = "insert_entry entry_one 3 (insert_entry entry_one 3 ?s)"
  have size: "const_bytes entry_one = 3" by (simp add: const_bytes_def entry_one_def)
  have run: "try_insert go_insertion_sort range_in_order entry_one ?s = (True, ?d)"
    by (simp add: try_insert_alt size)
  have again: "try_insert go_insertion_sort range_in_order entry_one ?d = (True, ?d')"
    by (simp add: try_insert_alt size insert_entry_def)
  have "ed_step ?s ?d"
    by (rule ed_step.insert [OF insertion.slice_sort_axioms in_order.map_range_axioms _ _ run])
      (simp_all add: entry_one_def entry_len_def)
  then have step: "ed_step\<^sup>*\<^sup>* ?s ?d" and call: "ed_call\<^sup>*\<^sup>* ?s ?d"
    using ed_step_call by blast+
  have more: "ed_call ?d ?d'" by (rule ed_call.insert [OF again])
  have shape: "map fst (Entries ?d) = [1]" "map fst (Entries ?d') = [1]" "UsedBytes ?d' = 6"
    by (simp_all add: insert_entry_def entry_one_def)
  from entry_dictionary_bounded [OF call] step have first: "UsedBytes ?d \<le> 7"
    "unat (UsedBytes ?d) =
       sum_list (map (\<lambda>(_, e). length (DEConstA e) + length (DEConstB e)) (Entries ?d))"
    by blast+
  have second: "UsedBytes ?d' \<le> 7"
    using entry_dictionary_bounded [OF rtranclp.rtrancl_into_rtrancl [OF call more]] by (rule conjunct1)
  show ?thesis using step shape first more second by (intro exI [of _ ?d] exI [of _ ?d'] conjI)
qed

end
