(* ===== verification/Span_Extract.thy ===== *)
theory Span_Extract
  imports Span_Learner Go_Strings
begin

text \<open>
  The exhaustive span extractor (\<^verbatim>\<open>internal/dictionary/extract.go\<close>): every way of cutting a
  constant prefix, a variable part and a one-byte constant suffix out of a packet.
\<close>

section \<open>The routine\<close>

record packet_context =
  PacketBytes :: bytes
  PacketOffset :: u64
  PacketNumber :: u64

type_synonym observation_map = "((bytes \<times> bytes) \<times> span_observation) list"

text \<open>The body of the three loops.\<close>

definition visit_cut ::
    "packet_context \<Rightarrow> nat \<Rightarrow> nat \<Rightarrow> nat \<Rightarrow> observation_map \<Rightarrow> observation_map" where
  "visit_cut ctx i iA iB obs =
     (let b = PacketBytes ctx; n = length b
      in if iB + 1 > n then obs
         else let constA = take (iA - i) (drop i b);
                  varPart = take (iB - iA) (drop iA b);
                  constB = take (iB + 1 - iB) (drop iB b)
              in if length constA = 0 \<or> length varPart = 0 \<or> length constB = 0 then obs
                 else let k = (constA, constB);
                          ob = (case map_of obs k of
                                  Some ob \<Rightarrow> ob
                                | None \<Rightarrow> \<lparr>ConstA = constA, ConstB = constB, IntraHits = 0,
                                    SpanSize = of_nat (length constA + length varPart + length constB),
                                    LastSeenOffset = PacketOffset ctx + of_nat iB\<rparr>)
                      in AList.update k
                           (ob\<lparr>IntraHits := IntraHits ob + 1,
                               LastSeenOffset := PacketOffset ctx + of_nat iB\<rparr>) obs)"

definition extract_spans ::
    "(observation_map \<Rightarrow> observation_map) \<Rightarrow> packet_context \<Rightarrow> span_observation list" where
  "extract_spans rng ctx =
     (let n = length (PacketBytes ctx)
      in if n = 0 then []
         else map snd (rng
           (fold (\<lambda>i. fold (\<lambda>iA. fold (visit_cut ctx i iA) [iA + 1..<n]) [i + 1..<n - 1])
              [0..<n] [])))"

section \<open>The cuts, in the order of the loops\<close>

definition cuts :: "nat \<Rightarrow> (nat \<times> nat \<times> nat) list" where
  "cuts n = concat (map (\<lambda>i. concat (map (\<lambda>iA. map (\<lambda>iB. (i, iA, iB)) [iA + 1..<n])
     [i + 1..<n - 1])) [0..<n])"

lemma fold_concat: "fold f (concat xss) = fold (fold f) xss"
  by (induction xss) simp_all

lemma fold_cuts:
  "fold (\<lambda>i. fold (\<lambda>iA. fold (f i iA) [iA + 1..<n]) [i + 1..<n - 1]) [0..<n] s =
     fold (\<lambda>(i, iA, iB). f i iA iB) (cuts n) s"
  by (simp add: cuts_def fold_concat fold_map comp_def)

lemma distinct_concat_map:
  "\<lbrakk>distinct xs; \<And>x. x \<in> set xs \<Longrightarrow> distinct (f x);
    \<And>x y. \<lbrakk>x \<in> set xs; y \<in> set xs; x \<noteq> y\<rbrakk> \<Longrightarrow> set (f x) \<inter> set (f y) = {}\<rbrakk> \<Longrightarrow>
     distinct (concat (map f xs))"
  by (induction xs) auto

lemma distinct_cuts: "distinct (cuts n)"
  unfolding cuts_def
  by (intro distinct_concat_map) (auto simp: distinct_map inj_on_def)

lemma set_cuts: "set (cuts n) = {(i, iA, iB). i < iA \<and> iA < iB \<and> iB < n}"
proof (rule set_eqI)
  fix c
  obtain i iA iB :: nat where c: "c = (i, iA, iB)" by (cases c) auto
  have "(i, iA, iB) \<in> set (cuts n) \<longleftrightarrow>
      i \<in> {0..<n} \<and> iA \<in> {i + 1..<n - 1} \<and> iB \<in> {iA + 1..<n}"
    by (simp add: cuts_def image_iff)
  then show "c \<in> set (cuts n) \<longleftrightarrow> c \<in> {(i, iA, iB). i < iA \<and> iA < iB \<and> iB < n}"
    by (auto simp: c)
qed

section \<open>What is collected\<close>

definition cut_key :: "bytes \<Rightarrow> nat \<times> nat \<times> nat \<Rightarrow> bytes \<times> bytes" where
  "cut_key b = (\<lambda>(i, iA, iB). (take (iA - i) (drop i b), [b ! iB]))"

definition span_len :: "nat \<times> nat \<times> nat \<Rightarrow> nat" where
  "span_len = (\<lambda>(i, iA, iB). iB + 1 - i)"

definition collected ::
    "packet_context \<Rightarrow> (nat \<times> nat \<times> nat) list \<Rightarrow> bytes \<times> bytes \<Rightarrow> span_observation option" where
  "collected ctx cs k =
     (let occ = filter (\<lambda>c. cut_key (PacketBytes ctx) c = k) cs
      in if occ = [] then None
         else Some \<lparr>ConstA = fst k, ConstB = snd k, IntraHits = of_nat (length occ),
                SpanSize = of_nat (span_len (hd occ)),
                LastSeenOffset = PacketOffset ctx + of_nat (snd (snd (last occ)))\<rparr>)"

lemma visit_cut_step:
  assumes "i < iA" "iA < iB" "iB < length (PacketBytes ctx)"
    and "map_of obs = collected ctx cs"
  shows "map_of (visit_cut ctx i iA iB obs) = collected ctx (cs @ [(i, iA, iB)])"
proof -
  let ?b = "PacketBytes ctx" and ?k = "cut_key (PacketBytes ctx) (i, iA, iB)"
  define A where "A = take (iA - i) (drop i ?b)"
  define V where "V = take (iB - iA) (drop iA ?b)"
  have suffix: "take (iB + 1 - iB) (drop iB ?b) = [?b ! iB]"
    using assms(3) by (simp add: take_Suc_conv_app_nth)
  have parts: "A \<noteq> []" "V \<noteq> []" using assms(1-3) by (auto simp: A_def V_def)
  have size: "span_len (i, iA, iB) = length A + length V + length [?b ! iB]"
    using assms(1-3) by (simp add: span_len_def A_def V_def)
  have k: "?k = (A, [?b ! iB])" by (simp add: cut_key_def A_def)
  let ?ob = "case map_of obs ?k of Some ob \<Rightarrow> ob
    | None \<Rightarrow> \<lparr>ConstA = fst ?k, ConstB = snd ?k, IntraHits = 0,
        SpanSize = of_nat (span_len (i, iA, iB)), LastSeenOffset = PacketOffset ctx + of_nat iB\<rparr>"
  have "visit_cut ctx i iA iB obs =
      AList.update ?k (?ob\<lparr>IntraHits := IntraHits ?ob + 1,
        LastSeenOffset := PacketOffset ctx + of_nat iB\<rparr>) obs"
    unfolding visit_cut_def Let_def suffix A_def [symmetric] V_def [symmetric] size k fst_conv snd_conv
    using assms(3) parts by simp
  then have "map_of (visit_cut ctx i iA iB obs) =
      (collected ctx cs)(?k \<mapsto> ?ob\<lparr>IntraHits := IntraHits ?ob + 1,
        LastSeenOffset := PacketOffset ctx + of_nat iB\<rparr>)"
    using assms(4) by (simp add: update_conv')
  also have "\<dots> = collected ctx (cs @ [(i, iA, iB)])"
    unfolding assms(4) by (rule ext) (simp add: collected_def Let_def)
  finally show ?thesis .
qed

lemma visit_cut_keys: "distinct (map fst obs) \<Longrightarrow> distinct (map fst (visit_cut ctx i iA iB obs))"
  by (simp add: visit_cut_def Let_def distinct_update)

definition collect :: "packet_context \<Rightarrow> observation_map" where
  "collect ctx = fold (\<lambda>(i, iA, iB). visit_cut ctx i iA iB) (cuts (length (PacketBytes ctx))) []"

lemma collect_map:
  "map_of (collect ctx) = collected ctx (cuts (length (PacketBytes ctx)))"
  "distinct (map fst (collect ctx))"
proof -
  have "set cs \<subseteq> set (cuts (length (PacketBytes ctx))) \<Longrightarrow>
      map_of (fold (\<lambda>(i, iA, iB). visit_cut ctx i iA iB) cs []) = collected ctx cs \<and>
      distinct (map fst (fold (\<lambda>(i, iA, iB). visit_cut ctx i iA iB) cs []))" for cs
  proof (induction cs rule: rev_induct)
    case Nil
    then show ?case by (simp add: collected_def fun_eq_iff)
  next
    case (snoc c cs)
    obtain i iA iB where c: "c = (i, iA, iB)" by (cases c) auto
    with snoc.prems have "i < iA" "iA < iB" "iB < length (PacketBytes ctx)"
      by (auto simp: set_cuts)
    with snoc show ?case by (simp add: c visit_cut_step visit_cut_keys)
  qed
  from this [of "cuts (length (PacketBytes ctx))"]
  show "map_of (collect ctx) = collected ctx (cuts (length (PacketBytes ctx)))"
    "distinct (map fst (collect ctx))"
    by (simp_all add: collect_def)
qed

lemma extract_spans_collect:
  assumes "map_range rng"
  shows "extract_spans rng ctx = map snd (rng (collect ctx))"
proof (cases "length (PacketBytes ctx) = 0")
  case True
  then have "collect ctx = []" by (simp add: collect_def cuts_def)
  moreover have "rng [] = ([] :: observation_map)" using map_range.mset_rng [OF assms, of "[]"] by simp
  ultimately show ?thesis using True by (simp add: extract_spans_def)
next
  case False
  then show ?thesis
    unfolding extract_spans_def Let_def collect_def fold_cuts by simp
qed

text \<open>The keys, the counts and the last positions, over the packet alone.\<close>

definition cuts_of :: "bytes \<Rightarrow> bytes \<Rightarrow> bytes \<Rightarrow> (nat \<times> nat \<times> nat) set" where
  "cuts_of b a c = {(i, iA, iB). i < iA \<and> iA < iB \<and> iB < length b \<and>
     take (iA - i) (drop i b) = a \<and> [b ! iB] = c}"

lemma filter_cuts: "set (filter (\<lambda>x. cut_key b x = (a, c)) (cuts (length b))) = cuts_of b a c"
  by (auto simp: set_cuts cut_key_def cuts_of_def)

lemma count_cuts: "length (filter (\<lambda>x. cut_key b x = (a, c)) (cuts (length b))) = card (cuts_of b a c)"
  using distinct_card [OF distinct_filter [OF distinct_cuts]] filter_cuts by metis

lemma no_cuts: "filter (\<lambda>x. cut_key b x = (a, c)) (cuts (length b)) = [] \<longleftrightarrow> cuts_of b a c = {}"
  by (metis filter_cuts set_empty)

lemma collected_iff:
  "collected ctx (cuts (length (PacketBytes ctx))) (a, c) = None \<longleftrightarrow>
     cuts_of (PacketBytes ctx) a c = {}"
  by (simp add: collected_def Let_def no_cuts)

lemma collected_cuts:
  "collected ctx (cuts (length (PacketBytes ctx))) (a, c) = Some ob \<Longrightarrow>
     ConstA ob = a \<and> ConstB ob = c \<and> cuts_of (PacketBytes ctx) a c \<noteq> {} \<and>
     IntraHits ob = of_nat (card (cuts_of (PacketBytes ctx) a c)) \<and>
     LastSeenOffset ob = PacketOffset ctx + of_nat (snd (snd
       (last (filter (\<lambda>x. cut_key (PacketBytes ctx) x = (a, c)) (cuts (length (PacketBytes ctx)))))))"
  by (auto simp: collected_def Let_def count_cuts no_cuts split: if_splits)

lemma cuts_of_nonempty:
  "cuts_of b a c \<noteq> {} \<longleftrightarrow>
     a \<noteq> [] \<and> length c = 1 \<and> (\<exists>p v q. v \<noteq> [] \<and> b = p @ a @ v @ c @ q)"
proof
  assume "cuts_of b a c \<noteq> {}"
  then obtain i iA iB where cut: "i < iA" "iA < iB" "iB < length b"
      "take (iA - i) (drop i b) = a" "[b ! iB] = c"
    by (auto simp: cuts_of_def)
  have "b = take i b @ take (iA - i) (drop i b) @ drop iA b"
    using cut(1) by (metis append_take_drop_id drop_drop le_add_diff_inverse2 less_imp_le)
  moreover have "drop iA b = take (iB - iA) (drop iA b) @ drop iB b"
    using cut(2) by (metis append_take_drop_id drop_drop le_add_diff_inverse2 less_imp_le)
  moreover have "drop iB b = [b ! iB] @ drop (Suc iB) b"
    using cut(3) by (simp add: Cons_nth_drop_Suc)
  ultimately have "b = take i b @ a @ take (iB - iA) (drop iA b) @ c @ drop (Suc iB) b"
    using cut(4,5) by metis
  moreover have "take (iB - iA) (drop iA b) \<noteq> []" using cut(2,3) by simp
  moreover have "a \<noteq> []" "length c = 1" using cut by auto
  ultimately show "a \<noteq> [] \<and> length c = 1 \<and> (\<exists>p v q. v \<noteq> [] \<and> b = p @ a @ v @ c @ q)" by blast
next
  assume "a \<noteq> [] \<and> length c = 1 \<and> (\<exists>p v q. v \<noteq> [] \<and> b = p @ a @ v @ c @ q)"
  then obtain p v q x where b: "b = p @ a @ v @ [x] @ q" "a \<noteq> []" "v \<noteq> []" "c = [x]"
    by (auto simp: length_Suc_conv)
  then have "(length p, length p + length a, length p + length a + length v) \<in> cuts_of b a c"
    by (simp add: cuts_of_def nth_append)
  then show "cuts_of b a c \<noteq> {}" by blast
qed

text \<open>The loops visit the cuts with the same constant prefix by rising end.\<close>

lemma sorted_wrt_concat_map:
  "\<lbrakk>distinct xs; \<And>x. x \<in> set xs \<Longrightarrow> sorted_wrt P (f x);
    \<And>x y a b. \<lbrakk>x \<in> set xs; y \<in> set xs; x \<noteq> y; a \<in> set (f x); b \<in> set (f y)\<rbrakk> \<Longrightarrow> P a b\<rbrakk> \<Longrightarrow>
     sorted_wrt P (concat (map f xs))"
proof (induction xs)
  case Nil
  then show ?case by simp
next
  case (Cons x xs)
  have "sorted_wrt P (concat (map f xs))"
    using Cons.prems by (intro Cons.IH) (simp, simp, metis list.set_intros(2))
  moreover have "\<forall>a \<in> set (f x). \<forall>b \<in> set (concat (map f xs)). P a b"
  proof (intro ballI)
    fix a b
    assume "a \<in> set (f x)" "b \<in> set (concat (map f xs))"
    then obtain y where y: "y \<in> set xs" "b \<in> set (f y)" by auto
    then have "x \<noteq> y" using Cons.prems(1) by auto
    with \<open>a \<in> set (f x)\<close> y show "P a b" by (intro Cons.prems(3) [of x y]) simp_all
  qed
  ultimately show ?case using Cons.prems(2) by (simp add: sorted_wrt_append)
qed

definition same_start_then_later :: "nat \<times> nat \<times> nat \<Rightarrow> nat \<times> nat \<times> nat \<Rightarrow> bool" where
  "same_start_then_later = (\<lambda>(i, iA, iB) (j, jA, jB). i = j \<and> iA = jA \<longrightarrow> iB < jB)"

lemma sorted_cuts: "sorted_wrt same_start_then_later (cuts n)"
  unfolding cuts_def
proof (rule sorted_wrt_concat_map, goal_cases)
  case (2 i)
  show ?case
    by (rule sorted_wrt_concat_map)
      (auto simp: same_start_then_later_def sorted_wrt_map sorted_wrt_upt)
qed (auto simp: same_start_then_later_def)

lemma last_cut_end:
  assumes "cuts_of b a [x] \<noteq> {}"
  shows "last_index_byte x b =
    Some (snd (snd (last (filter (\<lambda>c. cut_key b c = (a, [x])) (cuts (length b))))))"
proof -
  let ?occ = "filter (\<lambda>c. cut_key b c = (a, [x])) (cuts (length b))"
  have ne: "?occ \<noteq> []" using assms by (simp add: no_cuts)
  obtain i iA iB where l: "last ?occ = (i, iA, iB)" by (cases "last ?occ") auto
  with ne have "(i, iA, iB) \<in> cuts_of b a [x]" by (metis filter_cuts last_in_set)
  then have cut: "i < iA" "iA < iB" "iB < length b" "take (iA - i) (drop i b) = a" "b ! iB = x"
    by (simp_all add: cuts_of_def)
  obtain k where k: "last_index_byte x b = Some k"
    using cut(3,5) by (metis last_index_byte_None_iff not_None_eq nth_mem)
  note last = last_index_byte_Some [OF k]
  have "iB \<le> k"
  proof (rule ccontr)
    assume "\<not> iB \<le> k"
    then have "drop (Suc k) b ! (iB - Suc k) = x" "iB - Suc k < length (drop (Suc k) b)"
      using cut(3,5) by simp_all
    with last show False by (metis nth_mem)
  qed
  have "(i, iA, k) \<in> cuts_of b a [x]" using cut last \<open>iB \<le> k\<close> by (simp add: cuts_of_def)
  then have "(i, iA, k) \<in> set ?occ" by (simp only: filter_cuts)
  moreover have "?occ = butlast ?occ @ [(i, iA, iB)]" using ne l by (metis append_butlast_last_id)
  moreover have "sorted_wrt same_start_then_later ?occ" by (rule sorted_wrt_filter [OF sorted_cuts])
  ultimately have "(i, iA, k) = (i, iA, iB) \<or> same_start_then_later (i, iA, k) (i, iA, iB)"
    by (metis (no_types, lifting) UnE empty_iff list.set(1) list.set_intros(1) set_ConsD set_append
        sorted_wrt_append)
  with \<open>iB \<le> k\<close> have "iB = k" by (simp add: same_start_then_later_def)
  with k l show ?thesis by simp
qed

section \<open>Property\<close>

lemma extract_spans_mem:
  assumes "map_range rng"
  shows "ob \<in> set (extract_spans rng ctx) \<longleftrightarrow>
    collected ctx (cuts (length (PacketBytes ctx))) (ConstA ob, ConstB ob) = Some ob"
proof -
  have "ob \<in> set (extract_spans rng ctx) \<longleftrightarrow> (\<exists>k. (k, ob) \<in> set (collect ctx))"
    by (force simp: extract_spans_collect [OF assms] map_range.set_rng [OF assms])
  also have "\<dots> \<longleftrightarrow> (\<exists>k. collected ctx (cuts (length (PacketBytes ctx))) k = Some ob)"
    by (simp add: map_of_eq_Some_iff [OF collect_map(2), symmetric] collect_map(1))
  finally show ?thesis using collected_cuts [of ctx _ _ ob] by (metis prod.collapse)
qed

lemma extract_spans_distinct:
  assumes "map_range rng"
  shows "distinct (map (\<lambda>ob. (ConstA ob, ConstB ob)) (extract_spans rng ctx))"
proof -
  have "k = (ConstA ob, ConstB ob)" if "collected ctx (cuts (length (PacketBytes ctx))) k = Some ob" for k ob
    using collected_cuts [of ctx "fst k" "snd k" ob] that by (cases k) simp
  then have "map (\<lambda>ob. (ConstA ob, ConstB ob)) (map snd (rng (collect ctx))) = map fst (rng (collect ctx))"
    using map_of_eq_Some_iff [OF collect_map(2)] collect_map(1)
    by (auto simp: map_range.set_rng [OF assms])
  then show ?thesis
    using map_range.distinct_keys_rng [OF assms collect_map(2)]
    by (simp only: extract_spans_collect [OF assms])
qed

text \<open>
  C38: \<^verbatim>\<open>ExtractSpans\<close> is exhaustive and exact. It reports every pair of a constant prefix and a
  one-byte suffix that occur in the packet with at least one byte between them, each pair
  once and no other; the hits are the number of cuts with that pair, counted in 16 bits; and
  the last offset is that of the last occurrence of the suffix byte in the packet.
\<close>

theorem extract_spans_exact:
  assumes "map_range rng"
  shows "distinct (map (\<lambda>ob. (ConstA ob, ConstB ob)) (extract_spans rng ctx)) \<and>
    (\<forall>a c. (\<exists>ob \<in> set (extract_spans rng ctx). ConstA ob = a \<and> ConstB ob = c) \<longleftrightarrow>
       a \<noteq> [] \<and> length c = 1 \<and> (\<exists>p v q. v \<noteq> [] \<and> PacketBytes ctx = p @ a @ v @ c @ q)) \<and>
    (\<forall>ob \<in> set (extract_spans rng ctx).
       IntraHits ob = of_nat (card (cuts_of (PacketBytes ctx) (ConstA ob) (ConstB ob))) \<and>
       (\<exists>k. last_index_byte (hd (ConstB ob)) (PacketBytes ctx) = Some k \<and>
         LastSeenOffset ob = PacketOffset ctx + of_nat k))"
proof -
  let ?b = "PacketBytes ctx"
  have "(\<exists>ob \<in> set (extract_spans rng ctx). ConstA ob = a \<and> ConstB ob = c) \<longleftrightarrow>
      cuts_of ?b a c \<noteq> {}" for a c
  proof
    assume "\<exists>ob \<in> set (extract_spans rng ctx). ConstA ob = a \<and> ConstB ob = c"
    then show "cuts_of ?b a c \<noteq> {}" using collected_cuts extract_spans_mem [OF assms] by blast
  next
    assume "cuts_of ?b a c \<noteq> {}"
    then obtain ob where ob: "collected ctx (cuts (length ?b)) (a, c) = Some ob"
      using collected_iff [of ctx a c] by auto
    with collected_cuts [OF ob] show "\<exists>ob \<in> set (extract_spans rng ctx). ConstA ob = a \<and> ConstB ob = c"
      unfolding extract_spans_mem [OF assms] by (auto simp: Bex_def extract_spans_mem [OF assms])
  qed
  moreover have "IntraHits ob = of_nat (card (cuts_of ?b (ConstA ob) (ConstB ob))) \<and>
      (\<exists>k. last_index_byte (hd (ConstB ob)) ?b = Some k \<and> LastSeenOffset ob = PacketOffset ctx + of_nat k)"
    if "ob \<in> set (extract_spans rng ctx)" for ob
  proof -
    note facts = collected_cuts [OF that [unfolded extract_spans_mem [OF assms]]]
    then obtain x where x: "ConstB ob = [x]"
      using cuts_of_nonempty [of ?b "ConstA ob" "ConstB ob"] by (auto simp: length_Suc_conv)
    have "cuts_of ?b (ConstA ob) [x] \<noteq> {}" using facts x by simp
    from last_cut_end [OF this] x facts show ?thesis by simp
  qed
  ultimately show ?thesis using extract_spans_distinct [OF assms] by (simp add: cuts_of_nonempty)
qed

theorem extract_spans_exact_witness:
  "let out = extract_spans range_in_order
     \<lparr>PacketBytes = [97, 61, 49, 44], PacketOffset = 100, PacketNumber = 1\<rparr>
   in (\<exists>ob \<in> set out. ConstA ob = [97, 61] \<and> ConstB ob = [44]) \<and>
      (\<forall>ob \<in> set out. ConstB ob = [44] \<longrightarrow> LastSeenOffset ob = 103)"
proof -
  let ?ctx = "\<lparr>PacketBytes = [97, 61, 49, 44], PacketOffset = 100, PacketNumber = 1\<rparr>"
  note exact = extract_spans_exact [OF in_order.map_range_axioms, of ?ctx]
  have "[97, 61, 49, 44] = [] @ [97, 61] @ [49] @ [44] @ ([] :: bytes)" by simp
  then have "\<exists>p v q. v \<noteq> [] \<and> PacketBytes ?ctx = p @ [97, 61] @ v @ [44] @ q"
    by (metis not_Cons_self2 packet_context.select_convs(1))
  then have "\<exists>ob \<in> set (extract_spans range_in_order ?ctx). ConstA ob = [97, 61] \<and> ConstB ob = [44]"
    using exact by simp
  moreover have "LastSeenOffset ob = 103"
    if "ob \<in> set (extract_spans range_in_order ?ctx)" "ConstB ob = [44]" for ob
    using exact that by (auto dest!: bspec)
  ultimately show ?thesis unfolding Let_def by blast
qed

end
