(* ===== verification/Packet_IO.thy ===== *)
theory Packet_IO
  imports Go_Streams
begin

text \<open>
  Length-prefixed packets over a connection (\<^verbatim>\<open>internal/io/framer.go\<close>). A \<^verbatim>\<open>PayloadConn\<close> is a
  buffered reader and the writing side of the same \<^verbatim>\<open>net.Conn\<close>; the methods that only forward
  to the connection (\<^verbatim>\<open>Close\<close>, addresses, deadlines) have no model.
\<close>

section \<open>State and operations\<close>

record payload_conn =
  pc_in :: reader
  pc_out :: sink

definition new_payload_conn :: "reader \<Rightarrow> sink \<Rightarrow> payload_conn" where
  "new_payload_conn r w = \<lparr>pc_in = r, pc_out = w\<rparr>"

text \<open>\<^verbatim>\<open>Peek(1)\<close> of the buffered reader consumes nothing.\<close>

definition peek_byte :: "payload_conn \<Rightarrow> go_error + byte" where
  "peek_byte p = (case rd_bytes (pc_in p) of [] \<Rightarrow> Inl (rd_end (pc_in p)) | b # _ \<Rightarrow> Inr b)"

definition packet_length :: "bytes \<Rightarrow> u32" where
  "packet_length lenBuf = join_u32 (lenBuf ! 0) (lenBuf ! 1) (lenBuf ! 2) (lenBuf ! 3)"

definition read_packet :: "payload_conn \<Rightarrow> go_error + (bytes \<times> payload_conn)" where
  "read_packet p =
     (case read_full 4 (pc_in p) of
        Inl err \<Rightarrow> Inl err
      | Inr (lenBuf, r) \<Rightarrow>
         (let n = packet_length lenBuf
          in if n = 0 then Inr ([], p\<lparr>pc_in := r\<rparr>)
             else (case read_full (unat n) r of
                     Inl err \<Rightarrow> Inl err
                   | Inr (payload, r) \<Rightarrow> Inr (payload, p\<lparr>pc_in := r\<rparr>))))"

definition write_packet :: "bytes \<Rightarrow> payload_conn act" where
  "write_packet payload p =
     (case write_all (put_u32 (of_nat (length payload))) (pc_out p) of
        (Some err, w) \<Rightarrow> (Some err, p\<lparr>pc_out := w\<rparr>)
      | (None, w) \<Rightarrow>
          if length payload = 0 then (None, p\<lparr>pc_out := w\<rparr>)
          else (case write_all payload w of (err, w) \<Rightarrow> (err, p\<lparr>pc_out := w\<rparr>)))"

section \<open>One packet\<close>

definition packet_image :: "bytes \<Rightarrow> bytes" where
  "packet_image p = put_u32 (of_nat (length p)) @ p"

lemma packet_length_put [simp]: "packet_length (put_u32 v) = v"
  by (simp add: packet_length_def put_u32_def be_simps)

lemma write_packet_open:
  "snk_room (pc_out c) = None \<Longrightarrow>
     write_packet p c =
       (None, c\<lparr>pc_out := (pc_out c)\<lparr>snk_bytes := snk_bytes (pc_out c) @ packet_image p\<rparr>\<rparr>)"
  by (simp add: write_packet_def packet_image_def)

lemma read_packet_image:
  assumes "length p < 2 ^ 32" "rd_bytes (pc_in c) = packet_image p @ q"
  shows "read_packet c = Inr (p, c\<lparr>pc_in := (pc_in c)\<lparr>rd_bytes := q\<rparr>\<rparr>)"
proof -
  obtain e where r: "pc_in c = \<lparr>rd_bytes = put_u32 (of_nat (length p)) @ p @ q, rd_end = e\<rparr>"
    using assms(2) by (cases "pc_in c") (simp add: packet_image_def)
  have n: "unat (of_nat (length p) :: u32) = length p" using assms(1) by simp
  show ?thesis
  proof (cases "p = []")
    case True
    then show ?thesis by (simp add: read_packet_def r)
  next
    case False
    with n have "(of_nat (length p) :: u32) \<noteq> 0" by (metis length_0_conv unat_0)
    then show ?thesis by (simp add: read_packet_def r n)
  qed
qed

section \<open>Sequences of packets\<close>

fun write_packets :: "bytes list \<Rightarrow> payload_conn act" where
  "write_packets [] = ok"
| "write_packets (p # ps) = and_then (write_packet p) (write_packets ps)"

fun read_packets :: "nat \<Rightarrow> payload_conn \<Rightarrow> go_error + (bytes list \<times> payload_conn)" where
  "read_packets 0 c = Inr ([], c)"
| "read_packets (Suc k) c =
     (case read_packet c of
        Inl e \<Rightarrow> Inl e
      | Inr (p, c) \<Rightarrow> map_sum id (\<lambda>(ps, c). (p # ps, c)) (read_packets k c))"

lemma write_packets_open:
  "snk_room (pc_out c) = None \<Longrightarrow>
     write_packets ps c = (None, c\<lparr>pc_out := (pc_out c)\<lparr>snk_bytes :=
       snk_bytes (pc_out c) @ concat (map packet_image ps)\<rparr>\<rparr>)"
  by (induction ps arbitrary: c) (simp_all add: ok_def and_then_step [OF write_packet_open])

lemma read_packets_image:
  "list_all (\<lambda>p. length p < 2 ^ 32) ps \<Longrightarrow>
     rd_bytes (pc_in c) = concat (map packet_image ps) @ q \<Longrightarrow>
     read_packets (length ps) c = Inr (ps, c\<lparr>pc_in := (pc_in c)\<lparr>rd_bytes := q\<rparr>\<rparr>)"
proof (induction ps arbitrary: c)
  case Nil
  then show ?case by (cases c; cases "pc_in c") simp
next
  case (Cons p ps)
  then have "read_packet c =
      Inr (p, c\<lparr>pc_in := (pc_in c)\<lparr>rd_bytes := concat (map packet_image ps) @ q\<rparr>\<rparr>)"
    by (intro read_packet_image) simp_all
  with Cons show ?case by simp
qed

section \<open>Property\<close>

text \<open>
  Packets survive the connection. Payloads shorter than \<open>2 ^ 32\<close> bytes, empty ones included,
  that \<^verbatim>\<open>WritePacket\<close> sends one after the other are returned by as many calls of \<^verbatim>\<open>ReadPacket\<close>,
  in order, and the bytes behind them stay unread.
\<close>

theorem packet_stream_roundtrip:
  assumes "list_all (\<lambda>p. length p < 2 ^ 32) ps" "snk_room (pc_out c) = None" "snk_bytes (pc_out c) = []"
  shows "\<exists>c'. write_packets ps c = (None, c') \<and>
    read_packets (length ps) (new_payload_conn \<lparr>rd_bytes = snk_bytes (pc_out c') @ q, rd_end = e\<rparr> w) =
      Inr (ps, new_payload_conn \<lparr>rd_bytes = q, rd_end = e\<rparr> w)"
  using assms by (simp add: write_packets_open read_packets_image new_payload_conn_def)

definition fresh_conn :: "bytes \<Rightarrow> payload_conn" where
  "fresh_conn b = new_payload_conn \<lparr>rd_bytes = b, rd_end = ErrEOF\<rparr> \<lparr>snk_bytes = [], snk_room = None\<rparr>"

theorem packet_stream_roundtrip_witness:
  "\<exists>c'. write_packets [[], [1, 2]] (fresh_conn []) = (None, c') \<and>
    read_packets (Suc (Suc 0)) (fresh_conn (snk_bytes (pc_out c') @ [9])) =
      Inr ([[], [1, 2]], fresh_conn [9])"
proof -
  have small: "list_all (\<lambda>p :: bytes. length p < 2 ^ 32) [[], [1, 2]]" by simp
  have open_conn: "snk_room (pc_out (fresh_conn [])) = None" "snk_bytes (pc_out (fresh_conn [])) = []"
    by (simp_all add: fresh_conn_def new_payload_conn_def)
  have len: "length [[], [1, 2 :: byte]] = Suc (Suc 0)" by simp
  show ?thesis
    using packet_stream_roundtrip [OF small open_conn, of "[9]" ErrEOF, unfolded len]
    unfolding fresh_conn_def by blast
qed

end
