(* ===== verification/Buffered_Conn.thy ===== *)
theory Buffered_Conn
  imports Packet_IO
begin

text \<open>
  The reading side of \<^verbatim>\<open>PayloadConn\<close> as it is (\<^verbatim>\<open>internal/io/framer.go\<close>): a \<^verbatim>\<open>bufio.Reader\<close> of
  4096 bytes on a connection whose reads return what happens to be there. It refines the
  \<^verbatim>\<open>reader\<close> that the other theories use: peeking consumes nothing, and \<^verbatim>\<open>io.ReadFull\<close> gives the
  same result on both. The interface is the locale \<open>byte_source\<close>.
\<close>

section \<open>The buffered reader\<close>

record buffered_conn =
  br_buf :: bytes
  br_err :: "go_error option"
  br_conn :: seg_reader

definition bufSize :: nat where "bufSize = 4096"

definition new_buffered :: "seg_reader \<Rightarrow> buffered_conn" where
  "new_buffered c = \<lparr>br_buf = [], br_err = None, br_conn = c\<rparr>"

text \<open>\<^verbatim>\<open>fill\<close>: up to 100 reads, until one returns data or an error.\<close>

fun fill :: "nat \<Rightarrow> buffered_conn \<Rightarrow> buffered_conn" where
  "fill 0 b = b\<lparr>br_err := Some ErrNoProgress\<rparr>"
| "fill (Suc k) b =
     (case conn_read (bufSize - length (br_buf b)) (br_conn b) of
        (c, e, r) \<Rightarrow>
          let b = b\<lparr>br_buf := br_buf b @ c, br_conn := r\<rparr>
          in if e \<noteq> None then b\<lparr>br_err := e\<rparr> else if length c > 0 then b else fill k b)"

text \<open>\<^verbatim>\<open>readErr\<close> hands out a pending error once.\<close>

definition read_err :: "buffered_conn \<Rightarrow> go_error option \<times> buffered_conn" where
  "read_err b = (br_err b, b\<lparr>br_err := None\<rparr>)"

text \<open>
  \<^verbatim>\<open>PeekByte\<close>, that is \<^verbatim>\<open>Peek(1)\<close>: one \<^verbatim>\<open>fill\<close> is enough, for it leaves data or an error.
\<close>

definition buffered_peek_byte :: "buffered_conn \<Rightarrow> (go_error + byte) \<times> buffered_conn" where
  "buffered_peek_byte b =
     (let b = (if br_buf b = [] \<and> br_err b = None then fill 100 b else b)
      in (case br_buf b of
            x # _ \<Rightarrow> (Inr x, b)
          | [] \<Rightarrow> (case read_err b of
                    (Some e, b) \<Rightarrow> (Inl e, b)
                  | (None, b) \<Rightarrow> (Inl ErrBufferFull, b))))"

text \<open>\<^verbatim>\<open>Read\<close> into a buffer of \<open>n\<close> bytes; a large read with nothing buffered bypasses the buffer.\<close>

definition buffered_read :: "nat \<Rightarrow> buffered_conn \<Rightarrow> bytes \<times> go_error option \<times> buffered_conn" where
  "buffered_read n b =
     (if n = 0
      then (if length (br_buf b) > 0 then ([], None, b) else (case read_err b of (e, b) \<Rightarrow> ([], e, b)))
      else if br_buf b = []
      then (if br_err b \<noteq> None then (case read_err b of (e, b) \<Rightarrow> ([], e, b))
            else if n \<ge> bufSize
            then (case conn_read n (br_conn b) of
                    (c, e, r) \<Rightarrow>
                      (case read_err (b\<lparr>br_err := e, br_conn := r\<rparr>) of (e, b) \<Rightarrow> (c, e, b)))
            else (case conn_read bufSize (br_conn b) of
                    (c, e, r) \<Rightarrow>
                      let b = b\<lparr>br_buf := c, br_err := e, br_conn := r\<rparr>
                      in if length c = 0 then (case read_err b of (e, b) \<Rightarrow> ([], e, b))
                         else (take n c, None, b\<lparr>br_buf := drop n c\<rparr>)))
      else (take n (br_buf b), None, b\<lparr>br_buf := drop n (br_buf b)\<rparr>))"

section \<open>\<^verbatim>\<open>io.ReadFull\<close> on any source\<close>

type_synonym 's source = "nat \<Rightarrow> 's \<Rightarrow> bytes \<times> go_error option \<times> 's"

text \<open>
  The loop of \<^verbatim>\<open>io.ReadAtLeast\<close>; a source that for ever returns nothing and no error keeps it
  going, which is the result \<open>None\<close>.
\<close>

partial_function (option) read_at_least ::
    "'s source \<Rightarrow> bytes \<Rightarrow> nat \<Rightarrow> 's \<Rightarrow> (bytes \<times> go_error option \<times> 's) option" where
  "read_at_least read got n s =
     (if length got < n
      then (case read (n - length got) s of
              (c, e, s) \<Rightarrow>
                if e = None then read_at_least read (got @ c) n s else Some (got @ c, e, s))
      else Some (got, None, s))"

definition read_full_from :: "'s source \<Rightarrow> nat \<Rightarrow> 's \<Rightarrow> ((go_error + bytes) \<times> 's) option" where
  "read_full_from read n s =
     (case read_at_least read [] n s of
        None \<Rightarrow> None
      | Some (got, e, s) \<Rightarrow>
          Some (if length got \<ge> n then Inr got
                else if length got > 0 \<and> e = Some ErrEOF then Inl ErrUnexpectedEOF
                else Inl (case e of Some err \<Rightarrow> err | None \<Rightarrow> ErrNoProgress), s))"

text \<open>A source of bytes: what it will still deliver, and that a read makes progress or ends.\<close>

locale byte_source =
  fixes read :: "'s source" and stream :: "'s \<Rightarrow> reader" and ok :: "'s \<Rightarrow> bool"
  assumes read_data: "ok s \<Longrightarrow> 0 < n \<Longrightarrow> read n s = (c, None, s') \<Longrightarrow>
      ok s' \<and> c \<noteq> [] \<and> length c \<le> n \<and> rd_bytes (stream s) = c @ rd_bytes (stream s') \<and>
      rd_end (stream s') = rd_end (stream s)"
    and read_end: "ok s \<Longrightarrow> 0 < n \<Longrightarrow> read n s = (c, Some e, s') \<Longrightarrow>
      ok s' \<and> c = [] \<and> rd_bytes (stream s) = [] \<and> e = rd_end (stream s) \<and> stream s' = stream s"
begin

lemma at_least:
  assumes "ok s" "length got \<le> n"
  shows "\<exists>c s'. ok s' \<and> rd_bytes (stream s) = c @ rd_bytes (stream s') \<and>
    rd_end (stream s') = rd_end (stream s) \<and> length (got @ c) \<le> n \<and>
    (if length (got @ c) = n then read_at_least read got n s = Some (got @ c, None, s')
     else rd_bytes (stream s') = [] \<and>
       read_at_least read got n s = Some (got @ c, Some (rd_end (stream s)), s'))"
  using assms
proof (induction "n - length got" arbitrary: s got rule: less_induct)
  case less
  show ?case
  proof (cases "length got < n")
    case False
    with less.prems show ?thesis
      by (subst (1 2) read_at_least.simps) (intro exI [of _ "[]"] exI [of _ s], simp)
  next
    case True
    obtain c e t where rd: "read (n - length got) s = (c, e, t)" by (metis prod_cases3)
    have pos: "0 < n - length got" using True by simp
    show ?thesis
    proof (cases e)
      case None
      from read_data [OF less.prems(1) pos rd [unfolded None]]
      have c: "ok t" "c \<noteq> []" "length c \<le> n - length got" "rd_bytes (stream s) = c @ rd_bytes (stream t)"
        "rd_end (stream t) = rd_end (stream s)" by auto
      have step: "read_at_least read got n s = read_at_least read (got @ c) n t"
        using True rd None by (subst read_at_least.simps) simp
      have "n - length (got @ c) < n - length got" "length (got @ c) \<le> n"
        using True c(2,3) by (cases c; simp)+
      from less.hyps [OF this(1) c(1) this(2)] obtain d s' where
        "ok s'" "rd_bytes (stream t) = d @ rd_bytes (stream s')" "rd_end (stream s') = rd_end (stream t)"
        "length ((got @ c) @ d) \<le> n"
        "if length ((got @ c) @ d) = n then read_at_least read (got @ c) n t = Some ((got @ c) @ d, None, s')
         else rd_bytes (stream s') = [] \<and>
           read_at_least read (got @ c) n t = Some ((got @ c) @ d, Some (rd_end (stream t)), s')"
        by blast
      with c step show ?thesis by (intro exI [of _ "c @ d"] exI [of _ s']) simp
    next
      case (Some x)
      from read_end [OF less.prems(1) pos rd [unfolded Some]]
      have "ok t" "c = []" "rd_bytes (stream s) = []" "x = rd_end (stream s)" "stream t = stream s" by auto
      with True rd Some show ?thesis
        by (subst (1 2) read_at_least.simps) (intro exI [of _ "[]"] exI [of _ t], simp)
    qed
  qed
qed

text \<open>So \<^verbatim>\<open>io.ReadFull\<close> returns, and returns what it would on the whole stream.\<close>

lemma full:
  assumes "ok s"
  shows "\<exists>s'. ok s' \<and> (case read_full n (stream s) of
      Inr (p, r) \<Rightarrow> read_full_from read n s = Some (Inr p, s') \<and> stream s' = r
    | Inl e \<Rightarrow> read_full_from read n s = Some (Inl e, s'))"
proof -
  from at_least [OF assms, of "[]" n] obtain c s' where *: "ok s'"
    "rd_bytes (stream s) = c @ rd_bytes (stream s')" "rd_end (stream s') = rd_end (stream s)" "length c \<le> n"
    "if length c = n then read_at_least read [] n s = Some (c, None, s')
     else rd_bytes (stream s') = [] \<and> read_at_least read [] n s = Some (c, Some (rd_end (stream s)), s')"
    by auto
  show ?thesis
  proof (cases "length c = n")
    case True
    with * have "read_full n (stream s) = Inr (c, (stream s)\<lparr>rd_bytes := rd_bytes (stream s')\<rparr>)"
      "read_full_from read n s = Some (Inr c, s')"
      by (simp_all add: read_full_def read_full_from_def)
    moreover have "(stream s)\<lparr>rd_bytes := rd_bytes (stream s')\<rparr> = stream s'"
      using *(3) by (cases "stream s"; cases "stream s'") simp
    ultimately show ?thesis using *(1) by auto
  next
    case False
    with * have "length c < n" "rd_bytes (stream s) = c" by auto
    with * False show ?thesis
      by (intro exI [of _ s']) (simp add: read_full_def read_full_from_def)
  qed
qed

end

section \<open>The connection and the buffered reader are sources\<close>

text \<open>
  A \<^verbatim>\<open>net.Conn\<close> does not return \<^verbatim>\<open>0, nil\<close> for a non-empty buffer: the documentation of \<^verbatim>\<open>io.Reader\<close>
  asks implementations not to.
\<close>

definition never_stalls :: "seg_reader \<Rightarrow> bool" where
  "never_stalls c \<longleftrightarrow> [] \<notin> set (segs c)"

lemma conn_read_never_stalls:
  "never_stalls c \<Longrightarrow> 0 < n \<Longrightarrow> conn_read n c = (d, None, c') \<Longrightarrow> never_stalls c' \<and> d \<noteq> []"
  by (auto simp: never_stalls_def conn_read_def split: list.splits if_splits)

interpretation conn: byte_source conn_read reader_of never_stalls
proof
  fix c n d c'
  assume ok: "never_stalls c" "0 < n" and rd: "conn_read n c = (d, None, c')"
  show "never_stalls c' \<and> d \<noteq> [] \<and> length d \<le> n \<and>
      rd_bytes (reader_of c) = d @ rd_bytes (reader_of c') \<and> rd_end (reader_of c') = rd_end (reader_of c)"
    using conn_read_never_stalls [OF ok rd] conn_read_okD [OF rd] by (simp add: reader_of_def)
next
  fix c n d e c'
  assume ok: "never_stalls c" and rd: "conn_read n c = (d, Some e, c')"
  show "never_stalls c' \<and> d = [] \<and> rd_bytes (reader_of c) = [] \<and> e = rd_end (reader_of c) \<and>
      reader_of c' = reader_of c"
    using conn_read_endD [OF rd] ok by (simp add: reader_of_def seg_bytes_def)
qed

text \<open>A pending error is the end of the connection.\<close>

definition buffered_ok :: "buffered_conn \<Rightarrow> bool" where
  "buffered_ok b \<longleftrightarrow> never_stalls (br_conn b) \<and>
     (\<forall>e. br_err b = Some e \<longrightarrow> e = seg_end (br_conn b) \<and> segs (br_conn b) = [])"

definition stream_of :: "buffered_conn \<Rightarrow> reader" where
  "stream_of b = \<lparr>rd_bytes = br_buf b @ seg_bytes (br_conn b), rd_end = seg_end (br_conn b)\<rparr>"

lemma fresh_read:
  assumes "never_stalls c" "0 < k" "conn_read k c = (d, e, c')"
  shows "(case e of
      None \<Rightarrow> never_stalls c' \<and> d \<noteq> [] \<and> length d \<le> k \<and> seg_bytes c = d @ seg_bytes c' \<and> seg_end c' = seg_end c
    | Some x \<Rightarrow> d = [] \<and> c' = c \<and> segs c = [] \<and> x = seg_end c)"
  using conn_read_never_stalls [of c k d c'] conn_read_okD [of k c d c'] conn_read_endD [of k c d _ c'] assms
  by (auto split: option.split)

interpretation buffered: byte_source buffered_read stream_of buffered_ok
proof
  fix b n c b'
  assume ok: "buffered_ok b" "0 < n" and rd: "buffered_read n b = (c, None, b')"
  show "buffered_ok b' \<and> c \<noteq> [] \<and> length c \<le> n \<and> rd_bytes (stream_of b) = c @ rd_bytes (stream_of b') \<and>
      rd_end (stream_of b') = rd_end (stream_of b)"
  proof (cases "br_buf b = []")
    case False
    with ok rd have "c = take n (br_buf b)" "b' = b\<lparr>br_buf := drop n (br_buf b)\<rparr>"
      by (auto simp: buffered_read_def)
    with ok False show ?thesis by (simp add: stream_of_def buffered_ok_def)
  next
    case True
    have none: "br_err b = None"
      using True ok(2) rd by (cases "br_err b") (simp_all add: buffered_read_def read_err_def)
    have stall: "never_stalls (br_conn b)" using ok(1) by (simp add: buffered_ok_def)
    let ?k = "if n \<ge> bufSize then n else bufSize"
    obtain d e r where c: "conn_read ?k (br_conn b) = (d, e, r)" by (metis prod_cases3)
    have "0 < ?k" using ok(2) by (simp add: bufSize_def)
    note facts = fresh_read [OF stall this c]
    show ?thesis
    proof (cases "n \<ge> bufSize")
      case big: True
      with True none ok(2) rd c have "e = None" "c = d" "b' = b\<lparr>br_err := None, br_conn := r\<rparr>"
        by (auto simp: buffered_read_def read_err_def)
      with facts True big show ?thesis by (simp add: stream_of_def buffered_ok_def)
    next
      case small: False
      with True none ok(2) rd c facts have "e = None" "c = take n d"
        "b' = b\<lparr>br_buf := drop n d, br_err := None, br_conn := r\<rparr>"
        by (auto simp: buffered_read_def read_err_def split: option.splits)
      with facts True ok(2) show ?thesis by (simp add: stream_of_def buffered_ok_def)
    qed
  qed
next
  fix b n c x b'
  assume ok: "buffered_ok b" "0 < n" and rd: "buffered_read n b = (c, Some x, b')"
  show "buffered_ok b' \<and> c = [] \<and> rd_bytes (stream_of b) = [] \<and> x = rd_end (stream_of b) \<and>
      stream_of b' = stream_of b"
  proof (cases "br_buf b = [] \<and> br_err b = None")
    case False
    with ok rd have "br_buf b = []" "br_err b = Some x" "c = []" "b' = b\<lparr>br_err := None\<rparr>"
      by (auto simp: buffered_read_def read_err_def split: if_splits)
    with ok(1) show ?thesis by (simp add: stream_of_def buffered_ok_def seg_bytes_def)
  next
    case True
    have stall: "never_stalls (br_conn b)" using ok(1) by (simp add: buffered_ok_def)
    let ?k = "if n \<ge> bufSize then n else bufSize"
    obtain d e r where c: "conn_read ?k (br_conn b) = (d, e, r)" by (metis prod_cases3)
    have "0 < ?k" using ok(2) by (simp add: bufSize_def)
    note facts = fresh_read [OF stall this c]
    with True ok(2) rd c have "e = Some x" "c = []" "b' = b\<lparr>br_err := None, br_conn := r\<rparr>"
      by (auto simp: buffered_read_def read_err_def Let_def split: if_splits option.splits)
    with facts True stall show ?thesis by (simp add: stream_of_def buffered_ok_def seg_bytes_def)
  qed
qed

text \<open>Peeking leaves the stream as it is.\<close>

lemma buffered_peek:
  assumes "buffered_ok b" "buffered_peek_byte b = (res, b')"
  shows "res = peek_byte (new_payload_conn (stream_of b) w) \<and> stream_of b' = stream_of b \<and> buffered_ok b'"
proof (cases "br_buf b = [] \<and> br_err b = None")
  case True
  have stall: "never_stalls (br_conn b)" using assms(1) by (simp add: buffered_ok_def)
  obtain d e r where c: "conn_read bufSize (br_conn b) = (d, e, r)" by (metis prod_cases3)
  have pos: "0 < bufSize" by (simp add: bufSize_def)
  note facts = fresh_read [OF stall pos c]
  have fill: "fill (Suc k) b = b\<lparr>br_buf := d, br_err := e, br_conn := r\<rparr>" for k
    using True c facts by (cases e) simp_all
  let ?b = "b\<lparr>br_buf := d, br_err := e, br_conn := r\<rparr>"
  have "fill 100 b = ?b" using fill [of 99] by (simp del: fill.simps)
  then have "buffered_peek_byte b = (case d of x # _ \<Rightarrow> (Inr x, ?b)
      | [] \<Rightarrow> (Inl (case e of Some x \<Rightarrow> x | None \<Rightarrow> ErrBufferFull), ?b\<lparr>br_err := None\<rparr>))"
    using True by (simp add: buffered_peek_byte_def read_err_def Let_def split: list.split option.split)
  with assms(2) True facts stall show ?thesis
    by (cases e; cases d) (auto simp: peek_byte_def new_payload_conn_def stream_of_def buffered_ok_def
        seg_bytes_def)
next
  case False
  with assms show ?thesis
    by (cases "br_buf b") (auto simp: buffered_peek_byte_def read_err_def peek_byte_def
        new_payload_conn_def stream_of_def buffered_ok_def seg_bytes_def Let_def)
qed

section \<open>Property\<close>

lemma buffered_large_read:
  "bufSize \<le> n \<Longrightarrow>
     buffered_read n (new_buffered c) = (case conn_read n c of (d, e, r) \<Rightarrow> (d, e, new_buffered r))"
  by (simp add: buffered_read_def new_buffered_def read_err_def bufSize_def split: prod.split)

text \<open>
  C33: The buffer of a \<^verbatim>\<open>PayloadConn\<close> is invisible. On a new connection that does not stall,
  however its bytes are cut into reads, \<^verbatim>\<open>PeekByte\<close> returns the first byte of the stream, or
  the error it ends with, and \<^verbatim>\<open>io.ReadFull\<close> after it returns exactly the first bytes of the
  stream, the peeked one included, or the error of a short stream; and a read of 32 KiB on a
  connection that was not peeked at is one read of the underlying connection.
\<close>

theorem buffered_conn_refines_stream:
  assumes "never_stalls c" "buffered_peek_byte (new_buffered c) = (res, b)"
  shows "res = peek_byte (new_payload_conn (reader_of c) w) \<and>
    (\<exists>b'. case read_full n (reader_of c) of
       Inr (p, r) \<Rightarrow> read_full_from buffered_read n b = Some (Inr p, b') \<and> stream_of b' = r
     | Inl e \<Rightarrow> read_full_from buffered_read n b = Some (Inl e, b')) \<and>
    buffered_read (32 * 1024) (new_buffered c) =
      (case conn_read (32 * 1024) c of (d, e, r) \<Rightarrow> (d, e, new_buffered r))"
proof -
  have new: "buffered_ok (new_buffered c)" "stream_of (new_buffered c) = reader_of c"
    using assms(1) by (simp_all add: buffered_ok_def new_buffered_def stream_of_def reader_of_def)
  from buffered_peek [OF new(1) assms(2)] have b: "res = peek_byte (new_payload_conn (reader_of c) w)"
      "stream_of b = reader_of c" "buffered_ok b"
    by (simp_all add: new(2))
  from buffered.full [OF b(3), of n] have "\<exists>b'. case read_full n (reader_of c) of
       Inr (p, r) \<Rightarrow> read_full_from buffered_read n b = Some (Inr p, b') \<and> stream_of b' = r
     | Inl e \<Rightarrow> read_full_from buffered_read n b = Some (Inl e, b')"
    unfolding b(2) by (auto split: sum.splits prod.splits)
  then show ?thesis using b(1) buffered_large_read [of "32 * 1024" c] by (simp add: bufSize_def)
qed

theorem buffered_conn_refines_stream_witness:
  "\<exists>b b'. buffered_peek_byte (new_buffered \<lparr>segs = [[1, 2], [3]], seg_end = ErrEOF\<rparr>) = (Inr 1, b) \<and>
     read_full_from buffered_read 3 b = Some (Inr [1, 2, 3], b')"
proof -
  let ?c = "\<lparr>segs = [[1, 2], [3]], seg_end = ErrEOF\<rparr>"
  obtain res b where p: "buffered_peek_byte (new_buffered ?c) = (res, b)" by fastforce
  have "never_stalls ?c" by (simp add: never_stalls_def)
  from buffered_conn_refines_stream [OF this p, of "\<lparr>snk_bytes = [], snk_room = None\<rparr>" 3] p show ?thesis
    by (auto simp: peek_byte_def new_payload_conn_def reader_of_def seg_bytes_def read_full_def)
qed

end
