(* ===== verification/Http_Helpers.thy ===== *)
theory Http_Helpers
  imports Codec_Correct
begin

text \<open>
  Helpers of the connection state that the present encoder does not call
  (\<^verbatim>\<open>internal/state/http_helpers.go\<close>, \<^verbatim>\<open>helpers_v1.go\<close>, \<^verbatim>\<open>parseContentLength\<close> of
  \<^verbatim>\<open>encode_v1.go\<close>): an incremental header reader, an exact body reader, rewriting of the
  Content-Length, a RAW pass-through, and the splitting of a record at its last \<^verbatim>\<open>=\<close>.
\<close>

section \<open>Reading a header and a body\<close>

definition parse_content_length :: "unicode \<Rightarrow> bytes \<Rightarrow> go_error + int" where
  "parse_content_length U hdr = content_length_of_lines U (split_on CRLF hdr)"

text \<open>The loop of \<^verbatim>\<open>readHTTPHeaderBlock\<close>, with its buffer.\<close>

function read_header_from ::
    "unicode \<Rightarrow> bytes \<Rightarrow> seg_reader \<Rightarrow> go_error + (bytes \<times> int \<times> bytes \<times> seg_reader)" where
  "read_header_from U bf r =
     (case index_sub (CRLF @ CRLF) bf of
        Some i \<Rightarrow>
          (let hdr = take (i + 4) bf;
               extra = (if i + 4 < length bf then drop (i + 4) bf else [])
           in (case parse_content_length U hdr of
                 Inl e \<Rightarrow> Inl e
               | Inr cl \<Rightarrow> Inr (hdr, cl, extra, r)))
      | None \<Rightarrow>
         (case conn_read 2048 r of
            (chunk, e, r') \<Rightarrow>
              (let bf' = (if length chunk > 0 then bf @ chunk else bf)
               in if length chunk > 0 \<and> length bf' > 256 * 1024 then Inl ErrHeaderTooLarge
                  else (case e of
                          Some err \<Rightarrow> Inl err
                        | None \<Rightarrow> read_header_from U bf' r'))))"
  by pat_completeness auto
termination
  by (relation "measure (\<lambda>(U, bf, r). reads_left r)") (auto dest: conn_read_okD(4) [OF sym])

declare read_header_from.simps [simp del]

definition read_http_header_block ::
    "unicode \<Rightarrow> seg_reader \<Rightarrow> go_error + (bytes \<times> int \<times> bytes \<times> seg_reader)" where
  "read_http_header_block U r = read_header_from U [] r"

definition read_exact_body :: "reader \<Rightarrow> int \<Rightarrow> bytes \<Rightarrow> go_error + (bytes \<times> reader)" where
  "read_exact_body r contentLen extra =
     (if contentLen \<le> 0 then Inr ([], r)
      else if contentLen > max_alloc then Inl GoPanic
      else if length extra > 0 \<and> int (length extra) \<ge> contentLen
      then Inr (take (nat contentLen) extra, r)
      else let body = (if length extra > 0 then extra else []);
               remain = nat contentLen - length body
           in if remain > 0
              then (case read_full remain r of
                      Inl e \<Rightarrow> Inl e
                    | Inr (tmp, r) \<Rightarrow> Inr (body @ tmp, r))
              else Inr (body, r))"

section \<open>Rewriting the Content-Length\<close>

fun replace_length_line :: "bytes \<Rightarrow> bytes list \<Rightarrow> bytes list option" where
  "replace_length_line new [] = None"
| "replace_length_line new (l # ls) =
     (if length l \<ge> 15 \<and> equal_fold (take 15 l) (str ''Content-Length:'') then Some (new # ls)
      else map_option (\<lambda>ls. l # ls) (replace_length_line new ls))"

definition rewrite_content_length :: "bytes \<Rightarrow> int \<Rightarrow> bytes" where
  "rewrite_content_length hdr newLen =
     (case index_sub (CRLF @ CRLF) hdr of
        None \<Rightarrow> hdr
      | Some i \<Rightarrow>
         (let head = take i hdr; tail = drop i hdr;
              lines = split_on CRLF head;
              new = str ''Content-Length: '' @ itoa newLen;
              lines = (case replace_length_line new lines of
                         Some ls \<Rightarrow> ls
                       | None \<Rightarrow> lines @ [new])
          in join_with CRLF lines @ tail))"

section \<open>RAW pass-through\<close>

definition send_raw :: "bytes \<Rightarrow> enc act" where
  "send_raw p = (if length p > 0
     then and_then (count_raw_in (length p)) (write_frame_count FrameRawData p) else ok)"

function pass_raw_loop :: "seg_reader \<Rightarrow> enc act" where
  "pass_raw_loop r cc =
     (case conn_read (32 * 1024) r of
        (chunk, e, r') \<Rightarrow>
         (case send_raw chunk cc of
            (Some err, cc) \<Rightarrow> (Some err, cc)
          | (None, cc) \<Rightarrow>
             (case e of
                Some err \<Rightarrow> (if err = ErrEOF then None else Some err, cc)
              | None \<Rightarrow> pass_raw_loop r' cc)))"
  by pat_completeness auto
termination
  by (relation "measure (\<lambda>(r, cc). reads_left r)") (auto dest: conn_read_okD(4) [OF sym])

declare pass_raw_loop.simps [simp del]

definition pass_through_raw_stream_with_prefix :: "bytes \<Rightarrow> bytes \<Rightarrow> seg_reader \<Rightarrow> enc act" where
  "pass_through_raw_stream_with_prefix hdr extra r =
     and_then (send_raw hdr) (and_then (send_raw extra) (pass_raw_loop r))"

section \<open>Splitting a record\<close>

definition try_split_const_var_const :: "bytes \<Rightarrow> (bytes \<times> bytes \<times> bytes) option" where
  "try_split_const_var_const p =
     (if length p < 3 \<or> p ! (length p - 1) \<noteq> 10 then None
      else case last_index_byte 61 p of
        None \<Rightarrow> None
      | Some idx \<Rightarrow>
          if idx = 0 \<or> idx \<ge> length p - 2 then None
          else Some (take (idx + 1) p, take (length p - 1 - (idx + 1)) (drop (idx + 1) p), [10]))"

definition try_extract_lane :: "bytes \<Rightarrow> bytes \<Rightarrow> bytes \<Rightarrow> bytes option" where
  "try_extract_lane p constA constB =
     (if \<not> has_prefix p constA \<or> \<not> has_suffix p constB then None
      else let start = int (length constA); finish = int (length p) - int (length constB)
           in if finish < start then None
              else Some (take (nat (finish - start)) (drop (nat start) p)))"

lemma split_record:
  assumes "try_split_const_var_const p = Some (a, l, b)"
  shows "p = a @ l @ b \<and> l \<noteq> [] \<and> 61 \<notin> set l \<and> (\<exists>c. a = c @ [61]) \<and> b = [10]"
proof -
  from assms obtain k where k: "last_index_byte 61 p = Some k" "0 < k" "k < length p - 2"
    and nl: "3 \<le> length p" "p ! (length p - 1) = 10"
    and parts: "a = take (k + 1) p" "l = take (length p - 1 - (k + 1)) (drop (k + 1) p)" "b = [10]"
    by (auto simp: try_split_const_var_const_def split: if_splits option.splits)
  note last = last_index_byte_Some [OF k(1)]
  have p: "p = butlast p @ [10]" using nl
    by (metis append_butlast_last_id last_conv_nth length_0_conv not_numeral_le_zero)
  have "l = drop (k + 1) (butlast p)"
    using parts(2) by (simp add: butlast_conv_take drop_take)
  moreover have "a = take (k + 1) (butlast p)"
    using parts(1) k(3) by (simp add: butlast_conv_take)
  ultimately have "p = a @ l @ b" using p parts(3) by (metis append.assoc append_take_drop_id)
  moreover have "Suc (Suc k) < length p" using k(3) by linarith
  then have "l \<noteq> []" using parts(2) by simp
  moreover have "61 \<notin> set l" using last parts(2) by (metis Suc_eq_plus1 in_set_takeD)
  moreover have "a = take k p @ [61]" using parts(1) last by (simp add: take_Suc_conv_app_nth)
  ultimately show ?thesis using parts(3) by blast
qed

lemma extract_lane:
  "try_extract_lane p a b = Some l \<longleftrightarrow> p = a @ l @ b"
proof
  assume "p = a @ l @ b"
  then show "try_extract_lane p a b = Some l"
    by (simp add: try_extract_lane_def has_suffix_def Let_def)
next
  assume run: "try_extract_lane p a b = Some l"
  then obtain q where q: "p = a @ q" by (auto simp: try_extract_lane_def has_prefix_iff split: if_splits)
  from run have "drop (length p - length b) p = b"
    by (simp add: try_extract_lane_def has_suffix_def split: if_splits)
  moreover from run q have le: "length b \<le> length q" and l: "l = take (length q - length b) q"
    by (auto simp: try_extract_lane_def Let_def nat_diff_distrib split: if_splits)
  ultimately have "drop (length q - length b) q = b" using q by (simp add: drop_append)
  then show "p = a @ l @ b" using q l by (metis append_take_drop_id)
qed

section \<open>Reading a header, whatever the segmentation\<close>

lemma index_sub_beyond:
  assumes "index_sub p s = None" "index_sub p (s @ t) = Some i"
  shows "length s < i + length p"
proof (rule ccontr)
  assume "\<not> length s < i + length p"
  then have len: "i + length p \<le> length s" by simp
  from index_sub_Some [OF assms(2)] have "s @ t = take i (s @ t) @ p @ drop (i + length p) (s @ t)" by blast
  then have "take (length s) (s @ t) =
      take (length s) ((take i s @ p) @ drop (i + length p) (s @ t))"
    using len by simp
  then have "s = take i s @ p @ take (length s - (i + length p)) (drop (i + length p) (s @ t))"
    using len by (simp add: take_append)
  then show False using assms(1) index_sub_None_iff by metis
qed

lemma read_header_from_found:
  assumes "index_sub (CRLF @ CRLF) (bf @ seg_bytes r) = Some i" "i + 4 + 2048 \<le> 256 * 1024"
    and "parse_content_length U (take (i + 4) (bf @ seg_bytes r)) = Inr cl"
  shows "\<exists>extra r'. read_header_from U bf r = Inr (take (i + 4) (bf @ seg_bytes r), cl, extra, r') \<and>
    drop (i + 4) (bf @ seg_bytes r) = extra @ seg_bytes r' \<and> seg_end r' = seg_end r"
  using assms
proof (induction U bf r rule: read_header_from.induct)
  case (1 U bf r)
  show ?case
  proof (cases "index_sub (CRLF @ CRLF) bf")
    case (Some j)
    with index_sub_extend [OF Some, of "seg_bytes r"] "1.prems"(1) have j: "j = i" by simp
    from index_sub_Some [OF Some] j have "i + 4 \<le> length bf" by simp
    with Some j "1.prems"(3) show ?thesis
      by (subst read_header_from.simps) (auto simp: Let_def)
  next
    case None
    obtain chunk e r1 where c: "conn_read 2048 r = (chunk, e, r1)" by (metis prod_cases3)
    have e: "e = None"
    proof (cases e)
      case (Some x)
      with conn_read_endD [of 2048 r chunk x r1] c have "seg_bytes r = []" by (simp add: seg_bytes_def)
      with None "1.prems"(1) show ?thesis by simp
    qed simp
    from conn_read_okD [of 2048 r chunk r1] c e
    have rd: "seg_bytes r = chunk @ seg_bytes r1" "seg_end r1 = seg_end r" "length chunk \<le> 2048"
      by simp_all
    have "length bf < i + 4" using index_sub_beyond [OF None "1.prems"(1)] by simp
    with rd(3) "1.prems"(2) have small: "\<not> length (bf @ chunk) > 256 * 1024" by simp
    have bf: "(if length chunk > 0 then bf @ chunk else bf) = bf @ chunk" by simp
    have "read_header_from U bf r = read_header_from U (bf @ chunk) r1"
      using None c e small by (subst read_header_from.simps) (simp add: Let_def)
    moreover have "\<exists>extra r'. read_header_from U (bf @ chunk) r1 =
        Inr (take (i + 4) ((bf @ chunk) @ seg_bytes r1), cl, extra, r') \<and>
        drop (i + 4) ((bf @ chunk) @ seg_bytes r1) = extra @ seg_bytes r' \<and> seg_end r' = seg_end r1"
      using "1.IH" [OF None c [symmetric] refl refl _ e] small "1.prems" rd(1) bf by simp
    ultimately show ?thesis using rd(1,2) by simp
  qed
qed

section \<open>Rewriting and parsing\<close>

lemma split_join_lines:
  "ls \<noteq> [] \<Longrightarrow> list_all crlf_free ls \<Longrightarrow>
     split_on CRLF (join_with CRLF ls @ CRLF @ r) = ls @ split_on CRLF r"
proof (induction ls)
  case (Cons l ls)
  then show ?case by (cases "ls = []") (simp_all add: join_with_Cons)
qed simp

lemma length_name: "length l \<ge> 15 \<and> equal_fold (take 15 l) (str ''Content-Length:'') \<longleftrightarrow>
    has_prefix (map lower_byte l) (str ''content-length:'')"
proof -
  have p: "map lower_byte (str ''Content-Length:'') = str ''content-length:''"
    "length (str ''content-length:'') = 15"
    by (simp_all add: str_def lower_byte_def)
  show ?thesis
    unfolding has_prefix_def equal_fold_def p(1) p(2) take_map
    by (metis length_map length_take min.absorb_iff2 p(2))
qed

lemma replace_length_line_cases:
  assumes "list_all (list_all ascii) ls"
  shows "\<exists>pre post. list_all (\<lambda>l. \<not> has_prefix (to_lower U l) (str ''content-length:'')) pre \<and>
    set pre \<subseteq> set ls \<and> set post \<subseteq> set ls \<and>
    (case replace_length_line new ls of Some ls' \<Rightarrow> ls' | None \<Rightarrow> ls @ [new]) = pre @ new # post"
  using assms
proof (induction ls)
  case Nil
  then show ?case by (intro exI [of _ "[]"]) simp
next
  case (Cons l ls)
  from Cons.prems have low: "to_lower U l = map lower_byte l" by (simp add: to_lower_ascii)
  show ?case
  proof (cases "length l \<ge> 15 \<and> equal_fold (take 15 l) (str ''Content-Length:'')")
    case True
    then show ?thesis by (intro exI [of _ "[]"] exI [of _ ls]) auto
  next
    case False
    then have l: "\<not> has_prefix (to_lower U l) (str ''content-length:'')"
      by (simp only: length_name low not_False_eq_True)
    from Cons obtain pre post where ih:
      "list_all (\<lambda>l. \<not> has_prefix (to_lower U l) (str ''content-length:'')) pre"
      "set pre \<subseteq> set ls" "set post \<subseteq> set ls"
      "(case replace_length_line new ls of Some ls' \<Rightarrow> ls' | None \<Rightarrow> ls @ [new]) = pre @ new # post"
      by auto
    from False have "replace_length_line new (l # ls) = map_option (\<lambda>ls. l # ls) (replace_length_line new ls)"
      by (simp only: replace_length_line.simps if_False)
    with ih l show ?thesis
      by (intro exI [of _ "l # pre"] exI [of _ post]) (auto split: option.splits)
  qed
qed

section \<open>Passing a stream through\<close>

lemma send_raw_sent:
  assumes "out_open cc" "length p \<le> MaxFramePayloadBytes"
  shows "\<exists>cc' fs. send_raw p cc = (None, cc') \<and> out_open cc' \<and> concat fs = p \<and>
    sent cc' = sent cc @ wire_of (map (\<lambda>q. (FrameRawData, q)) fs) \<and>
    rawIn (CStats cc') = rawIn (CStats cc) + of_nat (length p)"
proof (cases "p = []")
  case True
  with assms(1) show ?thesis
    by (intro exI [of _ cc] exI [of _ "[]"]) (simp add: send_raw_def ok_def)
next
  case False
  let ?c = "cc\<lparr>CStats := add_raw_in (length p) (CStats cc)\<rparr>"
  have "out_open ?c" "frame_ok FrameRawData p"
    using assms frame_ok_raw [of p] by (simp_all add: out_open_def)
  from frame_sent [OF this] obtain d where
    d: "write_frame_count FrameRawData p ?c = (None, d)" "out_open d" "sent d = sent ?c @ frame_image FrameRawData p"
    by blast
  have "counts (write_frame_count FrameRawData p) 0" by (rule counts_frame)
  then have "rawIn (CStats d) = rawIn (CStats ?c)" using d(1) by (auto simp: counts_def)
  moreover have "send_raw p cc = (None, d)"
    using False d(1) by (simp add: send_raw_def and_then_def count_raw_in_def del: FrameRawData_def)
  ultimately show ?thesis
    using d(2,3) by (intro exI [of _ d] exI [of _ "[p]"]) (simp add: add_raw_in_def sent_def)
qed

lemma raw_wire_append:
  assumes "\<exists>fs. concat fs = p \<and> x = wire_of (map (\<lambda>q. (FrameRawData, q)) fs)"
    and "\<exists>fs. concat fs = p' \<and> x' = wire_of (map (\<lambda>q. (FrameRawData, q)) fs)"
  shows "\<exists>fs. concat fs = p @ p' \<and> x @ x' = wire_of (map (\<lambda>q. (FrameRawData, q)) fs)"
proof -
  from assms obtain fs gs where "concat fs = p" "x = wire_of (map (\<lambda>q. (FrameRawData, q)) fs)"
      "concat gs = p'" "x' = wire_of (map (\<lambda>q. (FrameRawData, q)) gs)" by blast
  then show ?thesis by (intro exI [of _ "fs @ gs"]) simp
qed

text \<open>An act that puts a text on the wire as RAW frames and counts it.\<close>

definition passes :: "enc act \<Rightarrow> go_error option \<Rightarrow> bytes \<Rightarrow> bool" where
  "passes f e p \<longleftrightarrow> (\<forall>cc. out_open cc \<longrightarrow>
     (\<exists>cc' fs. f cc = (e, cc') \<and> out_open cc' \<and> concat fs = p \<and>
        sent cc' = sent cc @ wire_of (map (\<lambda>q. (FrameRawData, q)) fs) \<and>
        rawIn (CStats cc') = rawIn (CStats cc) + of_nat (length p)))"

lemma passes_send: "length p \<le> MaxFramePayloadBytes \<Longrightarrow> passes (send_raw p) None p"
  using send_raw_sent by (simp add: passes_def)

lemma passes_then:
  assumes "passes f None p" "passes g e q"
  shows "passes (and_then f g) e (p @ q)"
  unfolding passes_def
proof (intro allI impI)
  fix cc
  assume "out_open cc"
  with assms(1) obtain c fs where c: "f cc = (None, c)" "out_open c" "concat fs = p"
      "sent c = sent cc @ wire_of (map (\<lambda>q. (FrameRawData, q)) fs)"
      "rawIn (CStats c) = rawIn (CStats cc) + of_nat (length p)"
    unfolding passes_def by blast
  with assms(2) obtain d gs where "g c = (e, d)" "out_open d" "concat gs = q"
      "sent d = sent c @ wire_of (map (\<lambda>q. (FrameRawData, q)) gs)"
      "rawIn (CStats d) = rawIn (CStats c) + of_nat (length q)"
    unfolding passes_def by blast
  with c show "\<exists>cc' fs. and_then f g cc = (e, cc') \<and> out_open cc' \<and> concat fs = p @ q \<and>
      sent cc' = sent cc @ wire_of (map (\<lambda>q. (FrameRawData, q)) fs) \<and>
      rawIn (CStats cc') = rawIn (CStats cc) + of_nat (length (p @ q))"
    by (intro exI [of _ d] exI [of _ "fs @ gs"]) (simp add: and_then_def)
qed

lemma passes_loop:
  "passes (pass_raw_loop r) (if seg_end r = ErrEOF then None else Some (seg_end r)) (seg_bytes r)"
proof (induction "reads_left r" arbitrary: r rule: less_induct)
  case less
  obtain chunk e r1 where c: "conn_read (32 * 1024) r = (chunk, e, r1)" by (metis prod_cases3)
  show ?case
  proof (cases e)
    case (Some x)
    with conn_read_endD [of "32 * 1024" r chunk x r1] c
    have "segs r = []" "chunk = []" "x = seg_end r" by simp_all
    with c Some show ?thesis
      unfolding passes_def
      by (subst pass_raw_loop.simps) (auto simp: send_raw_def ok_def seg_bytes_def intro: exI [of _ "[]"])
  next
    case None
    note rd = conn_read_okD [OF c [unfolded None]]
    have "pass_raw_loop r = and_then (send_raw chunk) (pass_raw_loop r1)"
      using c None by (intro ext) (subst pass_raw_loop.simps, simp add: and_then_def split: option.split prod.split)
    moreover have "passes (send_raw chunk) None chunk"
      using rd(3) by (intro passes_send) (simp add: MaxFramePayloadBytes_def)
    ultimately show ?thesis using passes_then [OF _ less [OF rd(4)]] rd(1,2) by (simp only:)
  qed
qed

section \<open>Properties\<close>

text \<open>
  C40: The header reader is exact for every segmentation. When the stream contains an empty line
  that ends within the limit (256 KiB less one read), \<^verbatim>\<open>readHTTPHeaderBlock\<close> returns the bytes
  up to and including the first one with the Content-Length they announce; what it has read
  beyond, together with what is still unread, is the rest of the stream; and
  \<^verbatim>\<open>readExactBody\<close> on both gives the announced number of bytes that follow.
\<close>

theorem header_and_body_exact:
  assumes "index_sub (CRLF @ CRLF) (seg_bytes r) = Some i" "i + 4 + 2048 \<le> 256 * 1024"
    and "parse_content_length U (take (i + 4) (seg_bytes r)) = Inr (int n)"
    and "0 < n" "int n \<le> max_alloc" "i + 4 + n \<le> length (seg_bytes r)"
  shows "\<exists>extra r' r''. read_http_header_block U r = Inr (take (i + 4) (seg_bytes r), int n, extra, r') \<and>
    drop (i + 4) (seg_bytes r) = extra @ seg_bytes r' \<and>
    read_exact_body (reader_of r') (int n) extra = Inr (take n (drop (i + 4) (seg_bytes r)), r'')"
proof -
  from read_header_from_found [of "[]" r i U "int n"] assms(1-3) obtain extra r' where
    hdr: "read_http_header_block U r = Inr (take (i + 4) (seg_bytes r), int n, extra, r')"
    and rest: "drop (i + 4) (seg_bytes r) = extra @ seg_bytes r'"
    by (auto simp: read_http_header_block_def)
  have len: "n \<le> length extra + length (seg_bytes r')"
    using assms(6) rest by (metis add_le_imp_le_diff add.commute length_append length_drop)
  have "\<exists>r''. read_exact_body (reader_of r') (int n) extra = Inr (take n (extra @ seg_bytes r'), r'')"
  proof (cases "n \<le> length extra")
    case True
    with assms(4,5) show ?thesis by (auto simp: read_exact_body_def)
  next
    case False
    from len have enough: "n - length extra \<le> length (seg_bytes r')" by linarith
    have "read_full (n - length extra) (reader_of r') =
        Inr (take (n - length extra) (seg_bytes r'),
          (reader_of r')\<lparr>rd_bytes := drop (n - length extra) (seg_bytes r')\<rparr>)"
      using enough False by (simp add: read_full_def reader_of_def)
    with False assms(4,5) show ?thesis by (auto simp: read_exact_body_def Let_def)
  qed
  with hdr rest show ?thesis by metis
qed

text \<open>
  A rewritten header announces the new length. For an ASCII header with an end,
  \<^verbatim>\<open>rewriteContentLength(hdr, n)\<close> replaces the first Content-Length line or adds one, keeps the
  end of the header and everything behind it, and \<^verbatim>\<open>parseContentLength\<close> of the result is \<open>n\<close>.
\<close>

theorem rewritten_length_parses:
  assumes "index_sub (CRLF @ CRLF) hdr = Some i" "list_all ascii hdr" "n < 2 ^ 63"
  shows "parse_content_length U (rewrite_content_length hdr (int n)) = Inr (int n) \<and>
    (\<exists>head. rewrite_content_length hdr (int n) = head @ drop i hdr)"
proof -
  let ?lines = "split_on CRLF (take i hdr)"
  let ?out = "case replace_length_line (length_line n) ?lines of Some ls \<Rightarrow> ls | None \<Rightarrow> ?lines @ [length_line n]"
  have new: "str ''Content-Length: '' @ itoa (int n) = length_line n"
    by (simp add: length_line_def itoa_def)
  have run: "rewrite_content_length hdr (int n) = join_with CRLF ?out @ drop i hdr"
    unfolding rewrite_content_length_def assms(1) option.case Let_def new by (rule refl)
  obtain rest where tail: "drop i hdr = CRLF @ CRLF @ rest"
    using index_sub_Some [OF assms(1)] by (metis append.assoc append_eq_conv_conj length_take min.absorb4
        less_imp_le nat_le_iff_add append_take_drop_id same_append_eq)
  have ascii_lines: "list_all (list_all ascii) ?lines"
  proof -
    have "join_with CRLF ?lines = take i hdr" by (rule join_split) simp
    moreover have "set l \<subseteq> set (join_with CRLF ls)" if "l \<in> set ls" for l ls
      using that by (induction ls rule: induct_list012) auto
    ultimately have "set l \<subseteq> set hdr" if "l \<in> set ?lines" for l
      using that by (metis in_set_takeD subset_iff)
    with assms(2) show ?thesis by (auto simp: list_all_iff)
  qed
  from replace_length_line_cases [OF this, of U "length_line n"] obtain pre post where
    out: "?out = pre @ length_line n # post" "set pre \<subseteq> set ?lines" "set post \<subseteq> set ?lines"
      "list_all (\<lambda>l. \<not> has_prefix (to_lower U l) (str ''content-length:'')) pre"
    by blast
  have free: "list_all crlf_free ?out"
    unfolding out(1) list_all_iff
    using out(2,3) split_on_crlf_free length_line_facts(2) newline_free_crlf_free by (auto dest: subsetD)
  have "parse_content_length U (rewrite_content_length hdr (int n)) =
      content_length_of_lines U (?out @ split_on CRLF (CRLF @ rest))"
    unfolding parse_content_length_def run tail
    using split_join_lines [of ?out "CRLF @ rest"] free out(1) by simp
  also have "\<dots> = Inr (int n)"
    using content_length_skip [OF out(4)] content_length_line [OF assms(3)] by (simp add: out(1))
  finally show ?thesis using run by blast
qed

text \<open>
  The pass-through is transparent. On an open connection \<^verbatim>\<open>passThroughRawStreamWithPrefix\<close>
  sends RAW frames whose payloads concatenate to the header, the extra bytes and the whole
  stream, counts exactly those bytes, and returns the error that ends the stream (nil at EOF).
\<close>

theorem pass_through_sends_everything:
  assumes "out_open cc" "length hdr \<le> MaxFramePayloadBytes" "length extra \<le> MaxFramePayloadBytes"
  shows "\<exists>cc' fs. pass_through_raw_stream_with_prefix hdr extra r cc =
      (if seg_end r = ErrEOF then None else Some (seg_end r), cc') \<and>
    concat fs = hdr @ extra @ seg_bytes r \<and>
    sent cc' = sent cc @ wire_of (map (\<lambda>q. (FrameRawData, q)) fs) \<and>
    rawIn (CStats cc') = rawIn (CStats cc) + of_nat (length (hdr @ extra @ seg_bytes r))"
proof -
  have "passes (pass_through_raw_stream_with_prefix hdr extra r)
      (if seg_end r = ErrEOF then None else Some (seg_end r)) (hdr @ extra @ seg_bytes r)"
    unfolding pass_through_raw_stream_with_prefix_def
    by (intro passes_then passes_send passes_loop assms)
  with assms(1) show ?thesis unfolding passes_def by blast
qed

section \<open>At concrete inputs\<close>

lemma sample_header_length:
  "parse_content_length U (str ''Content-Length: 3'' @ CRLF @ CRLF) = Inr 3"
proof -
  have line: "str ''Content-Length: 3'' = length_line 3"
    by (simp add: length_line_def format_uint.simps digit_char_def str_def)
  have "split_on CRLF (length_line 3 @ CRLF @ CRLF) = length_line 3 # split_on CRLF CRLF"
    using split_join_lines [of "[length_line 3]" CRLF]
      newline_free_crlf_free [OF length_line_facts(2), of 3] by simp
  then show ?thesis
    using content_length_line [of 3 U] by (simp add: parse_content_length_def line)
qed

theorem header_and_body_exact_witness:
  "let r = \<lparr>segs = [str ''Content-Length: 3'' @ [13], [10, 13, 10, 97], [98, 99, 100]],
        seg_end = ErrEOF\<rparr>;
       U = \<lparr>uni_lower = id, uni_trim = id, uni_trim_right = id\<rparr>;
       hdr = str ''Content-Length: 3'' @ CRLF @ CRLF
   in \<exists>extra r' r''. read_http_header_block U r = Inr (hdr, 3, extra, r') \<and>
        read_exact_body (reader_of r') 3 extra = Inr ([97, 98, 99], r'')"
proof -
  let ?U = "\<lparr>uni_lower = id, uni_trim = id, uni_trim_right = id\<rparr>"
  let ?r = "\<lparr>segs = [str ''Content-Length: 3'' @ [13], [10, 13, 10, 97], [98, 99, 100]],
        seg_end = ErrEOF\<rparr>"
  let ?hdr = "str ''Content-Length: 3'' @ CRLF @ CRLF"
  have all: "seg_bytes ?r = ?hdr @ [97, 98, 99, 100]"
    by (simp add: seg_bytes_def CRLF_def)
  have at: "index_sub (CRLF @ CRLF) (seg_bytes ?r) = Some 17"
    unfolding all by (simp add: CRLF_def str_def has_prefix_def)
  have hdr: "take (17 + 4) (seg_bytes ?r) = ?hdr" unfolding all by (simp add: CRLF_def str_def)
  have len: "parse_content_length ?U (take (17 + 4) (seg_bytes ?r)) = Inr (int 3)"
    unfolding hdr sample_header_length by simp
  have body: "take 3 (drop (17 + 4) (seg_bytes ?r)) = [97, 98, 99]"
    unfolding all by (simp add: CRLF_def str_def)
  have size: "17 + 4 + 3 \<le> length (seg_bytes ?r)" unfolding all by (simp add: CRLF_def str_def)
  from header_and_body_exact [OF at _ len _ _ size] show ?thesis
    unfolding Let_def hdr body by (auto simp: max_alloc_def)
qed

theorem rewritten_length_parses_witness:
  "parse_content_length \<lparr>uni_lower = id, uni_trim = id, uni_trim_right = id\<rparr>
     (rewrite_content_length (str ''PUT /w H'' @ CRLF @ CRLF) (int 42)) = Inr (int 42)"
  by (rule rewritten_length_parses [THEN conjunct1, of _ 8])
    (simp_all add: CRLF_def str_def has_prefix_def ascii_def)

theorem pass_through_sends_everything_witness:
  "\<exists>cc' fs. pass_through_raw_stream_with_prefix [1, 2] [] \<lparr>segs = [[3], [], [4, 5]], seg_end = ErrConn\<rparr>
      \<lparr>Destination = Some fresh_sink, Templates = Map.empty, SpanStats = Map.empty,
        CStats = new_conn_stats, Obs = None\<rparr> = (Some ErrConn, cc') \<and>
    concat fs = [1, 2, 3, 4, 5] \<and>
    sent cc' = wire_of (map (\<lambda>q. (FrameRawData, q)) fs) \<and> rawIn (CStats cc') = 5"
proof -
  let ?cc = "\<lparr>Destination = Some fresh_sink, Templates = Map.empty, SpanStats = Map.empty,
        CStats = new_conn_stats, Obs = None\<rparr>"
  have cc: "out_open ?cc" "sent ?cc = []" "rawIn (CStats ?cc) = 0"
    by (simp_all add: out_open_def sent_def new_conn_stats_def)
  have len: "length [1, 2 :: byte] \<le> MaxFramePayloadBytes" "length ([] :: bytes) \<le> MaxFramePayloadBytes"
    by (simp_all add: MaxFramePayloadBytes_def)
  from pass_through_sends_everything [OF cc(1) len, of "\<lparr>segs = [[3], [], [4, 5]], seg_end = ErrConn\<rparr>"]
  show ?thesis unfolding cc(2,3) by (auto simp: seg_bytes_def)
qed

end
