(* ===== verification/Fast_Path.thy ===== *)
theory Fast_Path
  imports Go_Streams Raw_Window
begin

text \<open>
  The reverse fast path (\<^verbatim>\<open>Run\<close> in \<^verbatim>\<open>internal/state/machine.go\<close>): bytes from the destination
  are copied to the source as they are until 256 bytes have been seen, and only then the
  reverse pipeline takes over. The reads see the segmentation of the stream.
\<close>

section \<open>The loop\<close>

definition reverseFastPathBytes :: u32 where "reverseFastPathBytes = 256"

text \<open>The inner write loop, with the observer of the reverse direction.\<close>

function fast_write ::
    "bytes \<Rightarrow> sink \<Rightarrow> raw_window option \<Rightarrow> go_error option \<times> sink \<times> raw_window option" where
  "fast_write out s w =
     (if length out > 0
      then (case conn_write out s of
              (wn, Some werr, s) \<Rightarrow> (Some werr, s, w)
            | (wn, None, s) \<Rightarrow>
                fast_write (drop wn out) s
                  (if wn > 0 then map_option (rw_append (take wn out)) w else w))
      else (None, s, w))"
  by pat_completeness auto
termination
  by (relation "measure (\<lambda>(out, s, w). length out)") (auto dest: conn_write_count [OF sym])

declare fast_write.simps [simp del]

text \<open>One iteration: the loop goes on with a new count, or the goroutine reports its end.\<close>

datatype fast_step = FastMore u32 | FastEnd "go_error option"

definition fast_read ::
    "u32 \<Rightarrow> seg_reader \<Rightarrow> sink \<Rightarrow> raw_window option \<Rightarrow>
     fast_step \<times> seg_reader \<times> sink \<times> raw_window option" where
  "fast_read seen r s w =
     (case conn_read (32 * 1024) r of
        (chunk, e, r) \<Rightarrow>
         (case (if length chunk > 0 then fast_write chunk s w else (None, s, w)) of
            (Some werr, s, w) \<Rightarrow> (FastEnd (Some werr), r, s, w)
          | (None, s, w) \<Rightarrow>
             (let seen = (if length chunk > 0 then seen + of_nat (length chunk) else seen)
              in (case e of
                    Some err \<Rightarrow> (FastEnd (if err = ErrEOF then None else Some err), r, s, w)
                  | None \<Rightarrow> (FastMore seen, r, s, w)))))"

lemma fast_read_moreD:
  assumes "fast_read seen r s w = (FastMore seen', r', s', w')"
  obtains chunk where "conn_read 32768 r = (chunk, None, r')" "seen' = seen + of_nat (length chunk)"
    "fast_write chunk s w = (None, s', w')"
proof -
  obtain chunk e r1 where c: "conn_read 32768 r = (chunk, e, r1)" by (metis prod_cases3)
  have nil: "fast_write [] s w = (None, s, w)" by (subst fast_write.simps) simp
  show thesis
    using assms c nil
    by (cases "chunk = []")
      (auto simp: fast_read_def Let_def split: option.splits prod.splits intro!: that [of chunk])
qed

text \<open>
  The whole loop; \<open>None\<close> when the threshold is crossed and the pipeline takes over, otherwise
  what the goroutine sends to \<^verbatim>\<open>doneBack\<close>.
\<close>

function fast_path ::
    "u32 \<Rightarrow> seg_reader \<Rightarrow> sink \<Rightarrow> raw_window option \<Rightarrow>
     go_error option option \<times> seg_reader \<times> sink \<times> raw_window option" where
  "fast_path seen r s w =
     (if seen < reverseFastPathBytes
      then (case fast_read seen r s w of
              (FastMore seen, r, s, w) \<Rightarrow> fast_path seen r s w
            | (FastEnd e, r, s, w) \<Rightarrow> (Some e, r, s, w))
      else (None, r, s, w))"
  by pat_completeness auto
termination
  by (relation "measure (\<lambda>(seen, r, s, w). reads_left r)")
    (auto elim!: fast_read_moreD [OF sym] dest!: conn_read_okD(4))

declare fast_path.simps [simp del]

section \<open>One iteration on an open connection\<close>

definition note_window :: "bytes \<Rightarrow> raw_window option \<Rightarrow> raw_window option" where
  "note_window p w = (if p = [] then w else map_option (rw_append p) w)"

lemma observed_note: "observed h w \<Longrightarrow> observed (h @ p) (note_window p w)"
  by (simp add: note_window_def observed_append)

lemma fast_write_open:
  assumes "snk_room s = None"
  shows "fast_write out s w = (None, s\<lparr>snk_bytes := snk_bytes s @ out\<rparr>, note_window out w)"
proof (cases "out = []")
  case True
  then show ?thesis by (subst fast_write.simps) (simp add: note_window_def)
next
  case False
  have "fast_write [] t v = (None, t, v)" for t v by (subst fast_write.simps) simp
  with False assms show ?thesis
    by (subst fast_write.simps) (simp add: note_window_def)
qed

lemma fast_read_open:
  assumes "snk_room s = None" "fast_read seen r s w = (st, r', s', w')"
  obtains chunk where "seg_bytes r = chunk @ seg_bytes r'" "seg_end r' = seg_end r"
    "length chunk \<le> 32768" "s' = s\<lparr>snk_bytes := snk_bytes s @ chunk\<rparr>" "w' = note_window chunk w"
    "st = FastMore (seen + of_nat (length chunk)) \<or>
     seg_bytes r = [] \<and> st = FastEnd (if seg_end r = ErrEOF then None else Some (seg_end r))"
proof -
  obtain chunk e r1 where c: "conn_read 32768 r = (chunk, e, r1)" by (metis prod_cases3)
  have w: "(if length chunk > 0 then fast_write chunk s w else (None, s, w)) =
      (None, s\<lparr>snk_bytes := snk_bytes s @ chunk\<rparr>, note_window chunk w)"
    using fast_write_open [OF assms(1)] by (simp add: note_window_def)
  have run: "fast_read seen r s w = (case e of
      None \<Rightarrow> (FastMore (seen + of_nat (length chunk)), r1, s\<lparr>snk_bytes := snk_bytes s @ chunk\<rparr>,
                note_window chunk w)
    | Some err \<Rightarrow> (FastEnd (if err = ErrEOF then None else Some err), r1,
                s\<lparr>snk_bytes := snk_bytes s @ chunk\<rparr>, note_window chunk w))"
    unfolding fast_read_def using c w by (simp add: Let_def split: option.splits)
  show thesis
  proof (cases e)
    case None
    with c conn_read_okD [of 32768 r chunk r1] run assms(2) show thesis
      by (intro that [of chunk]) simp_all
  next
    case (Some err)
    with c conn_read_endD [of 32768 r chunk err r1] run assms(2) show thesis
      by (intro that [of chunk]) (simp_all add: seg_bytes_def)
  qed
qed

text \<open>
  The state of the loop: what has been copied so far, counted without wrapping, and never more
  than one read beyond the threshold.
\<close>

definition fast_inv ::
    "bytes \<Rightarrow> sink \<Rightarrow> u32 \<Rightarrow> seg_reader \<Rightarrow> sink \<Rightarrow> raw_window option \<Rightarrow> bytes \<Rightarrow> bool" where
  "fast_inv all s0 seen r s w p \<longleftrightarrow>
     all = p @ seg_bytes r \<and> snk_bytes s = snk_bytes s0 @ p \<and> snk_room s = None \<and>
     unat seen = length p \<and> length p < 256 + 32768 \<and> observed p w"

lemma fast_inv_step:
  assumes inv: "fast_inv all s0 seen r s w p" and go: "seen < reverseFastPathBytes"
    and run: "fast_read seen r s w = (st, r', s', w')"
  shows "seg_end r' = seg_end r \<and> (case st of
      FastMore seen' \<Rightarrow> \<exists>chunk. fast_inv all s0 seen' r' s' w' (p @ chunk)
    | FastEnd e \<Rightarrow> fast_inv all s0 seen r' s' w' p \<and> seg_bytes r' = [] \<and>
        e = (if seg_end r = ErrEOF then None else Some (seg_end r)))"
proof -
  have "snk_room s = None" using inv by (simp add: fast_inv_def)
  then obtain chunk where c: "seg_bytes r = chunk @ seg_bytes r'" "seg_end r' = seg_end r"
      "length chunk \<le> 32768" "s' = s\<lparr>snk_bytes := snk_bytes s @ chunk\<rparr>" "w' = note_window chunk w"
      "st = FastMore (seen + of_nat (length chunk)) \<or>
       seg_bytes r = [] \<and> st = FastEnd (if seg_end r = ErrEOF then None else Some (seg_end r))"
    using run by (rule fast_read_open)
  have small: "length p < 256"
    using inv go by (simp add: fast_inv_def reverseFastPathBytes_def word_less_nat_alt)
  have "unat (seen + of_nat (length chunk)) = unat seen + unat (of_nat (length chunk) :: u32)"
    using small c(3) inv by (intro unat_add_lem [THEN iffD1]) (simp add: fast_inv_def)
  then have count: "unat (seen + of_nat (length chunk)) = length (p @ chunk)"
    using c(3) inv by (simp add: fast_inv_def)
  have more: "fast_inv all s0 (seen + of_nat (length chunk)) r' s' w' (p @ chunk)"
    using inv c(1,3-5) small count by (simp add: fast_inv_def observed_note)
  from c(6) show ?thesis
  proof
    assume "st = FastMore (seen + of_nat (length chunk))"
    with more c(2) show ?thesis by auto
  next
    assume "seg_bytes r = [] \<and> st = FastEnd (if seg_end r = ErrEOF then None else Some (seg_end r))"
    with c inv show ?thesis by (auto simp: fast_inv_def note_window_def)
  qed
qed

lemma fast_path_inv:
  assumes "fast_inv all s0 seen r s w p" "fast_path seen r s w = (res, r', s', w')"
  shows "\<exists>q seen'. fast_inv all s0 seen' r' s' w' q \<and> seg_end r' = seg_end r \<and>
    (case res of None \<Rightarrow> 256 \<le> length q
     | Some e \<Rightarrow> seg_bytes r' = [] \<and> length q < 256 \<and>
         e = (if seg_end r = ErrEOF then None else Some (seg_end r)))"
  using assms
proof (induction seen r s w arbitrary: p rule: fast_path.induct)
  case (1 seen r s w)
  show ?case
  proof (cases "seen < reverseFastPathBytes")
    case False
    with "1.prems"(2) have "res = None" "r' = r" "s' = s" "w' = w"
      by (subst (asm) fast_path.simps; simp)+
    moreover have "256 \<le> length p"
      using False "1.prems"(1) by (simp add: fast_inv_def reverseFastPathBytes_def word_le_nat_alt not_less)
    ultimately show ?thesis using "1.prems"(1) by auto
  next
    case True
    obtain st r1 s1 w1 where rd: "fast_read seen r s w = (st, r1, s1, w1)" by (metis prod_cases4)
    note step = fast_inv_step [OF "1.prems"(1) True rd]
    show ?thesis
    proof (cases st)
      case (FastMore seen1)
      with step obtain chunk where inv: "fast_inv all s0 seen1 r1 s1 w1 (p @ chunk)"
        and e: "seg_end r1 = seg_end r" by auto
      have "fast_path seen1 r1 s1 w1 = (res, r', s', w')"
        using "1.prems"(2) True rd FastMore by (subst (asm) fast_path.simps) simp
      from "1.IH" [OF True rd [unfolded FastMore, symmetric] refl refl refl inv this] show ?thesis
        by (simp only: e)
    next
      case (FastEnd e)
      have "res = Some e" "r' = r1" "s' = s1" "w' = w1"
        using "1.prems"(2) True rd FastEnd by (subst (asm) fast_path.simps; simp)+
      moreover have "length p < 256"
        using True "1.prems"(1) by (simp add: fast_inv_def reverseFastPathBytes_def word_less_nat_alt)
      ultimately show ?thesis using step FastEnd by auto
    qed
  qed
qed

lemma fast_path_one_read:
  assumes "256 \<le> length c" "length c \<le> 32768" "snk_room s = None"
  shows "fast_path 0 \<lparr>segs = c # rest, seg_end = e\<rparr> s w =
    (None, \<lparr>segs = rest, seg_end = e\<rparr>, s\<lparr>snk_bytes := snk_bytes s @ c\<rparr>, note_window c w)"
proof -
  have count: "unat (of_nat (length c) :: u32) = length c" using assms(2) by simp
  have big: "\<not> (of_nat (length c) :: u32) < reverseFastPathBytes"
    using assms(1) count by (simp add: word_less_nat_alt reverseFastPathBytes_def)
  have "fast_read 0 \<lparr>segs = c # rest, seg_end = e\<rparr> s w =
      (FastMore (of_nat (length c)), \<lparr>segs = rest, seg_end = e\<rparr>,
       s\<lparr>snk_bytes := snk_bytes s @ c\<rparr>, note_window c w)"
    using assms(1,2) fast_write_open [OF assms(3), of c w]
    by (auto simp: fast_read_def conn_read_def)
  moreover have "fast_path (of_nat (length c)) r' s' w' = (None, r', s', w')" for r' s' w'
    using big by (subst fast_path.simps) simp
  ultimately show ?thesis by (subst fast_path.simps) (simp add: reverseFastPathBytes_def)
qed

section \<open>Properties\<close>

text \<open>
  C19: The fast path loses nothing. On a source that takes every byte it copies a beginning of the
  reverse stream verbatim and leaves the rest to the pipeline unread; the observer has seen
  exactly what was copied. It hands over only after at least 256 bytes, never more than one
  read later, and otherwise ends with the stream, reporting its error (an orderly end as none).
\<close>

theorem fast_path_is_verbatim:
  assumes "snk_room s = None" "observed [] w" "fast_path 0 r s w = (res, r', s', w')"
  shows "\<exists>q. seg_bytes r = q @ seg_bytes r' \<and> snk_bytes s' = snk_bytes s @ q \<and> observed q w' \<and>
    length q < 256 + 32768 \<and>
    (case res of None \<Rightarrow> 256 \<le> length q
     | Some e \<Rightarrow> seg_bytes r' = [] \<and> length q < 256 \<and>
         e = (if seg_end r = ErrEOF then None else Some (seg_end r)))"
proof -
  have "fast_inv (seg_bytes r) s 0 r s w []" using assms(1,2) by (simp add: fast_inv_def)
  from fast_path_inv [OF this assms(3)] show ?thesis unfolding fast_inv_def by blast
qed

text \<open>
  Where the fast path ends depends on the segmentation. The same bytes, \<open>raw\<close> of at least 256
  followed by the peer's frames: when they arrive in two reads the frames are left to the
  decoder; when they arrive in one read the frames themselves are copied to the client as if
  they were response bytes, and the decoder never sees them.
\<close>

theorem fast_path_depends_on_segmentation:
  assumes "256 \<le> length raw" "length raw + length frames \<le> 32768" "snk_room s = None"
  shows "fast_path 0 \<lparr>segs = [raw, frames], seg_end = e\<rparr> s None =
      (None, \<lparr>segs = [frames], seg_end = e\<rparr>, s\<lparr>snk_bytes := snk_bytes s @ raw\<rparr>, None) \<and>
    fast_path 0 \<lparr>segs = [raw @ frames], seg_end = e\<rparr> s None =
      (None, \<lparr>segs = [], seg_end = e\<rparr>, s\<lparr>snk_bytes := snk_bytes s @ raw @ frames\<rparr>, None)"
proof -
  have one: "fast_path 0 \<lparr>segs = c # rest, seg_end = e\<rparr> s None =
      (None, \<lparr>segs = rest, seg_end = e\<rparr>, s\<lparr>snk_bytes := snk_bytes s @ c\<rparr>, None)"
    if "256 \<le> length c" "length c \<le> 32768" for c rest
    using fast_path_one_read [OF that assms(3)] by (simp add: note_window_def)
  show ?thesis using assms(1,2) one [of raw "[frames]"] one [of "raw @ frames" "[]"] by simp
qed

lemma small_reply:
  "fast_path 0 \<lparr>segs = [str ''HTTP/1.1 204 OK'', [13, 10]], seg_end = ErrEOF\<rparr>
     \<lparr>snk_bytes = [], snk_room = None\<rparr> None =
   (Some None, \<lparr>segs = [], seg_end = ErrEOF\<rparr>,
    \<lparr>snk_bytes = str ''HTTP/1.1 204 OK'' @ [13, 10], snk_room = None\<rparr>, None)"
  by (simp add: fast_path.simps reverseFastPathBytes_def fast_read_def conn_read_def
      fast_write_open note_window_def str_def)

theorem fast_path_is_verbatim_witness:
  "\<exists>res r' s' w'. fast_path 0 \<lparr>segs = [str ''HTTP/1.1 204 OK'', [13, 10]], seg_end = ErrEOF\<rparr>
       \<lparr>snk_bytes = [], snk_room = None\<rparr> None = (res, r', s', w') \<and> res = Some None \<and>
     (\<exists>q. str ''HTTP/1.1 204 OK'' @ [13, 10] = q @ seg_bytes r' \<and> snk_bytes s' = q \<and>
        seg_bytes r' = [] \<and> length q < 256 \<and> observed q w')"
proof -
  have "observed [] None" by (simp add: observed_def)
  from fast_path_is_verbatim [OF _ this small_reply] small_reply show ?thesis
    by (auto simp: seg_bytes_def)
qed

theorem fast_path_depends_on_segmentation_witness:
  "fast_path 0 \<lparr>segs = [replicate 256 65 @ [0xEC, 1]], seg_end = ErrEOF\<rparr>
     \<lparr>snk_bytes = [], snk_room = None\<rparr> None =
   (None, \<lparr>segs = [], seg_end = ErrEOF\<rparr>,
    \<lparr>snk_bytes = [] @ replicate 256 65 @ [0xEC, 1], snk_room = None\<rparr>, None)"
proof -
  have "256 \<le> length (replicate 256 65 :: bytes)"
    "length (replicate 256 65 :: bytes) + length [0xEC, 1 :: byte] \<le> 32768"
    by simp_all
  from fast_path_depends_on_segmentation [OF this, of "\<lparr>snk_bytes = [], snk_room = None\<rparr>" ErrEOF]
  show ?thesis by (simp only: sink.simps)
qed

end
