(* ===== verification/Machine.thy ===== *)
theory Machine
  imports Codec_Correct Decoder_Invariant Fast_Path
begin

text \<open>
  The two lanes of one connection (\<^verbatim>\<open>Run\<close> in \<^verbatim>\<open>internal/state/machine.go\<close>): the forward lane
  runs the encoder or the decoder, the reverse goroutine first the fast path and then the
  other one. They run concurrently and share one template dictionary; a step of the machine
  is one iteration of one of the loops, in any order.
\<close>

section \<open>The iterations of the loops\<close>

text \<open>
  One pass through the body of each loop: \<open>None\<close> to go on, otherwise the value returned.
\<close>

definition encode_iter ::
    "go_env \<Rightarrow> bool \<Rightarrow> reader \<Rightarrow> enc_lane \<Rightarrow> go_error option option \<times> reader \<times> enc_lane" where
  "encode_iter E canceled r st =
     (if canceled then (Some (Some ErrCanceled), r, st)
      else case read_http_request_body (tables E) r maxHeaderBytes maxBodyBytes of
        Inl err \<Rightarrow> (Some (if err = ErrEOF then None else Some err), r, st)
      | Inr (meta, body, r') \<Rightarrow>
         (case encode_request E meta body st of
            (Some err, st') \<Rightarrow> (Some (Some err), r', st')
          | (None, st') \<Rightarrow> (None, r', st')))"

definition decode_iter ::
    "unicode \<Rightarrow> bool \<Rightarrow> reader \<Rightarrow> dec \<Rightarrow> go_error option option \<times> reader \<times> dec" where
  "decode_iter U canceled r dc =
     (if canceled then (Some (Some ErrCanceled), r, dc)
      else case read_frame r of
        Inl err \<Rightarrow> (Some (if err = ErrEOF then None else Some err), r, dc)
      | Inr (h, payload, r') \<Rightarrow>
         (case handle_frame U (Type h) payload dc of
            (Some err, dc') \<Rightarrow> (Some (Some err), r', dc')
          | (None, dc') \<Rightarrow> (None, r', dc')))"

lemma encode_loop_iter:
  "encode_loop E k r st = (case encode_iter E (ctx_done E k) r st of
     (Some res, _, st') \<Rightarrow> (res, st') | (None, r', st') \<Rightarrow> encode_loop E (Suc k) r' st')"
  by (subst encode_loop.simps) (simp add: encode_iter_def split: sum.splits prod.splits option.splits)

lemma decode_loop_iter:
  "decode_loop U canceled k r dc = (case decode_iter U (canceled k) r dc of
     (Some res, _, dc') \<Rightarrow> (res, dc') | (None, r', dc') \<Rightarrow> decode_loop U canceled (Suc k) r' dc')"
  by (subst decode_loop.simps) (simp add: decode_iter_def split: sum.splits prod.splits option.splits)

section \<open>State\<close>

datatype rev_phase =
    RevFast u32
  | RevPipe
  | RevEnded "go_error option"

text \<open>
  \<^verbatim>\<open>Shared\<close> is the one \<^verbatim>\<open>*Dict\<close> both lanes point to; \<open>EncLane\<close>, \<open>DecLane\<close> hold the variables of
  the two loops with their destination and observer, \<open>RevIn\<close> the reverse stream while the
  fast path reads it. \<open>Canceled\<close> is \<^verbatim>\<open>cc.Ctx\<close>, cancelled when the forward lane has returned.
\<close>

record machine =
  MMode :: mode
  Canceled :: bool
  Shared :: dict
  EncLane :: enc_lane
  EncIn :: reader
  DecLane :: dec
  DecIn :: reader
  FwdEnd :: "go_error option option"
  RevPhase :: rev_phase
  RevIn :: seg_reader

section \<open>Steps\<close>

text \<open>The two pipelines, each working on the shared dictionary.\<close>

definition run_encoder :: "go_env \<Rightarrow> machine \<Rightarrow> go_error option option \<times> machine" where
  "run_encoder E m =
     (let st = (EncLane m)\<lparr>Enc := (Enc (EncLane m))\<lparr>Templates := Shared m\<rparr>\<rparr>
      in (case encode_iter E (Canceled m) (EncIn m) st of
            (res, r, st) \<Rightarrow>
              (res, m\<lparr>EncLane := st, EncIn := r, Shared := Templates (Enc st)\<rparr>)))"

definition run_decoder :: "go_env \<Rightarrow> machine \<Rightarrow> go_error option option \<times> machine" where
  "run_decoder E m =
     (let dc = (DecLane m)\<lparr>DTemplates := Shared m\<rparr>
      in (case decode_iter (tables E) (Canceled m) (DecIn m) dc of
            (res, r, dc) \<Rightarrow> (res, m\<lparr>DecLane := dc, DecIn := r, Shared := DTemplates dc\<rparr>)))"

text \<open>The forward lane; when it returns, the context is cancelled.\<close>

definition forward_step :: "go_env \<Rightarrow> machine \<Rightarrow> machine" where
  "forward_step E m =
     (case (case MMode m of ModeEncode \<Rightarrow> run_encoder E m | ModeDecode \<Rightarrow> run_decoder E m) of
        (None, m) \<Rightarrow> m
      | (Some res, m) \<Rightarrow> m\<lparr>FwdEnd := Some res, Canceled := True\<rparr>)"

text \<open>
  The fast path writes to the source of the connection, which is the destination of the lane
  that will run the reverse pipeline, and notes the bytes in that lane's observer.
\<close>

definition reverse_fast :: "u32 \<Rightarrow> machine \<Rightarrow> machine" where
  "reverse_fast seen m =
     (case MMode m of
        ModeEncode \<Rightarrow>
          (case fast_read seen (RevIn m) (DDest (DecLane m)) (DWindow (DecLane m)) of
             (st, r, s, w) \<Rightarrow>
               m\<lparr>RevIn := r, DecLane := (DecLane m)\<lparr>DDest := s, DWindow := w\<rparr>,
                 RevPhase := (case st of FastMore n \<Rightarrow> RevFast n | FastEnd e \<Rightarrow> RevEnded e)\<rparr>)
      | ModeDecode \<Rightarrow>
          (case Destination (Enc (EncLane m)) of
             None \<Rightarrow> m\<lparr>RevPhase := RevEnded (Some GoPanic)\<rparr>
           | Some s \<Rightarrow>
              (case fast_read seen (RevIn m) s (RawWindowFwd (EncLane m)) of
                 (st, r, s, w) \<Rightarrow>
                   m\<lparr>RevIn := r,
                     EncLane := (EncLane m)\<lparr>Enc := (Enc (EncLane m))\<lparr>Destination := Some s\<rparr>,
                       RawWindowFwd := w\<rparr>,
                     RevPhase := (case st of FastMore n \<Rightarrow> RevFast n | FastEnd e \<Rightarrow> RevEnded e)\<rparr>)))"

definition reverse_handover :: "machine \<Rightarrow> machine" where
  "reverse_handover m =
     (case MMode m of
        ModeEncode \<Rightarrow> m\<lparr>RevPhase := RevPipe, DecIn := reader_of (RevIn m)\<rparr>
      | ModeDecode \<Rightarrow> m\<lparr>RevPhase := RevPipe, EncIn := reader_of (RevIn m)\<rparr>)"

definition reverse_pipe :: "go_env \<Rightarrow> machine \<Rightarrow> machine" where
  "reverse_pipe E m =
     (case (case MMode m of ModeEncode \<Rightarrow> run_decoder E m | ModeDecode \<Rightarrow> run_encoder E m) of
        (None, m) \<Rightarrow> m
      | (Some res, m) \<Rightarrow> m\<lparr>RevPhase := RevEnded res\<rparr>)"

inductive mstep :: "go_env \<Rightarrow> machine \<Rightarrow> machine \<Rightarrow> bool" for E where
  forward: "FwdEnd m = None \<Longrightarrow> mstep E m (forward_step E m)"
| fast: "RevPhase m = RevFast seen \<Longrightarrow> seen < reverseFastPathBytes \<Longrightarrow>
    mstep E m (reverse_fast seen m)"
| handover: "RevPhase m = RevFast seen \<Longrightarrow> \<not> seen < reverseFastPathBytes \<Longrightarrow>
    mstep E m (reverse_handover m)"
| pipe: "RevPhase m = RevPipe \<Longrightarrow> mstep E m (reverse_pipe E m)"

inductive_cases mstepE: "mstep E m m'"

section \<open>The start\<close>

text \<open>
  What \<^verbatim>\<open>Run\<close> sets up before the goroutines: one empty dictionary, an observer of 2 MB per
  direction, fresh counters.
\<close>

definition new_observer :: "raw_window option" where
  "new_observer = (case new_raw_window (int rawWindowSizeBytes) of Inr w \<Rightarrow> Some w | Inl _ \<Rightarrow> None)"

definition start_lane :: "sink option \<Rightarrow> dict \<Rightarrow> conn_stats \<Rightarrow> raw_window option \<Rightarrow> enc_lane" where
  "start_lane dst d stats window =
     \<lparr>Enc = \<lparr>Destination = dst, Templates = d, SpanStats = Map.empty, CStats = stats, Obs = None\<rparr>,
      Learner = (new_aggregator (1 * 1024 * 1024))\<lparr>WindowStart := 0, WindowEnd := 0\<rparr>,
      PacketID = 0, TruthOffset = 0, RawWindowFwd = window\<rparr>"

definition start_machine :: "mode \<Rightarrow> reader \<Rightarrow> sink \<Rightarrow> seg_reader \<Rightarrow> sink \<Rightarrow> machine" where
  "start_machine md fwd_in dst rev_in src =
     \<lparr>MMode = md, Canceled = False, Shared = new_dict,
      EncLane = start_lane (Some (case md of ModeEncode \<Rightarrow> dst | ModeDecode \<Rightarrow> src)) new_dict
        new_conn_stats new_observer,
      EncIn = (case md of ModeEncode \<Rightarrow> fwd_in | ModeDecode \<Rightarrow> reader_of rev_in),
      DecLane = new_dec (Some new_dict) 0 (case md of ModeEncode \<Rightarrow> src | ModeDecode \<Rightarrow> dst) new_observer,
      DecIn = (case md of ModeEncode \<Rightarrow> reader_of rev_in | ModeDecode \<Rightarrow> fwd_in),
      FwdEnd = None, RevPhase = RevFast 0, RevIn = rev_in\<rparr>"

lemma run_encode_start_lane:
  "run_encode_template_v1 E dst (Some d) stats window r = encode_loop E 0 r (start_lane dst d stats window)"
  by (simp add: run_encode_template_v1_def start_lane_def)

section \<open>The encoder never looks at the dictionary\<close>

text \<open>
  The encoder writes the templates it has defined into the shared dictionary but decides by
  its own statistics alone: its acts give the same results whatever the dictionary holds.
\<close>

definition forget :: "enc \<Rightarrow> enc" where
  "forget cc = cc\<lparr>Templates := Map.empty\<rparr>"

definition ignores_dict :: "enc act \<Rightarrow> bool" where
  "ignores_dict f \<longleftrightarrow>
     (\<forall>cc T. fst (f (cc\<lparr>Templates := T\<rparr>)) = fst (f cc) \<and>
        forget (snd (f (cc\<lparr>Templates := T\<rparr>))) = forget (snd (f cc)))"

lemma forget_eqE:
  assumes "forget c = forget cc"
  obtains T where "c = cc\<lparr>Templates := T\<rparr>"
  using assms by (cases c; cases cc) (auto simp: forget_def)

lemma ignores_dictD:
  "ignores_dict f \<Longrightarrow> forget c = forget cc \<Longrightarrow>
     fst (f c) = fst (f cc) \<and> forget (snd (f c)) = forget (snd (f cc))"
  by (auto simp: ignores_dict_def elim!: forget_eqE)

lemma ignores_dict_then:
  assumes "ignores_dict f" "ignores_dict g"
  shows "ignores_dict (and_then f g)"
  unfolding ignores_dict_def
proof (intro allI)
  fix cc T
  have "fst (f (cc\<lparr>Templates := T\<rparr>)) = fst (f cc)"
    and f: "forget (snd (f (cc\<lparr>Templates := T\<rparr>))) = forget (snd (f cc))"
    using assms(1) by (simp_all add: ignores_dict_def)
  with ignores_dictD [OF assms(2) f]
  show "fst (and_then f g (cc\<lparr>Templates := T\<rparr>)) = fst (and_then f g cc) \<and>
      forget (snd (and_then f g (cc\<lparr>Templates := T\<rparr>))) = forget (snd (and_then f g cc))"
    by (cases "f cc"; cases "f (cc\<lparr>Templates := T\<rparr>)"; cases "fst (f cc)") (auto simp: and_then_def)
qed

lemma ignores_dict_frame: "ignores_dict (write_frame_count t p)"
  unfolding ignores_dict_def forget_def write_frame_count_def Let_def
  by (simp split: option.split prod.split)

lemma ignores_dict_ref_or_raw: "ignores_dict (emit_ref_or_raw tid lane raw)"
  using ignores_dict_frame by (auto simp: emit_ref_or_raw_def split: sum.splits)

lemma ignores_dict_update:
  assumes "ignores_dict f" "\<And>cc T. forget (u (cc\<lparr>Templates := T\<rparr>)) = forget (u cc)"
  shows "ignores_dict (\<lambda>cc. f (u cc))"
  using ignores_dictD [OF assms(1) assms(2)] by (simp add: ignores_dict_def)

lemma ignores_dict_promotion: "ignores_dict (emit_with_delayed_promotion a l b)"
proof -
  let ?tid = "template_id_for a b" and ?raw = "a @ l @ b"
  note raw = ignores_dict_frame [of FrameRawData ?raw]
    and ref = ignores_dict_ref_or_raw [of ?tid l ?raw]
  have "ignores_dict (and_then (write_frame_count FrameTemplateDefine p)
      (\<lambda>cc. emit_ref_or_raw ?tid l ?raw (cc\<lparr>Templates := (Templates cc)(?tid \<mapsto> tm),
         SpanStats := (SpanStats cc)(?tid \<mapsto> st)\<rparr>)))" for p tm st
    by (intro ignores_dict_then ignores_dict_frame ignores_dict_update [OF ref]) (simp add: forget_def)
  note dfn = ignores_dictD [OF this]
  show ?thesis
    unfolding ignores_dict_def
  proof (intro allI)
    fix cc T
    have f: "forget (cc\<lparr>Templates := T, SpanStats := S\<rparr>) = forget (cc\<lparr>SpanStats := S\<rparr>)" for S
      by (simp add: forget_def)
    have same: "forget (cc\<lparr>Templates := T\<rparr>) = forget cc" by (simp add: forget_def)
    show "fst (emit_with_delayed_promotion a l b (cc\<lparr>Templates := T\<rparr>)) =
          fst (emit_with_delayed_promotion a l b cc) \<and>
        forget (snd (emit_with_delayed_promotion a l b (cc\<lparr>Templates := T\<rparr>))) =
          forget (snd (emit_with_delayed_promotion a l b cc))"
      using ignores_dictD [OF raw f] ignores_dictD [OF raw same] ignores_dictD [OF ref f] dfn [OF f]
      by (simp add: emit_with_delayed_promotion_def Let_def split: sum.split
          del: FrameRawData_def FrameTemplateDefine_def)
  qed
qed

interpretation solitary: encoding_steps ignores_dict
proof
  show "ignores_dict ok" "ignores_dict (observe ob)" "ignores_dict (count_raw_in n)" for ob n
    by (simp_all add: ignores_dict_def ok_def observe_def count_raw_in_def forget_def)
qed (rule ignores_dict_then ignores_dict_promotion ignores_dict_frame; assumption?)+

definition forget_lane :: "enc_lane \<Rightarrow> enc_lane" where
  "forget_lane st = st\<lparr>Enc := forget (Enc st)\<rparr>"

lemma forget_lane_eqD:
  assumes "forget_lane st = forget_lane st'"
  shows "forget (Enc st) = forget (Enc st')" "Learner st = Learner st'" "PacketID st = PacketID st'"
    "TruthOffset st = TruthOffset st'" "RawWindowFwd st = RawWindowFwd st'"
  using assms by (cases st; cases st'; simp add: forget_lane_def)+

lemma forget_laneI:
  "\<lbrakk>forget (Enc st) = forget (Enc st'); Learner st = Learner st'; PacketID st = PacketID st';
    TruthOffset st = TruthOffset st'; RawWindowFwd st = RawWindowFwd st'\<rbrakk> \<Longrightarrow>
     forget_lane st = forget_lane st'"
  by (cases st; cases st') (simp add: forget_lane_def)

lemma encode_request_forget:
  assumes "forget_lane st = forget_lane st'"
  shows "fst (encode_request E meta body st) = fst (encode_request E meta body st') \<and>
    forget_lane (snd (encode_request E meta body st)) = forget_lane (snd (encode_request E meta body st'))"
proof -
  let ?hdr = "normalize_http_headers (tables E) (HeaderBytes meta) (int (length body))"
  let ?off = "TruthOffset st' + of_nat (length ?hdr)"
  let ?body = "and_then (count_raw_in (length body)) (encode_body_as_lines body ?off)"
  note eq = forget_lane_eqD [OF assms]
  obtain e c where c: "encode_header_lines ?hdr (Enc st) = (e, c)" by fastforce
  obtain e' c' where c': "encode_header_lines ?hdr (Enc st') = (e', c')" by fastforce
  from ignores_dictD [OF solitary.header eq(1), of ?hdr] c c'
  have h: "e = e'" "forget c = forget c'" by simp_all
  then have h': "forget (c\<lparr>Obs := Some []\<rparr>) = forget (c'\<lparr>Obs := Some []\<rparr>)"
    by (cases c; cases c') (simp add: forget_def)
  obtain x d where d: "?body (c\<lparr>Obs := Some []\<rparr>) = (x, d)" by fastforce
  obtain x' d' where d': "?body (c'\<lparr>Obs := Some []\<rparr>) = (x', d')" by fastforce
  from ignores_dictD [OF solitary.body h', of "length body" body ?off] d d'
  have b: "x = x'" "forget d = forget d'" by simp_all
  then have obs: "Obs d = Obs d'" by (cases d; cases d') (simp add: forget_def)
  show ?thesis
    using h(2) b(2) obs
    by (simp add: encode_request_def Let_def c c' d d' eq(2-5) h(1) b(1) split: option.split)
      (simp add: forget_lane_def eq)
qed

lemma encode_iter_forget:
  assumes "forget_lane st = forget_lane st'"
    and "encode_iter E c r st = (res, r1, st1)" "encode_iter E c r st' = (res', r1', st1')"
  shows "res = res' \<and> r1 = r1' \<and> forget_lane st1 = forget_lane st1'"
proof (cases "c \<or> (\<exists>x. read_http_request_body (tables E) r maxHeaderBytes maxBodyBytes = Inl x)")
  case True
  with assms show ?thesis by (auto simp: encode_iter_def split: if_splits)
next
  case False
  then obtain meta body r2 where
    "read_http_request_body (tables E) r maxHeaderBytes maxBodyBytes = Inr (meta, body, r2)" "\<not> c"
    by (metis prod_cases3 sum.exhaust)
  with assms(2,3) encode_request_forget [OF assms(1), of E meta body] show ?thesis
    by (cases "encode_request E meta body st"; cases "encode_request E meta body st'")
      (auto simp: encode_iter_def split: option.splits)
qed

section \<open>The forward encoder in the company of the reverse lane\<close>

text \<open>The lane as it would go on alone, from a state of the machine.\<close>

definition alone :: "go_env \<Rightarrow> reader \<Rightarrow> enc_lane \<Rightarrow> go_error option \<times> enc_lane \<Rightarrow> bool" where
  "alone E r st out \<longleftrightarrow>
     (\<exists>k st'. forget_lane st' = forget_lane st \<and> encode_loop E k r st' = out)"

lemma alone_iter:
  assumes "\<forall>k. \<not> ctx_done E k" "alone E r st out"
    and "encode_iter E False r (st\<lparr>Enc := (Enc st)\<lparr>Templates := T\<rparr>\<rparr>) = (res, r', st')"
  shows "case res of None \<Rightarrow> alone E r' st' out
    | Some e \<Rightarrow> fst out = e \<and> forget_lane (snd out) = forget_lane st'"
proof -
  obtain k s where s: "forget_lane s = forget_lane st" "encode_loop E k r s = out"
    using assms(2) unfolding alone_def by blast
  have "forget_lane (st\<lparr>Enc := (Enc st)\<lparr>Templates := T\<rparr>\<rparr>) = forget_lane st"
    by (simp add: forget_lane_def forget_def)
  then have eq: "forget_lane s = forget_lane (st\<lparr>Enc := (Enc st)\<lparr>Templates := T\<rparr>\<rparr>)"
    using s(1) by simp
  obtain res1 r1 s1 where it: "encode_iter E False r s = (res1, r1, s1)" by (metis prod_cases3)
  note same = encode_iter_forget [OF eq it assms(3)]
  have loop: "encode_loop E k r s =
      (case (res1, r1, s1) of (Some x, _, s') \<Rightarrow> (x, s') | (None, r', s') \<Rightarrow> encode_loop E (Suc k) r' s')"
    using encode_loop_iter [of E k r s] it assms(1) by simp
  show ?thesis
  proof (cases res)
    case None
    with same loop s(2) have "encode_loop E (Suc k) r' s1 = out" "forget_lane s1 = forget_lane st'"
      by simp_all
    with None show ?thesis by (auto simp: alone_def)
  next
    case (Some e)
    with same loop s(2) have "out = (e, s1)" "forget_lane s1 = forget_lane st'" by simp_all
    with Some show ?thesis by simp
  qed
qed

definition forward_sim :: "go_env \<Rightarrow> go_error option \<times> enc_lane \<Rightarrow> machine \<Rightarrow> bool" where
  "forward_sim E out m \<longleftrightarrow> MMode m = ModeEncode \<and>
     (case FwdEnd m of
        None \<Rightarrow> \<not> Canceled m \<and> alone E (EncIn m) (EncLane m) out
      | Some e \<Rightarrow> fst out = e \<and> forget_lane (snd out) = forget_lane (EncLane m))"

text \<open>What the reverse lane leaves alone in encode mode.\<close>

lemma reverse_keeps_encoder:
  assumes "MMode m = ModeEncode"
  shows "EncLane (reverse_fast seen m) = EncLane m" "EncIn (reverse_fast seen m) = EncIn m"
    "FwdEnd (reverse_fast seen m) = FwdEnd m" "Canceled (reverse_fast seen m) = Canceled m"
    "MMode (reverse_fast seen m) = ModeEncode"
    "EncLane (reverse_handover m) = EncLane m" "EncIn (reverse_handover m) = EncIn m"
    "FwdEnd (reverse_handover m) = FwdEnd m" "Canceled (reverse_handover m) = Canceled m"
    "MMode (reverse_handover m) = ModeEncode"
    "EncLane (reverse_pipe E m) = EncLane m" "EncIn (reverse_pipe E m) = EncIn m"
    "FwdEnd (reverse_pipe E m) = FwdEnd m" "Canceled (reverse_pipe E m) = Canceled m"
    "MMode (reverse_pipe E m) = ModeEncode"
  using assms
  by (simp_all add: reverse_fast_def reverse_handover_def reverse_pipe_def run_decoder_def Let_def
      split: prod.split option.split)

lemma forward_sim_cong:
  assumes "forward_sim E out m" "EncLane m' = EncLane m" "EncIn m' = EncIn m"
    "FwdEnd m' = FwdEnd m" "Canceled m' = Canceled m" "MMode m' = ModeEncode"
  shows "forward_sim E out m'"
  using assms(1) unfolding forward_sim_def assms(2-6) by blast

lemma forward_sim_step:
  assumes never: "\<forall>k. \<not> ctx_done E k" and "mstep E m m'" "forward_sim E out m"
  shows "forward_sim E out m'"
  using assms(2,3)
proof (cases rule: mstep.cases)
  case forward
  note md = assms(3) [unfolded forward_sim_def, THEN conjunct1]
  have run: "\<not> Canceled m" "alone E (EncIn m) (EncLane m) out"
    using assms(3) forward(2) by (simp_all add: forward_sim_def)
  obtain res r st where it: "encode_iter E False (EncIn m)
      ((EncLane m)\<lparr>Enc := (Enc (EncLane m))\<lparr>Templates := Shared m\<rparr>\<rparr>) = (res, r, st)"
    by (metis prod_cases3)
  from alone_iter [OF never run(2) it] md run(1) it forward(1) forward(2) show ?thesis
    by (cases res) (simp_all add: forward_sim_def forward_step_def run_encoder_def)
next
  case (fast seen)
  have "MMode m = ModeEncode" using assms(3) by (simp add: forward_sim_def)
  from forward_sim_cong [OF assms(3)] reverse_keeps_encoder [OF this] fast show ?thesis by simp
next
  case (handover seen)
  have "MMode m = ModeEncode" using assms(3) by (simp add: forward_sim_def)
  from forward_sim_cong [OF assms(3)] reverse_keeps_encoder [OF this] handover show ?thesis by simp
next
  case pipe
  have "MMode m = ModeEncode" using assms(3) by (simp add: forward_sim_def)
  from forward_sim_cong [OF assms(3)] reverse_keeps_encoder [OF this] pipe show ?thesis by simp
qed

lemma forward_sim_start:
  "forward_sim E (run_encode_template_v1 E (Some dst) None new_conn_stats new_observer r)
     (start_machine ModeEncode r dst rr src)"
proof -
  have "run_encode_template_v1 E (Some dst) None new_conn_stats new_observer r =
      run_encode_template_v1 E (Some dst) (Some new_dict) new_conn_stats new_observer r"
    by (simp add: run_encode_template_v1_def)
  then show ?thesis
    by (auto simp: forward_sim_def start_machine_def alone_def run_encode_start_lane
        intro!: exI [of _ 0] exI [of _ "start_lane (Some dst) new_dict new_conn_stats new_observer"])
qed

lemma forward_sim_reach:
  assumes "\<forall>k. \<not> ctx_done E k" "(mstep E)\<^sup>*\<^sup>* m m'" "forward_sim E out m"
  shows "forward_sim E out m'"
  using assms(2,3) by (induction rule: rtranclp_induct) (auto intro: forward_sim_step [OF assms(1)])

section \<open>Properties\<close>

text \<open>The result of the forward lane, beside a running reverse lane.\<close>

lemma encoder_as_alone:
  assumes "\<forall>k. \<not> ctx_done E k" "(mstep E)\<^sup>*\<^sup>* (start_machine ModeEncode r dst rr src) m"
    and "FwdEnd m = Some res"
  shows "\<exists>st. run_encode_template_v1 E (Some dst) None new_conn_stats new_observer r = (res, st) \<and>
    sent (Enc (EncLane m)) = sent (Enc st) \<and> CStats (Enc (EncLane m)) = CStats (Enc st) \<and>
    RawWindowFwd (EncLane m) = RawWindowFwd st"
proof -
  let ?out = "run_encode_template_v1 E (Some dst) None new_conn_stats new_observer r"
  have "fst ?out = res" and f: "forget_lane (snd ?out) = forget_lane (EncLane m)"
    using forward_sim_reach [OF assms(1,2) forward_sim_start] assms(3) by (simp_all add: forward_sim_def)
  moreover have "sent (Enc (EncLane m)) = sent (Enc (snd ?out)) \<and>
      CStats (Enc (EncLane m)) = CStats (Enc (snd ?out))"
    using forget_lane_eqD(1) [OF f] by (auto simp: sent_def elim!: forget_eqE)
  ultimately show ?thesis using forget_lane_eqD(5) [OF f] by (cases ?out) auto
qed

text \<open>
  C6: Full duplex does not disturb the encoder. However the forward lane of an encoding
  connection is interleaved with the reverse goroutine, and whatever the peer sends back,
  when the forward lane returns it returns what the encoder alone returns on the same request
  stream, has sent the same bytes and counted the same, although both lanes share one
  dictionary.
\<close>

theorem encoder_undisturbed_by_reverse_lane:
  assumes "\<forall>k. \<not> ctx_done E k" "(mstep E)\<^sup>*\<^sup>* (start_machine ModeEncode r dst rr src) m"
    and "FwdEnd m = Some res"
  shows "\<exists>st. run_encode_template_v1 E (Some dst) None new_conn_stats new_observer r = (res, st) \<and>
    sent (Enc (EncLane m)) = sent (Enc st) \<and> CStats (Enc (EncLane m)) = CStats (Enc st) \<and>
    RawWindowFwd (EncLane m) = RawWindowFwd st"
  using assms by (rule encoder_as_alone)

subsection \<open>What the client gets\<close>

text \<open>
  What the client has received: a beginning of the reverse stream copied by the fast path, then
  complete requests from the decoder; \<open>ready\<close> once the threshold is crossed.
\<close>

definition client_text :: "unicode \<Rightarrow> bytes \<Rightarrow> sink \<Rightarrow> bool \<Rightarrow> bytes \<Rightarrow> bool" where
  "client_text U all src ready out \<longleftrightarrow>
     (\<exists>p q rs. all = p @ q \<and> length p < 256 + 32768 \<and> (ready \<or> rs \<noteq> [] \<longrightarrow> 256 \<le> length p) \<and>
        out = snk_bytes src @ p @ concat rs \<and> list_all (complete_request U) rs)"

lemma client_text_fast:
  assumes "fast_inv all src seen r s w p" "ready \<longrightarrow> 256 \<le> length p"
  shows "client_text U all src ready (snk_bytes s)"
  unfolding client_text_def
  by (rule exI [of _ p], rule exI [of _ "seg_bytes r"], rule exI [of _ "[]"])
    (use assms in \<open>simp add: fast_inv_def\<close>)

lemma client_text_more:
  assumes "client_text U all src True out" "list_all (complete_request U) ss"
  shows "client_text U all src True (out @ concat ss)"
proof -
  from assms(1) obtain p q rs where "all = p @ q" "length p < 256 + 32768" "256 \<le> length p"
      "out = snk_bytes src @ p @ concat rs" "list_all (complete_request U) rs"
    unfolding client_text_def by blast
  with assms(2) show ?thesis
    unfolding client_text_def
    by (intro exI [of _ p] exI [of _ q] exI [of _ "rs @ ss"]) simp
qed

lemma client_text_weaken: "client_text U all src True out \<Longrightarrow> client_text U all src ready out"
  unfolding client_text_def by blast

definition reverse_inv :: "unicode \<Rightarrow> bytes \<Rightarrow> sink \<Rightarrow> machine \<Rightarrow> bool" where
  "reverse_inv U all src m \<longleftrightarrow> MMode m = ModeEncode \<and>
     (case RevPhase m of
        RevFast seen \<Rightarrow> dec_inv U (DecLane m) \<and>
          (\<exists>p. fast_inv all src seen (RevIn m) (DDest (DecLane m)) (DWindow (DecLane m)) p)
      | RevPipe \<Rightarrow> dec_inv U (DecLane m) \<and> dest_open (DecLane m) \<and>
          client_text U all src True (snk_bytes (DDest (DecLane m)))
      | RevEnded e \<Rightarrow> client_text U all src False (snk_bytes (DDest (DecLane m))))"

lemma decode_iter_inv:
  assumes "dec_inv U dc" "dest_open dc" "decode_iter U c r dc = (res, r', dc')"
  shows "(res = None \<longrightarrow> dec_inv U dc') \<and> dest_open dc' \<and>
    (\<exists>rs. snk_bytes (DDest dc') = snk_bytes (DDest dc) @ concat rs \<and>
       list_all (complete_request U) rs)"
proof (cases "c \<or> (\<exists>x. read_frame r = Inl x)")
  case True
  with assms(3) have "dc' = dc" "res \<noteq> None" by (auto simp: decode_iter_def split: if_splits)
  with assms(2) show ?thesis by (auto intro: exI [of _ "[]"])
next
  case False
  then obtain h p r1 where rd: "read_frame r = Inr (h, p, r1)" and "\<not> c"
    by (metis prod_cases3 sum.exhaust)
  obtain e c1 where hf: "handle_frame U (Type h) p dc = (e, c1)" by fastforce
  with assms(3) rd \<open>\<not> c\<close> have "dc' = c1" "res = None \<longrightarrow> e = None"
    by (auto simp: decode_iter_def split: option.splits)
  with handle_frame_inv [OF assms(1,2) hf] show ?thesis by simp
qed

lemma dec_inv_dest:
  "dec_inv U (dc\<lparr>DDest := s, DWindow := w\<rparr>) = dec_inv U dc"
  "dec_inv U (dc\<lparr>DTemplates := T\<rparr>) = dec_inv U dc"
  "dest_open (dc\<lparr>DTemplates := T\<rparr>) = dest_open dc"
  by (simp_all add: dec_inv_def dest_open_def)

lemma reverse_inv_cong:
  assumes "reverse_inv U all src m" "DecLane m' = DecLane m" "RevPhase m' = RevPhase m"
    "RevIn m' = RevIn m" "MMode m' = ModeEncode"
  shows "reverse_inv U all src m'"
  using assms(1) unfolding reverse_inv_def assms(2-5) by blast

lemma forward_keeps_decoder:
  assumes "MMode m = ModeEncode"
  shows "DecLane (forward_step E m) = DecLane m \<and> RevPhase (forward_step E m) = RevPhase m \<and>
    RevIn (forward_step E m) = RevIn m \<and> MMode (forward_step E m) = ModeEncode"
  using assms by (simp add: forward_step_def run_encoder_def Let_def split: prod.split option.split)

lemma reverse_inv_fast:
  assumes "RevPhase m = RevFast seen" "seen < reverseFastPathBytes" "reverse_inv U all src m"
  shows "reverse_inv U all src (reverse_fast seen m)"
proof -
  have md: "MMode m = ModeEncode" using assms(3) by (simp add: reverse_inv_def)
  from assms(1,3) obtain p where dec: "dec_inv U (DecLane m)"
    and p: "fast_inv all src seen (RevIn m) (DDest (DecLane m)) (DWindow (DecLane m)) p"
    by (auto simp: reverse_inv_def)
  obtain st r s w where rd: "fast_read seen (RevIn m) (DDest (DecLane m)) (DWindow (DecLane m)) =
      (st, r, s, w)" by (metis prod_cases4)
  note step = fast_inv_step [OF p assms(2) rd]
  show ?thesis
  proof (cases st)
    case (FastMore n)
    with step dec md rd show ?thesis
      by (auto simp: reverse_inv_def reverse_fast_def dec_inv_dest)
  next
    case (FastEnd e)
    with step have "fast_inv all src seen r s w p" by simp
    then have "client_text U all src False (snk_bytes s)" by (rule client_text_fast) simp
    then show ?thesis using FastEnd md rd by (simp add: reverse_inv_def reverse_fast_def)
  qed
qed

lemma reverse_inv_pipe:
  assumes "RevPhase m = RevPipe" "reverse_inv (tables E) all src m"
  shows "reverse_inv (tables E) all src (reverse_pipe E m)"
proof -
  let ?U = "tables E" and ?dc = "(DecLane m)\<lparr>DTemplates := Shared m\<rparr>"
  have md: "MMode m = ModeEncode" using assms(2) by (simp add: reverse_inv_def)
  from assms have inv: "dec_inv ?U ?dc" "dest_open ?dc"
    and have_text: "client_text ?U all src True (snk_bytes (DDest ?dc))"
    by (simp_all add: reverse_inv_def dec_inv_dest)
  obtain res r dc where it: "decode_iter ?U (Canceled m) (DecIn m) ?dc = (res, r, dc)"
    by (metis prod_cases3)
  from decode_iter_inv [OF inv it] obtain ss where
    d: "res = None \<longrightarrow> dec_inv ?U dc" "dest_open dc"
      "snk_bytes (DDest dc) = snk_bytes (DDest ?dc) @ concat ss" "list_all (complete_request ?U) ss"
    by blast
  have out: "client_text ?U all src True (snk_bytes (DDest dc))"
    unfolding d(3) by (rule client_text_more [OF have_text d(4)])
  have run: "run_decoder E m = (res, m\<lparr>DecLane := dc, DecIn := r, Shared := DTemplates dc\<rparr>)"
    by (simp add: run_decoder_def it)
  show ?thesis
    using d(1,2) out md assms(1) run client_text_weaken [OF out]
    by (cases res) (simp_all add: reverse_inv_def reverse_pipe_def)
qed

lemma reverse_inv_step:
  assumes "mstep E m m'" "reverse_inv (tables E) all src m"
  shows "reverse_inv (tables E) all src m'"
  using assms(1)
proof (cases rule: mstep.cases)
  case forward
  have "MMode m = ModeEncode" using assms(2) by (simp add: reverse_inv_def)
  from reverse_inv_cong [OF assms(2)] forward_keeps_decoder [OF this, of E] forward(1)
  show ?thesis by simp
next
  case (fast seen)
  with reverse_inv_fast [OF _ _ assms(2)] show ?thesis by simp
next
  case (handover seen)
  have md: "MMode m = ModeEncode" using assms(2) by (simp add: reverse_inv_def)
  from handover(2) assms(2) obtain p where dec: "dec_inv (tables E) (DecLane m)"
    and p: "fast_inv all src seen (RevIn m) (DDest (DecLane m)) (DWindow (DecLane m)) p"
    by (auto simp: reverse_inv_def)
  have "256 \<le> length p"
    using handover(3) p by (simp add: fast_inv_def reverseFastPathBytes_def word_less_nat_alt not_less)
  then have "client_text (tables E) all src True (snk_bytes (DDest (DecLane m)))"
    using client_text_fast [OF p] by blast
  moreover have "dest_open (DecLane m)" using p by (simp add: fast_inv_def dest_open_def)
  ultimately show ?thesis
    using dec handover(1) md by (simp add: reverse_inv_def reverse_handover_def)
next
  case pipe
  with reverse_inv_pipe [OF _ assms(2)] show ?thesis by simp
qed

lemma observed_new: "observed [] new_observer"
proof -
  obtain w where w: "new_raw_window (int rawWindowSizeBytes) = Inr w"
    by (cases "new_raw_window (int rawWindowSizeBytes)")
      (auto simp: new_raw_window_def rawWindowSizeBytes_def split: if_splits)
  from observed_Nil [OF this] show ?thesis by (simp add: new_observer_def w)
qed

lemma reverse_inv_reach:
  assumes "(mstep E)\<^sup>*\<^sup>* (start_machine ModeEncode r dst rr src) m" "snk_room src = None"
  shows "reverse_inv (tables E) (seg_bytes rr) src m"
  using assms(1)
proof (induction rule: rtranclp_induct)
  case base
  have "fast_inv (seg_bytes rr) src 0 rr src new_observer []"
    using assms(2) observed_new by (simp add: fast_inv_def)
  then have "\<exists>p. fast_inv (seg_bytes rr) src 0 rr src new_observer p" ..
  then show ?case
    by (simp add: reverse_inv_def start_machine_def new_dec_inv) (simp add: new_dec_def)
next
  case (step m m')
  then show ?case using reverse_inv_step by blast
qed

lemma client_text_reach:
  assumes "(mstep E)\<^sup>*\<^sup>* (start_machine ModeEncode r dst rr src) m" "snk_room src = None"
  shows "client_text (tables E) (seg_bytes rr) src False (snk_bytes (DDest (DecLane m)))"
proof -
  note inv = reverse_inv_reach [OF assms]
  show ?thesis
  proof (cases "RevPhase m")
    case (RevFast seen)
    with inv obtain p where
      "fast_inv (seg_bytes rr) src seen (RevIn m) (DDest (DecLane m)) (DWindow (DecLane m)) p"
      by (auto simp: reverse_inv_def)
    then show ?thesis by (rule client_text_fast) simp
  qed (use inv in \<open>simp_all add: reverse_inv_def client_text_weaken\<close>)
qed

text \<open>
  C7: What the client of an encoding connection receives. At any moment, whatever the two lanes
  have done in any order, it is a beginning of the reverse stream copied verbatim (less than
  33024 bytes) followed by complete requests expanded by the decoder; there are none of those
  before 256 bytes have been copied.
\<close>

theorem client_gets_prefix_then_requests:
  assumes "(mstep E)\<^sup>*\<^sup>* (start_machine ModeEncode r dst rr src) m" "snk_room src = None"
  shows "\<exists>p q rs. seg_bytes rr = p @ q \<and> length p < 256 + 32768 \<and> (rs \<noteq> [] \<longrightarrow> 256 \<le> length p) \<and>
    snk_bytes (DDest (DecLane m)) = snk_bytes src @ p @ concat rs \<and>
    list_all (complete_request (tables E)) rs"
  using client_text_reach [OF assms] unfolding client_text_def by blast

text \<open>
  C21: The lanes share one dictionary, and their order matters. A REF arrives on the reverse link of
  an encoding connection for an id that no frame of that link has defined. If the reverse lane
  handles it first, it ends with a protocol violation; if the forward lane's encoder has just
  defined the id for its own link, the REF is expanded with the encoder's constants and fed to
  the client.
\<close>

theorem reverse_ref_races_with_forward_define:
  assumes "MMode m = ModeEncode" "RevPhase m = RevPipe" "\<not> Canceled m"
    and "DecIn m = \<lparr>rd_bytes = frame_image FrameTemplateRef p @ q, rd_end = e\<rparr>"
    and "frame_ok FrameTemplateRef p" "parse_template_ref_payload p = Inr (tid, l)"
    and "Shared m tid = None" "Shared (forward_step E m) tid = Some tm" "\<not> Canceled (forward_step E m)"
  shows "RevPhase (reverse_pipe E m) = RevEnded (Some ErrRefBeforeDefine) \<and>
    DecLane (reverse_pipe E (forward_step E m)) =
      snd (feed_and_flush (tables E) (TConstA tm @ l @ TConstB tm)
        ((DecLane m)\<lparr>DTemplates := Shared (forward_step E m)\<rparr>))"
proof -
  have rd: "read_frame (DecIn m) = Inr (frame_header FrameTemplateRef p, p, \<lparr>rd_bytes = q, rd_end = e\<rparr>)"
    unfolding assms(4) by (rule read_frame_image [OF assms(5)])
  have ty: "Type (frame_header FrameTemplateRef p) = FrameTemplateRef" by (simp add: frame_header_def)
  have hf: "handle_frame (tables E) FrameTemplateRef p dc = (case DTemplates dc tid of
      None \<Rightarrow> (Some ErrRefBeforeDefine, dc)
    | Some tm \<Rightarrow> feed_and_flush (tables E) (TConstA tm @ l @ TConstB tm) dc)" for dc
    using assms(6) by (simp add: handle_frame_def)
  have "RevPhase (reverse_pipe E m) = RevEnded (Some ErrRefBeforeDefine)"
    using assms(1,3,7) by (simp add: reverse_pipe_def run_decoder_def decode_iter_def rd ty hf
        del: FrameTemplateRef_def)
  moreover have same: "MMode (forward_step E m) = ModeEncode" "DecLane (forward_step E m) = DecLane m"
      "DecIn (forward_step E m) = DecIn m"
    using forward_keeps_decoder [OF assms(1)] assms(1)
    by (simp_all add: forward_step_def run_encoder_def Let_def split: prod.split option.split)
  moreover have "DecLane (reverse_pipe E (forward_step E m)) =
      snd (feed_and_flush (tables E) (TConstA tm @ l @ TConstB tm)
        ((DecLane m)\<lparr>DTemplates := Shared (forward_step E m)\<rparr>))"
    using assms(8,9) same
    by (simp add: reverse_pipe_def run_decoder_def decode_iter_def rd ty hf
        del: FrameTemplateRef_def split: prod.split option.split)
  ultimately show ?thesis by blast
qed

section \<open>Examples\<close>

definition bare_request :: reader where
  "bare_request = \<lparr>rd_bytes = header_block [str ''GET / H'', str ''Content-Length: 0''], rd_end = ErrEOF\<rparr>"

abbreviation length_tid :: u16 where
  "length_tid \<equiv> template_id_for (str ''Content-Length: '') CRLF"

lemma bare_read:
  "read_http_request_body (tables sample_env) bare_request maxHeaderBytes maxBodyBytes =
     Inr (\<lparr>Method = str ''GET'', Path = str ''/'', Proto = str ''H'', TransferChunked = False,
       ContentLength = 0, HeaderBytes = header_block [str ''GET / H'', str ''Content-Length: 0'']\<rparr>,
       [], \<lparr>rd_bytes = [], rd_end = ErrEOF\<rparr>)"
  by (simp add: sample_env_def bare_request_def maxHeaderBytes_def maxBodyBytes_def http_eval
      header_block_def)

lemma bare_normalized:
  "normalize_http_headers (tables sample_env)
     (header_block [str ''GET / H'', str ''Content-Length: 0'']) 0 =
   header_block [str ''GET / H'', str ''Content-Length: 0'']"
proof -
  have "header_lines_ok [str ''GET / H'', str ''Content-Length: 0'']"
    by (simp add: header_lines_ok_def str_def)
  from normalize_block [OF this, of "tables sample_env" 0] show ?thesis
    by (simp add: keeps_line_def sample_env_def to_lower_def has_prefix_def str_def ascii_def
        lower_byte_def length_line_def format_uint.simps digit_char_def)
qed

lemma bare_split: "split_on CRLF (header_block [str ''GET / H'', str ''Content-Length: 0'']) =
      [str ''GET / H'', str ''Content-Length: 0'', [], []]"
  by (rule split_header_block [of "[str ''GET / H'', str ''Content-Length: 0'']", simplified])
      (simp add: str_def)

lemma bare_segments:
  "try_split_header_line (str ''GET / H'' @ CRLF) = None"
  "try_split_header_line (str ''Content-Length: 0'' @ CRLF) = Some (str ''Content-Length: '', str ''0'', CRLF)"
  "try_split_header_line CRLF = None"
  by (simp_all add: try_split_header_line_def str_def CRLF_def has_suffix_def has_prefix_def)

lemma raw_line_then:
  assumes "out_open cc" "length q \<le> MaxFramePayloadBytes"
  shows "\<exists>d. out_open d \<and> SpanStats d = SpanStats cc \<and> Templates d = Templates cc \<and>
    (\<forall>g. and_then (count_raw_in n) (and_then (write_frame_count FrameRawData q) g) cc = g d)"
proof -
  let ?c = "cc\<lparr>CStats := add_raw_in n (CStats cc)\<rparr>"
  have "out_open ?c" "frame_ok FrameRawData q"
    using assms frame_ok_raw [of q] by (simp_all add: out_open_def)
  from frame_sent [OF this] obtain d where
    "write_frame_count FrameRawData q ?c = (None, d)" "out_open d" "SpanStats d = SpanStats ?c"
    "Templates d = Templates ?c"
    by blast
  moreover from this(1) have "and_then (count_raw_in n) (and_then (write_frame_count FrameRawData q) g) cc = g d"
    for g by (simp add: and_then_def count_raw_in_def del: FrameRawData_def)
  ultimately show ?thesis by auto
qed

lemma bare_header:
  assumes o: "out_open cc" and st: "hits_of cc length_tid = 2" "\<not> is_defined cc length_tid"
  shows "\<exists>cc'. encode_header_lines (header_block [str ''GET / H'', str ''Content-Length: 0'']) cc = (None, cc') \<and>
    Templates cc' length_tid = Some \<lparr>TID = length_tid, TConstA = str ''Content-Length: '', TConstB = CRLF\<rparr>"
proof -
  let ?l1 = "str ''GET / H'' @ CRLF" and ?l2 = "str ''Content-Length: 0'' @ CRLF"
  let ?seg = "emit_with_delayed_promotion (str ''Content-Length: '') (str ''0'') CRLF"
  have run: "encode_header_lines (header_block [str ''GET / H'', str ''Content-Length: 0'']) =
      and_then (count_raw_in (length ?l1)) (and_then (write_frame_count FrameRawData ?l1)
        (and_then (count_raw_in (length ?l2)) (and_then ?seg
          (and_then (count_raw_in (length CRLF)) (and_then (write_frame_count FrameRawData CRLF) ok)))))"
    unfolding encode_header_lines_def bare_split
    by (simp add: bare_segments Let_def del: FrameRawData_def length_CRLF length_append)
  have small: "length ?l1 \<le> MaxFramePayloadBytes" "length CRLF \<le> MaxFramePayloadBytes"
    by (simp_all add: str_def MaxFramePayloadBytes_def)
  obtain d where d: "out_open d" "SpanStats d = SpanStats cc"
      "\<And>g. and_then (count_raw_in (length ?l1)) (and_then (write_frame_count FrameRawData ?l1) g) cc = g d"
    using raw_line_then [OF o small(1), of "length ?l1"] by blast
  let ?d = "d\<lparr>CStats := add_raw_in (length ?l2) (CStats d)\<rparr>"
  have "out_open ?d" "hits_of ?d length_tid = 2" "\<not> is_defined ?d length_tid"
    using d(1,2) st by (simp_all add: out_open_def hits_of_def is_defined_def)
  from promotion_defines [OF this(1) _ _ this(2,3), of "str ''0''"]
  obtain c where c: "?seg ?d = (None, c)" "out_open c" "Templates c length_tid =
      Some \<lparr>TID = length_tid, TConstA = str ''Content-Length: '', TConstB = CRLF\<rparr>"
    by (auto simp: str_def)
  obtain b where b: "Templates b = Templates c"
      "\<And>g. and_then (count_raw_in (length CRLF)) (and_then (write_frame_count FrameRawData CRLF) g) c = g b"
    using raw_line_then [OF c(2) small(2), of "length CRLF"] by blast
  have "and_then (count_raw_in (length ?l2)) (and_then ?seg
      (and_then (count_raw_in (length CRLF)) (and_then (write_frame_count FrameRawData CRLF) ok))) d = (None, b)"
    using c(1) b(2) [of ok] by (simp add: and_then_def count_raw_in_def ok_def del: FrameRawData_def)
  with run d(3) b(1) c(3) show ?thesis by simp
qed
definition racing_machine :: machine where
  "racing_machine = (start_machine ModeEncode bare_request fresh_sink \<lparr>segs = [], seg_end = ErrEOF\<rparr> fresh_sink)
     \<lparr>RevPhase := RevPipe,
      EncLane := (start_lane (Some fresh_sink) Map.empty new_conn_stats None)
        \<lparr>Enc := \<lparr>Destination = Some fresh_sink, Templates = Map.empty,
           SpanStats = [length_tid \<mapsto> \<lparr>SHits = 2, Defined = False\<rparr>], CStats = new_conn_stats, Obs = None\<rparr>\<rparr>,
      DecIn := \<lparr>rd_bytes = frame_image FrameTemplateRef (put_u16 length_tid @ [1] @ len_u16 (str ''7'') @ str ''7''),
        rd_end = ErrEOF\<rparr>\<rparr>"

lemma racing_forward:
  "Shared (forward_step sample_env racing_machine) length_tid =
     Some \<lparr>TID = length_tid, TConstA = str ''Content-Length: '', TConstB = CRLF\<rparr> \<and>
   \<not> Canceled (forward_step sample_env racing_machine)"
proof -
  let ?cc = "\<lparr>Destination = Some fresh_sink, Templates = Shared racing_machine,
    SpanStats = [length_tid \<mapsto> \<lparr>SHits = 2, Defined = False\<rparr>], CStats = new_conn_stats, Obs = None\<rparr>"
  have "out_open ?cc" "hits_of ?cc length_tid = 2" "\<not> is_defined ?cc length_tid"
    by (simp_all add: out_open_def hits_of_def is_defined_def)
  from bare_header [OF this] obtain cc' where
    hdr: "encode_header_lines (header_block [str ''GET / H'', str ''Content-Length: 0'']) ?cc = (None, cc')"
    and T: "Templates cc' length_tid =
      Some \<lparr>TID = length_tid, TConstA = str ''Content-Length: '', TConstB = CRLF\<rparr>"
    by blast
  have m: "MMode racing_machine = ModeEncode" "\<not> Canceled racing_machine" "EncIn racing_machine = bare_request"
      "Enc (EncLane racing_machine) =
        \<lparr>Destination = Some fresh_sink, Templates = Map.empty,
         SpanStats = [length_tid \<mapsto> \<lparr>SHits = 2, Defined = False\<rparr>], CStats = new_conn_stats, Obs = None\<rparr>"
    by (simp_all add: racing_machine_def start_machine_def)
  show ?thesis
    using hdr T by (simp add: forward_step_def run_encoder_def encode_iter_def m bare_read
        encode_request_def bare_normalized Let_def)
qed

theorem reverse_ref_races_with_forward_define_witness:
  "RevPhase (reverse_pipe sample_env racing_machine) = RevEnded (Some ErrRefBeforeDefine) \<and>
   DecLane (reverse_pipe sample_env (forward_step sample_env racing_machine)) =
     snd (feed_and_flush (tables sample_env) (str ''Content-Length: '' @ str ''7'' @ CRLF)
       ((DecLane racing_machine)\<lparr>DTemplates := Shared (forward_step sample_env racing_machine)\<rparr>))"
proof -
  let ?p = "put_u16 length_tid @ [1] @ len_u16 (str ''7'') @ str ''7''"
  have m: "MMode racing_machine = ModeEncode" "RevPhase racing_machine = RevPipe"
      "\<not> Canceled racing_machine" "Shared racing_machine length_tid = None"
      "DecIn racing_machine = \<lparr>rd_bytes = frame_image FrameTemplateRef ?p @ [], rd_end = ErrEOF\<rparr>"
    by (simp_all add: racing_machine_def start_machine_def new_dict_def)
  have len: "length (str ''7'') < 65536" by (simp add: str_def)
  have "build_template_ref_payload (length_tid, str ''7'') = Inr ?p"
    using len by (simp add: build_template_ref_payload_def Let_def MaxFramePayloadBytes_def)
  then have p: "parse_template_ref_payload ?p = Inr (length_tid, str ''7'')"
    using build_ref_fits [OF len, of length_tid] by auto
  have ok: "frame_ok FrameTemplateRef ?p"
    using frame_ok_ref [of ?p] by (simp add: MaxFramePayloadBytes_def len_u16_def str_def)
  show ?thesis
    using reverse_ref_races_with_forward_define [OF m(1-3) m(5) ok p m(4) racing_forward [THEN conjunct1]
        racing_forward [THEN conjunct2]]
    by (simp only: template.simps)
qed

definition echo_machine :: machine where
  "echo_machine = start_machine ModeEncode \<lparr>rd_bytes = [], rd_end = ErrEOF\<rparr> fresh_sink
     \<lparr>segs = [str ''HTTP/1.1 204 OK''], seg_end = ErrEOF\<rparr> fresh_sink"

lemma echo_fast:
  "snk_bytes (DDest (DecLane (reverse_fast 0 echo_machine))) = str ''HTTP/1.1 204 OK''"
  "MMode (reverse_fast 0 echo_machine) = ModeEncode" "FwdEnd (reverse_fast 0 echo_machine) = None"
  by (simp_all add: reverse_fast_def echo_machine_def start_machine_def fast_read_def conn_read_def
      new_dec_def fast_write_open str_def)

lemma echo_steps:
  "(mstep sample_env)\<^sup>*\<^sup>* echo_machine (reverse_fast 0 echo_machine)"
  "(mstep sample_env)\<^sup>*\<^sup>* echo_machine (forward_step sample_env (reverse_fast 0 echo_machine))"
proof -
  have "RevPhase echo_machine = RevFast 0" by (simp add: echo_machine_def start_machine_def)
  then have one: "mstep sample_env echo_machine (reverse_fast 0 echo_machine)"
    by (rule mstep.fast) (simp add: reverseFastPathBytes_def)
  then show "(mstep sample_env)\<^sup>*\<^sup>* echo_machine (reverse_fast 0 echo_machine)" ..
  have "mstep sample_env (reverse_fast 0 echo_machine) (forward_step sample_env (reverse_fast 0 echo_machine))"
    by (rule mstep.forward) (rule echo_fast)
  with one show "(mstep sample_env)\<^sup>*\<^sup>* echo_machine (forward_step sample_env (reverse_fast 0 echo_machine))"
    by (meson converse_rtranclp_into_rtranclp rtranclp.rtrancl_refl)
qed

theorem client_gets_prefix_then_requests_witness:
  "\<exists>p q rs. str ''HTTP/1.1 204 OK'' = p @ q \<and> (rs \<noteq> [] \<longrightarrow> 256 \<le> length p) \<and>
     snk_bytes (DDest (DecLane (reverse_fast 0 echo_machine))) = p @ concat rs"
proof -
  have "snk_room fresh_sink = None" by simp
  from client_gets_prefix_then_requests [OF echo_steps(1) [unfolded echo_machine_def] this]
  show ?thesis unfolding echo_machine_def by (auto simp: seg_bytes_def)
qed

theorem encoder_undisturbed_by_reverse_lane_witness:
  "\<exists>st. run_encode_template_v1 sample_env (Some fresh_sink) None new_conn_stats new_observer
       \<lparr>rd_bytes = [], rd_end = ErrEOF\<rparr> = (None, st) \<and>
     sent (Enc (EncLane (forward_step sample_env (reverse_fast 0 echo_machine)))) = sent (Enc st)"
proof -
  have never: "\<forall>k. \<not> ctx_done sample_env k" by (simp add: sample_env_def)
  have keep: "EncIn (reverse_fast 0 echo_machine) = \<lparr>rd_bytes = [], rd_end = ErrEOF\<rparr>"
      "\<not> Canceled (reverse_fast 0 echo_machine)"
    using reverse_keeps_encoder(2,4) [of echo_machine 0] by (simp_all add: echo_machine_def start_machine_def)
  have "FwdEnd (forward_step sample_env (reverse_fast 0 echo_machine)) = Some None"
    by (simp add: forward_step_def echo_fast run_encoder_def encode_iter_def keep sample_read_end)
  from encoder_undisturbed_by_reverse_lane [OF never echo_steps(2) [unfolded echo_machine_def]
      this [unfolded echo_machine_def]]
  show ?thesis unfolding echo_machine_def by blast
qed

end
