(* ===== verification/Machine_Runs.thy ===== *)
theory Machine_Runs
  imports Machine
begin

text \<open>
  Every run of the two lanes ends (\<^verbatim>\<open>Run\<close> in \<^verbatim>\<open>internal/state/machine.go\<close>): on streams that end,
  each step of the machine either consumes input of its lane or ends the lane.
\<close>

section \<open>The work that is left\<close>

definition forward_in :: "machine \<Rightarrow> reader" where
  "forward_in m = (case MMode m of ModeEncode \<Rightarrow> EncIn m | ModeDecode \<Rightarrow> DecIn m)"

definition reverse_in :: "machine \<Rightarrow> reader" where
  "reverse_in m = (case MMode m of ModeEncode \<Rightarrow> DecIn m | ModeDecode \<Rightarrow> EncIn m)"

definition forward_work :: "machine \<Rightarrow> nat" where
  "forward_work m = (if FwdEnd m = None then Suc (length (rd_bytes (forward_in m))) else 0)"

definition reverse_work :: "machine \<Rightarrow> nat" where
  "reverse_work m =
     (case RevPhase m of
        RevFast _ \<Rightarrow> reads_left (RevIn m) + 2
      | RevPipe \<Rightarrow> Suc (length (rd_bytes (reverse_in m)))
      | RevEnded _ \<Rightarrow> 0)"

section \<open>One iteration consumes input or ends its lane\<close>

lemma encode_iter_shorter:
  "encode_iter E c r st = (None, r', st') \<Longrightarrow> length (rd_bytes r') < length (rd_bytes r)"
  by (auto simp: encode_iter_def dest: read_http_shorter [OF _ maxBodyBytes_bounds]
      split: if_splits sum.splits prod.splits option.splits)

lemma decode_iter_shorter:
  "decode_iter U c r dc = (None, r', dc') \<Longrightarrow> length (rd_bytes r') < length (rd_bytes r)"
  by (auto simp: decode_iter_def dest: read_frame_shorter
      split: if_splits sum.splits prod.splits option.splits)

lemma run_encoder_facts:
  assumes "run_encoder E m = (res, m')"
  shows "MMode m' = MMode m" "FwdEnd m' = FwdEnd m" "RevPhase m' = RevPhase m" "RevIn m' = RevIn m"
    "DecIn m' = DecIn m" "res = None \<Longrightarrow> length (rd_bytes (EncIn m')) < length (rd_bytes (EncIn m))"
  using assms by (auto simp: run_encoder_def Let_def dest: encode_iter_shorter split: prod.splits)

lemma run_decoder_facts:
  assumes "run_decoder E m = (res, m')"
  shows "MMode m' = MMode m" "FwdEnd m' = FwdEnd m" "RevPhase m' = RevPhase m" "RevIn m' = RevIn m"
    "EncIn m' = EncIn m" "res = None \<Longrightarrow> length (rd_bytes (DecIn m')) < length (rd_bytes (DecIn m))"
  using assms by (auto simp: run_decoder_def Let_def dest: decode_iter_shorter split: prod.splits)

lemma forward_step_work:
  assumes "FwdEnd m = None"
  shows "forward_work (forward_step E m) < forward_work m"
    "reverse_work (forward_step E m) = reverse_work m"
proof -
  have "forward_work (forward_step E m) < forward_work m \<and>
      reverse_work (forward_step E m) = reverse_work m"
  proof (cases "MMode m")
    case ModeEncode
    obtain res n where n: "run_encoder E m = (res, n)" by fastforce
    note facts = run_encoder_facts [OF n]
    show ?thesis
      using assms ModeEncode n facts
      by (cases res) (simp_all add: forward_step_def forward_work_def reverse_work_def forward_in_def
          reverse_in_def split: rev_phase.split)
  next
    case ModeDecode
    obtain res n where n: "run_decoder E m = (res, n)" by fastforce
    note facts = run_decoder_facts [OF n]
    show ?thesis
      using assms ModeDecode n facts
      by (cases res) (simp_all add: forward_step_def forward_work_def reverse_work_def forward_in_def
          reverse_in_def split: rev_phase.split)
  qed
  then show "forward_work (forward_step E m) < forward_work m"
    "reverse_work (forward_step E m) = reverse_work m" by simp_all
qed

lemma reverse_pipe_work:
  assumes "RevPhase m = RevPipe"
  shows "reverse_work (reverse_pipe E m) < reverse_work m"
    "forward_work (reverse_pipe E m) = forward_work m"
proof -
  have "reverse_work (reverse_pipe E m) < reverse_work m \<and>
      forward_work (reverse_pipe E m) = forward_work m"
  proof (cases "MMode m")
    case ModeEncode
    obtain res n where n: "run_decoder E m = (res, n)" by fastforce
    note facts = run_decoder_facts [OF n]
    show ?thesis
      using assms ModeEncode n facts
      by (cases res) (simp_all add: reverse_pipe_def forward_work_def reverse_work_def forward_in_def
          reverse_in_def)
  next
    case ModeDecode
    obtain res n where n: "run_encoder E m = (res, n)" by fastforce
    note facts = run_encoder_facts [OF n]
    show ?thesis
      using assms ModeDecode n facts
      by (cases res) (simp_all add: reverse_pipe_def forward_work_def reverse_work_def forward_in_def
          reverse_in_def)
  qed
  then show "reverse_work (reverse_pipe E m) < reverse_work m"
    "forward_work (reverse_pipe E m) = forward_work m" by simp_all
qed

lemma fast_read_reads_left:
  assumes "fast_read seen r s w = (FastMore seen', r', s', w')"
  shows "reads_left r' < reads_left r"
  using assms by (rule fast_read_moreD) (auto dest: conn_read_okD(4))

lemma reverse_fast_work:
  assumes "RevPhase m = RevFast seen"
  shows "reverse_work (reverse_fast seen m) < reverse_work m"
    "forward_work (reverse_fast seen m) = forward_work m"
  using assms
  by (auto simp: reverse_fast_def reverse_work_def forward_work_def forward_in_def
      dest: fast_read_reads_left split: mode.split option.split prod.split fast_step.split)

lemma seg_bytes_reads_left: "length (seg_bytes r) \<le> reads_left r"
proof -
  have "length (concat ss) \<le> sum_list (map (\<lambda>s. Suc (length s)) ss)" for ss :: "bytes list"
    by (induction ss) auto
  then show ?thesis by (simp add: seg_bytes_def reads_left_def)
qed

lemma reverse_handover_work:
  assumes "RevPhase m = RevFast seen"
  shows "reverse_work (reverse_handover m) < reverse_work m"
    "forward_work (reverse_handover m) = forward_work m"
  using assms seg_bytes_reads_left [of "RevIn m"]
  by (auto simp: reverse_handover_def reverse_work_def forward_work_def forward_in_def reverse_in_def
      reader_of_def split: mode.split)

lemma mstep_work:
  "mstep E m m' \<Longrightarrow> forward_work m' + reverse_work m' < forward_work m + reverse_work m"
  by (erule mstepE) (simp_all add: forward_step_work reverse_pipe_work reverse_fast_work
      reverse_handover_work)

lemma steps_work:
  "(mstep E ^^ k) m m' \<Longrightarrow> k + (forward_work m' + reverse_work m') \<le> forward_work m + reverse_work m"
proof (induction k arbitrary: m')
  case (Suc k)
  then obtain n where n: "(mstep E ^^ k) m n" "mstep E n m'" by auto
  with Suc.IH [OF n(1)] mstep_work [OF n(2)] show ?case by simp
qed simp

text \<open>A machine in which one of the lanes still runs can take a step.\<close>

lemma stuck_iff:
  "(\<nexists>m'. mstep E m m') \<longleftrightarrow> FwdEnd m \<noteq> None \<and> (\<exists>e. RevPhase m = RevEnded e)"
proof (cases "RevPhase m")
  case (RevFast seen)
  then have "\<exists>m'. mstep E m m'"
    by (cases "seen < reverseFastPathBytes") (blast intro: mstep.fast mstep.handover)+
  with RevFast show ?thesis by simp
next
  case RevPipe
  then show ?thesis by (auto intro: mstep.pipe)
next
  case (RevEnded e)
  have "(\<exists>m'. mstep E m m') \<longleftrightarrow> FwdEnd m = None"
    using RevEnded by (auto intro: mstep.forward elim!: mstepE)
  with RevEnded show ?thesis by simp
qed

text \<open>So both lanes can always be brought to their end.\<close>

lemma reaches_end: "\<exists>n e b. (mstep E)\<^sup>*\<^sup>* m n \<and> FwdEnd n = Some e \<and> RevPhase n = RevEnded b"
proof (induction "forward_work m + reverse_work m" arbitrary: m rule: less_induct)
  case less
  show ?case
  proof (cases "\<exists>m'. mstep E m m'")
    case True
    then obtain m' where "mstep E m m'" by blast
    with less [OF mstep_work [OF this]] show ?thesis by (meson converse_rtranclp_into_rtranclp)
  next
    case False
    then show ?thesis using stuck_iff [of E m] by blast
  qed
qed

text \<open>The reverse lane can also be brought to its end first.\<close>

lemma reverse_first: "\<exists>n b. (mstep E)\<^sup>*\<^sup>* m n \<and> RevPhase n = RevEnded b \<and> FwdEnd n = FwdEnd m"
proof (induction "reverse_work m" arbitrary: m rule: less_induct)
  case less
  have via: ?case if "mstep E m m'" "reverse_work m' < reverse_work m" "FwdEnd m' = FwdEnd m" for m'
    using less [OF that(2)] that(1,3) by (metis converse_rtranclp_into_rtranclp)
  show ?case
  proof (cases "RevPhase m")
    case (RevFast seen)
    have "FwdEnd (reverse_fast seen m) = FwdEnd m" "FwdEnd (reverse_handover m) = FwdEnd m"
      by (cases "MMode m"; simp add: reverse_fast_def reverse_handover_def split: prod.split option.split)+
    with RevFast show ?thesis
      using via [OF mstep.fast] via [OF mstep.handover] reverse_fast_work(1) reverse_handover_work(1)
      by (cases "seen < reverseFastPathBytes") blast+
  next
    case RevPipe
    have "FwdEnd (reverse_pipe E m) = FwdEnd m"
      by (cases "MMode m") (auto simp: reverse_pipe_def dest: run_encoder_facts(2) run_decoder_facts(2)
          split: prod.split option.split)
    with RevPipe show ?thesis using via [OF mstep.pipe] reverse_pipe_work(1) by blast
  qed blast
qed

text \<open>And the forward lane alone.\<close>

lemma forward_first: "\<exists>n e. (mstep E)\<^sup>*\<^sup>* m n \<and> FwdEnd n = Some e \<and> RevPhase n = RevPhase m"
proof (induction "forward_work m" arbitrary: m rule: less_induct)
  case less
  show ?case
  proof (cases "FwdEnd m")
    case None
    have "RevPhase (forward_step E m) = RevPhase m"
      by (cases "MMode m") (auto simp: forward_step_def dest: run_encoder_facts(3) run_decoder_facts(3)
          split: prod.split option.split)
    with less [OF forward_step_work(1) [OF None]] mstep.forward [OF None] show ?thesis
      by (metis converse_rtranclp_into_rtranclp)
  qed blast
qed

lemma ended_stays:
  "(mstep E)\<^sup>*\<^sup>* m n \<Longrightarrow> RevPhase m = RevEnded b \<Longrightarrow> RevPhase n = RevEnded b"
proof (induction rule: rtranclp_induct)
  case (step n n')
  have "RevPhase (forward_step E n) = RevPhase n"
    by (cases "MMode n") (auto simp: forward_step_def dest: run_encoder_facts(3) run_decoder_facts(3)
        split: prod.split option.split)
  with step show ?case by (auto elim!: mstepE)
qed

lemma reverse_then_forward:
  "\<exists>n p b e. (mstep E)\<^sup>*\<^sup>* m n \<and> FwdEnd n = FwdEnd m \<and> RevPhase n = RevEnded b \<and>
     (mstep E)\<^sup>*\<^sup>* n p \<and> FwdEnd p = Some e \<and> RevPhase p = RevEnded b"
proof -
  obtain n b where n: "(mstep E)\<^sup>*\<^sup>* m n" "RevPhase n = RevEnded b" "FwdEnd n = FwdEnd m"
    using reverse_first by blast
  obtain p e c where "(mstep E)\<^sup>*\<^sup>* n p" "FwdEnd p = Some e" using reaches_end by blast
  with n ended_stays show ?thesis by blast
qed

section \<open>Property\<close>

text \<open>
  C12: Every connection comes to an end. On streams that end, in either mode and however the two
  lanes are interleaved, a run has at most as many steps as there are bytes and reads to come
  plus three; as long as one of the lanes has not returned another step is possible, so a run
  that cannot go on has ended both lanes.
\<close>

theorem every_run_ends:
  assumes "(mstep E ^^ k) (start_machine md fwd dst rev_in src) m"
  shows "k \<le> length (rd_bytes fwd) + reads_left rev_in + 3 \<and>
    ((\<nexists>m'. mstep E m m') \<longleftrightarrow> FwdEnd m \<noteq> None \<and> (\<exists>e. RevPhase m = RevEnded e))"
proof -
  have "forward_work (start_machine md fwd dst rev_in src) +
      reverse_work (start_machine md fwd dst rev_in src) = length (rd_bytes fwd) + reads_left rev_in + 3"
    by (simp add: start_machine_def forward_work_def reverse_work_def forward_in_def split: mode.split)
  with steps_work [OF assms] stuck_iff [of E m] show ?thesis by simp
qed

theorem every_run_ends_witness:
  "\<exists>m. (mstep sample_env ^^ 3) echo_machine m \<and> (\<nexists>m'. mstep sample_env m m')"
proof -
  let ?one = "reverse_fast 0 echo_machine"
  let ?two = "forward_step sample_env ?one"
  let ?three = "reverse_fast 15 ?two"
  have one: "mstep sample_env echo_machine ?one"
    by (rule mstep.fast) (simp_all add: echo_machine_def start_machine_def reverseFastPathBytes_def)
  have two: "mstep sample_env ?one ?two" by (rule mstep.forward) (rule echo_fast)
  have state: "RevPhase ?one = RevFast 15" "RevIn ?one = \<lparr>segs = [], seg_end = ErrEOF\<rparr>"
    "EncIn ?one = \<lparr>rd_bytes = [], rd_end = ErrEOF\<rparr>" "\<not> Canceled ?one"
    by (simp_all add: reverse_fast_def echo_machine_def start_machine_def fast_read_def conn_read_def
        new_dec_def fast_write_open str_def)
  have ended: "FwdEnd ?two = Some None" "RevPhase ?two = RevFast 15" "MMode ?two = ModeEncode"
    "RevIn ?two = \<lparr>segs = [], seg_end = ErrEOF\<rparr>"
    by (simp_all add: forward_step_def echo_fast run_encoder_def encode_iter_def state sample_read_end)
  have three: "mstep sample_env ?two ?three"
    by (rule mstep.fast) (simp_all add: ended reverseFastPathBytes_def)
  have last: "FwdEnd ?three = Some None" "\<exists>e. RevPhase ?three = RevEnded e"
    by (simp_all add: reverse_fast_def [of 15] ended fast_read_def conn_read_def)
  have run: "(mstep sample_env ^^ 3) echo_machine ?three"
    using one two three by (auto simp: numeral_3_eq_3)
  note ends = every_run_ends [OF run [unfolded echo_machine_def], folded echo_machine_def]
  have "\<nexists>m'. mstep sample_env ?three m'" using ends [THEN conjunct2] last by simp
  then show ?thesis using run by blast
qed

end
