(* ===== verification/Duplex.thy ===== *)
theory Duplex
  imports Machine_Runs
begin

text \<open>
  Both directions of a connection, and two connections back to back: the encoding machine near
  the client, the link, and the decoding machine near the backend (\<^verbatim>\<open>Run\<close> in
  \<^verbatim>\<open>internal/state/machine.go\<close> on both sides).
\<close>

section \<open>The copy loop of the reverse direction, in both modes\<close>

text \<open>The source of the connection as the reverse lane writes to it, and its observer.\<close>

definition source_sink :: "machine \<Rightarrow> sink option" where
  "source_sink m = (case MMode m of
     ModeEncode \<Rightarrow> Some (DDest (DecLane m)) | ModeDecode \<Rightarrow> Destination (Enc (EncLane m)))"

definition source_window :: "machine \<Rightarrow> raw_window option" where
  "source_window m = (case MMode m of
     ModeEncode \<Rightarrow> DWindow (DecLane m) | ModeDecode \<Rightarrow> RawWindowFwd (EncLane m))"

lemma forward_keeps_source:
  "source_sink (forward_step E m) = source_sink m" "source_window (forward_step E m) = source_window m"
  "RevPhase (forward_step E m) = RevPhase m" "RevIn (forward_step E m) = RevIn m"
  "MMode (forward_step E m) = MMode m"
  by (cases "MMode m"; simp add: source_sink_def source_window_def forward_step_def run_encoder_def
      run_decoder_def Let_def split: prod.split option.split)+

lemma reverse_fast_run:
  assumes "source_sink m = Some s" "fast_read seen (RevIn m) s (source_window m) = (st, r, s', w')"
  shows "source_sink (reverse_fast seen m) = Some s'" "source_window (reverse_fast seen m) = w'"
    "RevIn (reverse_fast seen m) = r" "MMode (reverse_fast seen m) = MMode m"
    "RevPhase (reverse_fast seen m) = (case st of FastMore n \<Rightarrow> RevFast n | FastEnd e \<Rightarrow> RevEnded e)"
  using assms by (cases "MMode m"; simp add: source_sink_def source_window_def reverse_fast_def)+

text \<open>
  As long as less than 256 bytes come back the copy loop is all there is: what the source holds
  is what has been read, and in the end all of it.
\<close>

definition copy_inv :: "bytes \<Rightarrow> go_error \<Rightarrow> sink \<Rightarrow> machine \<Rightarrow> bool" where
  "copy_inv all fin src m \<longleftrightarrow>
     (case RevPhase m of
        RevFast seen \<Rightarrow> seg_end (RevIn m) = fin \<and>
          (\<exists>s p. source_sink m = Some s \<and> fast_inv all src seen (RevIn m) s (source_window m) p)
      | RevPipe \<Rightarrow> 256 \<le> length all
      | RevEnded e \<Rightarrow> 256 \<le> length all \<or>
          e = (if fin = ErrEOF then None else Some fin) \<and>
          (\<exists>s. source_sink m = Some s \<and> snk_bytes s = snk_bytes src @ all))"

lemma copy_inv_fast:
  assumes "RevPhase m = RevFast seen" "seen < reverseFastPathBytes" "copy_inv all fin src m"
  shows "copy_inv all fin src (reverse_fast seen m)"
proof -
  from assms(1,3) obtain s p where p: "source_sink m = Some s" "seg_end (RevIn m) = fin"
      "fast_inv all src seen (RevIn m) s (source_window m) p"
    by (auto simp: copy_inv_def)
  obtain st r s' w where rd: "fast_read seen (RevIn m) s (source_window m) = (st, r, s', w)"
    by (metis prod_cases4)
  note step = fast_inv_step [OF p(3) assms(2) rd] and run = reverse_fast_run [OF p(1) rd]
  show ?thesis
  proof (cases st)
    case (FastMore n)
    with step obtain c where "fast_inv all src n r s' w (p @ c)" "seg_end r = fin" using p(2) by auto
    with FastMore run show ?thesis by (auto simp: copy_inv_def)
  next
    case (FastEnd e)
    with step have "fast_inv all src seen r s' w p" "seg_bytes r = []"
      "e = (if fin = ErrEOF then None else Some fin)" using p(2) by auto
    with FastEnd run show ?thesis by (simp add: copy_inv_def fast_inv_def)
  qed
qed

lemma copy_inv_step:
  assumes "mstep E m m'" "copy_inv all fin src m"
  shows "copy_inv all fin src m'"
  using assms(1)
proof (cases rule: mstep.cases)
  case forward
  with assms(2) show ?thesis by (simp only: copy_inv_def forward_keeps_source)
next
  case (fast seen)
  with copy_inv_fast [OF _ _ assms(2)] show ?thesis by simp
next
  case (handover seen)
  with assms(2) obtain s p where "fast_inv all src seen (RevIn m) s (source_window m) p"
    by (auto simp: copy_inv_def)
  with handover(3) have "256 \<le> length all"
    by (simp add: fast_inv_def reverseFastPathBytes_def word_less_nat_alt not_less)
  with handover(1) show ?thesis by (cases "MMode m") (simp_all add: copy_inv_def reverse_handover_def)
next
  case pipe
  then have big: "256 \<le> length all" using assms(2) by (simp add: copy_inv_def)
  have "RevPhase (reverse_pipe E m) = RevPipe \<or> (\<exists>e. RevPhase (reverse_pipe E m) = RevEnded e)"
    using pipe(2)
    by (cases "MMode m") (auto simp: reverse_pipe_def run_encoder_def run_decoder_def Let_def
        split: prod.split option.split)
  with big pipe(1) show ?thesis by (auto simp: copy_inv_def)
qed

lemma copy_inv_reach:
  assumes "(mstep E)\<^sup>*\<^sup>* (start_machine md fwd dst rr src) m" "snk_room src = None"
  shows "copy_inv (seg_bytes rr) (seg_end rr) src m"
  using assms(1)
proof (induction rule: rtranclp_induct)
  case base
  have "fast_inv (seg_bytes rr) src 0 rr src new_observer []"
    using assms(2) observed_new by (simp add: fast_inv_def)
  then show ?case
    by (cases md) (auto simp: copy_inv_def start_machine_def source_sink_def source_window_def
        start_lane_def new_dec_def)
qed (use copy_inv_step in blast)

section \<open>The forward decoder beside the copy loop\<close>

text \<open>
  While the reverse encoder has not started nobody else writes the dictionary, and the forward
  lane of a decoding connection is the decoder alone.
\<close>

definition decode_sim :: "unicode \<Rightarrow> go_error option \<times> dec \<Rightarrow> machine \<Rightarrow> bool" where
  "decode_sim U out m \<longleftrightarrow> MMode m = ModeDecode \<and>
     (case FwdEnd m of
        None \<Rightarrow> \<not> Canceled m \<and> Shared m = DTemplates (DecLane m) \<and>
          (\<exists>k. decode_loop U never k (DecIn m) (DecLane m) = out)
      | Some e \<Rightarrow> out = (e, DecLane m))"

lemma decode_sim_cong:
  assumes "decode_sim U out m" "MMode m' = MMode m" "FwdEnd m' = FwdEnd m" "Canceled m' = Canceled m"
    "Shared m' = Shared m" "DecLane m' = DecLane m" "DecIn m' = DecIn m"
  shows "decode_sim U out m'"
  using assms(1) unfolding decode_sim_def assms(2-7) by blast

lemma decode_sim_forward:
  assumes "FwdEnd m = None" "decode_sim (tables E) out m"
  shows "decode_sim (tables E) out (forward_step E m)"
proof -
  from assms obtain k where sim: "MMode m = ModeDecode" "\<not> Canceled m"
      "Shared m = DTemplates (DecLane m)" "decode_loop (tables E) never k (DecIn m) (DecLane m) = out"
    by (auto simp: decode_sim_def)
  have dc: "(DecLane m)\<lparr>DTemplates := Shared m\<rparr> = DecLane m" using sim(3) by (cases "DecLane m") simp
  obtain res r d where it: "decode_iter (tables E) False (DecIn m) (DecLane m) = (res, r, d)"
    by (metis prod_cases3)
  have run: "run_decoder E m = (res, m\<lparr>DecLane := d, DecIn := r, Shared := DTemplates d\<rparr>)"
    using it sim(2) by (simp add: run_decoder_def dc)
  have "out = (case res of Some x \<Rightarrow> (x, d) | None \<Rightarrow> decode_loop (tables E) never (Suc k) r d)"
    using decode_loop_iter [of "tables E" never k "DecIn m" "DecLane m"] it sim(4)
    by (simp split: option.split)
  with sim run assms(1) show ?thesis
    by (cases res) (auto simp: decode_sim_def forward_step_def)
qed

lemma decode_sim_step:
  assumes "mstep E m m'" "decode_sim (tables E) out m" "RevPhase m \<noteq> RevPipe"
  shows "decode_sim (tables E) out m'"
  using assms(1)
proof (cases rule: mstep.cases)
  case forward
  with decode_sim_forward [OF _ assms(2)] show ?thesis by simp
next
  case (fast seen)
  have "MMode m = ModeDecode" using assms(2) by (simp add: decode_sim_def)
  then show ?thesis
    unfolding fast(1)
    by (intro decode_sim_cong [OF assms(2)])
      (simp_all add: reverse_fast_def split: option.split prod.split)
next
  case (handover seen)
  have "MMode m = ModeDecode" using assms(2) by (simp add: decode_sim_def)
  then show ?thesis
    unfolding handover(1) by (intro decode_sim_cong [OF assms(2)]) (simp_all add: reverse_handover_def)
qed (use assms(3) in simp)

lemma decode_sim_reach:
  assumes "(mstep E)\<^sup>*\<^sup>* (start_machine ModeDecode fwd dst rr src) m"
    and "snk_room src = None" "length (seg_bytes rr) < 256"
  shows "decode_sim (tables E)
    (run_decode_template_v1 (tables E) never None 0 dst new_observer fwd) m"
  using assms(1)
proof (induction rule: rtranclp_induct)
  case base
  show ?case
    by (auto simp: decode_sim_def start_machine_def run_decode_template_v1_def new_dec_def)
next
  case (step m m')
  have "RevPhase m \<noteq> RevPipe"
    using copy_inv_reach [OF step.hyps(1) assms(2)] assms(3) by (auto simp: copy_inv_def)
  with decode_sim_step [OF step.hyps(2) step.IH] show ?case by simp
qed

section \<open>Two connections back to back\<close>

text \<open>
  C3: End to end, in both directions. A client's session of requests enters the encoding
  connection, the frames it sends enter the decoding one, and fewer than 256 bytes come back,
  over the link in any segmentation. Assume, as in the reconstruction property, that the 16-bit
  ids tell the patterns of the session apart, that the request stream is clean (it ends after
  a whole request) and that every request line is plain; that the client and the backend take
  every byte and no context is cancelled. Then, however the lanes of either connection are
  interleaved, when all four have returned the backend has received exactly the normalised
  requests, the client exactly the bytes the backend answered, and no forward lane has failed.
\<close>

theorem end_to_end_short_responses:
  assumes run: "\<forall>k. \<not> ctx_done E k" "stream_error (tables E) r = None"
    and P: "unambiguous (session_patterns (requests (tables E) r))"
    and plain: "list_all (\<lambda>(hdr, body). plain_request_line (tables E) hdr) (requests (tables E) r)"
    and enc: "(mstep E)\<^sup>*\<^sup>* (start_machine ModeEncode r fresh_sink back client) m"
      "FwdEnd m = Some e" "RevPhase m = RevEnded b"
    and dec: "(mstep E)\<^sup>*\<^sup>* (start_machine ModeDecode
        \<lparr>rd_bytes = sent (Enc (EncLane m)), rd_end = ErrEOF\<rparr> backend answers fresh_sink) n"
      "FwdEnd n = Some e'" "RevPhase n = RevEnded b'"
    and link: "seg_bytes back = sent (Enc (EncLane n))" "length (seg_bytes answers) < 256"
    and room: "snk_room client = None" "snk_room backend = None"
  shows "e = None \<and> e' = None \<and>
    snk_bytes (DDest (DecLane n)) = snk_bytes backend @ truth_stream (requests (tables E) r) \<and>
    snk_bytes (DDest (DecLane m)) = snk_bytes client @ seg_bytes answers"
proof -
  from encoder_as_alone [OF run(1) enc(1,2)] obtain st where st:
    "run_encode_template_v1 E (Some fresh_sink) None new_conn_stats new_observer r = (e, st)"
    "sent (Enc (EncLane m)) = sent (Enc st)"
    by blast
  from session_both_ends [OF run P plain room(2), of new_conn_stats new_observer 0 new_observer] st(1)
  obtain dc where dc: "e = None" "snk_bytes (DDest dc) = snk_bytes backend @ truth_stream (requests (tables E) r)"
    "run_decode_template_v1 (tables E) never None 0 backend new_observer
       \<lparr>rd_bytes = sent (Enc (EncLane m)), rd_end = ErrEOF\<rparr> = (None, dc)"
    unfolding st(2) by auto
  have open_link: "snk_room fresh_sink = None" by simp
  from decode_sim_reach [OF dec(1) open_link link(2)] dec(2) dc(3)
  have fwd: "e' = None" "DecLane n = dc" and md: "MMode n = ModeDecode" by (auto simp: decode_sim_def)
  from copy_inv_reach [OF dec(1) open_link] dec(3) link(2) md
  have answers: "sent (Enc (EncLane n)) = seg_bytes answers"
    by (auto simp: copy_inv_def source_sink_def sent_def)
  have "MMode m = ModeEncode" using forward_sim_reach [OF run(1) enc(1) forward_sim_start]
    by (simp add: forward_sim_def)
  with copy_inv_reach [OF enc(1) room(1)] enc(3) link answers
  have "snk_bytes (DDest (DecLane m)) = snk_bytes client @ seg_bytes answers"
    by (auto simp: copy_inv_def source_sink_def)
  with dc fwd show ?thesis by simp
qed

section \<open>At concrete inputs\<close>

definition short_answer :: seg_reader where
  "short_answer = \<lparr>segs = [str ''HTTP/1.1 '', str ''204 OK''], seg_end = ErrEOF\<rparr>"

theorem end_to_end_short_responses_witness:
  "\<exists>m n. (mstep sample_env)\<^sup>*\<^sup>* (start_machine ModeEncode sample_reader fresh_sink short_answer fresh_sink) m \<and>
     (mstep sample_env)\<^sup>*\<^sup>* (start_machine ModeDecode
        \<lparr>rd_bytes = sent (Enc (EncLane m)), rd_end = ErrEOF\<rparr> fresh_sink short_answer fresh_sink) n \<and>
     FwdEnd m = Some None \<and> FwdEnd n = Some None \<and>
     snk_bytes (DDest (DecLane n)) =
       header_block [str ''PUT /w H'', str ''Content-Length: 8''] @ str ''m a=1 2'' @ [10] \<and>
     snk_bytes (DDest (DecLane m)) = str ''HTTP/1.1 204 OK''"
proof -
  obtain m e b where m: "(mstep sample_env)\<^sup>*\<^sup>*
      (start_machine ModeEncode sample_reader fresh_sink short_answer fresh_sink) m"
    "FwdEnd m = Some e" "RevPhase m = RevEnded b"
    using reaches_end by blast
  obtain n e' b' where n: "(mstep sample_env)\<^sup>*\<^sup>* (start_machine ModeDecode
      \<lparr>rd_bytes = sent (Enc (EncLane m)), rd_end = ErrEOF\<rparr> fresh_sink short_answer fresh_sink) n"
    "FwdEnd n = Some e'" "RevPhase n = RevEnded b'"
    using reaches_end by blast
  have open_sink: "snk_room fresh_sink = None" by simp
  have short: "seg_bytes short_answer = str ''HTTP/1.1 204 OK''" "length (seg_bytes short_answer) < 256"
    by (simp_all add: short_answer_def seg_bytes_def str_def)
  have "MMode n = ModeDecode"
    using decode_sim_reach [OF n(1) open_sink short(2)] by (simp add: decode_sim_def)
  with copy_inv_reach [OF n(1) open_sink] n(3) short(2)
  have link: "seg_bytes short_answer = sent (Enc (EncLane n))"
    by (auto simp: copy_inv_def source_sink_def sent_def)
  have t: "truth_stream (requests (tables sample_env) sample_reader) =
      header_block [str ''PUT /w H'', str ''Content-Length: 8''] @ str ''m a=1 2'' @ [10]"
    by (simp add: sample_requests truth_stream_def)
  from end_to_end_short_responses [OF sample_session(1) sample_stream_error sample_session(2,3)
      m n link short(2) open_sink open_sink] m n
  show ?thesis unfolding t short(1) by (intro exI [of _ m] exI [of _ n]) simp
qed

end
