(* ===== verification/Reverse_Link.thy ===== *)
theory Reverse_Link
  imports Duplex
begin

text \<open>
  What a decoding connection puts on the link and sends to the backend, and what becomes of its
  reverse stream at the other end (\<^verbatim>\<open>Run\<close> in \<^verbatim>\<open>internal/state/machine.go\<close>).
\<close>

section \<open>One iteration of the encoder on an open link\<close>

lemma encode_iter_frames:
  assumes "out_open (Enc st)" "encode_iter E c r st = (res, r', st')"
  shows "out_open (Enc st') \<and>
    (\<exists>fs. list_all encoder_frame fs \<and> sent (Enc st') = sent (Enc st) @ wire_of fs \<and>
       wireOut (CStats (Enc st')) = wireOut (CStats (Enc st)) + of_nat (length (wire_of fs)))"
proof (cases "c \<or> (\<exists>x. read_http_request_body (tables E) r maxHeaderBytes maxBodyBytes = Inl x)")
  case True
  with assms have "st' = st" by (auto simp: encode_iter_def split: if_splits)
  with assms(1) show ?thesis by (auto intro: exI [of _ "[]"])
next
  case False
  then obtain meta body r1 where read:
    "read_http_request_body (tables E) r maxHeaderBytes maxBodyBytes = Inr (meta, body, r1)" "\<not> c"
    by (metis prod_cases3 sum.exhaust)
  from request_encodes [OF read(1) assms(1)] obtain st1 where
    enc: "encode_request E meta body st = (None, st1)" "out_open (Enc st1)"
    by blast
  with assms(2) read have "st' = st1" by (simp add: encode_iter_def)
  with request_disciplined [OF enc(1)] enc(2) show ?thesis
    by (auto simp: disciplined_step_def)
qed

section \<open>The state of a decoding connection\<close>

definition link_text :: "bytes \<Rightarrow> sink \<Rightarrow> bool \<Rightarrow> bytes \<Rightarrow> bool" where
  "link_text all src ready out \<longleftrightarrow>
     (\<exists>p q fs. all = p @ q \<and> length p < 256 + 32768 \<and> (ready \<or> fs \<noteq> [] \<longrightarrow> 256 \<le> length p) \<and>
        out = snk_bytes src @ p @ wire_of fs \<and> list_all encoder_frame fs)"

lemma link_text_fast:
  assumes "fast_inv all src seen r s w p" "ready \<longrightarrow> 256 \<le> length p"
  shows "link_text all src ready (snk_bytes s)"
  unfolding link_text_def
  by (rule exI [of _ p], rule exI [of _ "seg_bytes r"], rule exI [of _ "[]"])
    (use assms in \<open>simp add: fast_inv_def\<close>)

lemma link_text_more:
  assumes "link_text all src True out" "list_all encoder_frame gs"
  shows "link_text all src True (out @ wire_of gs)"
proof -
  from assms(1) obtain p q fs where "all = p @ q" "length p < 256 + 32768" "256 \<le> length p"
      "out = snk_bytes src @ p @ wire_of fs" "list_all encoder_frame fs"
    unfolding link_text_def by blast
  with assms(2) show ?thesis
    unfolding link_text_def by (intro exI [of _ p] exI [of _ q] exI [of _ "fs @ gs"]) simp
qed

lemma link_text_weaken: "link_text all src True out \<Longrightarrow> link_text all src ready out"
  unfolding link_text_def by blast

definition link_inv :: "bytes \<Rightarrow> sink \<Rightarrow> machine \<Rightarrow> bool" where
  "link_inv all src m \<longleftrightarrow> MMode m = ModeDecode \<and>
     (case RevPhase m of
        RevFast seen \<Rightarrow> (\<exists>s p. Destination (Enc (EncLane m)) = Some s \<and>
          fast_inv all src seen (RevIn m) s (RawWindowFwd (EncLane m)) p)
      | RevPipe \<Rightarrow> out_open (Enc (EncLane m)) \<and> link_text all src True (sent (Enc (EncLane m)))
      | RevEnded e \<Rightarrow> link_text all src False (sent (Enc (EncLane m))))"

definition backend_inv :: "unicode \<Rightarrow> sink \<Rightarrow> machine \<Rightarrow> bool" where
  "backend_inv U dst m \<longleftrightarrow> MMode m = ModeDecode \<and>
     (FwdEnd m = None \<longrightarrow> dec_inv U (DecLane m)) \<and> dest_open (DecLane m) \<and>
     (\<exists>rs. snk_bytes (DDest (DecLane m)) = snk_bytes dst @ concat rs \<and>
        list_all (complete_request U) rs)"

text \<open>Each lane keeps what the other one is about.\<close>

lemma decode_mode_frame:
  assumes "MMode m = ModeDecode"
  shows "EncLane (forward_step E m) = EncLane m" "RevPhase (forward_step E m) = RevPhase m"
    "RevIn (forward_step E m) = RevIn m" "MMode (forward_step E m) = ModeDecode"
    "DecLane (reverse_fast seen m) = DecLane m" "FwdEnd (reverse_fast seen m) = FwdEnd m"
    "MMode (reverse_fast seen m) = ModeDecode"
    "DecLane (reverse_handover m) = DecLane m" "FwdEnd (reverse_handover m) = FwdEnd m"
    "MMode (reverse_handover m) = ModeDecode"
    "DecLane (reverse_pipe E m) = DecLane m" "FwdEnd (reverse_pipe E m) = FwdEnd m"
    "MMode (reverse_pipe E m) = ModeDecode"
  using assms
  by (simp_all add: forward_step_def reverse_fast_def reverse_handover_def reverse_pipe_def
      run_decoder_def run_encoder_def Let_def split: prod.split option.split)

lemma backend_inv_cong:
  assumes "backend_inv U dst m" "DecLane m' = DecLane m" "FwdEnd m' = FwdEnd m" "MMode m' = ModeDecode"
  shows "backend_inv U dst m'"
  using assms(1) unfolding backend_inv_def assms(2-4) by blast

lemma link_inv_cong:
  assumes "link_inv all src m" "EncLane m' = EncLane m" "RevPhase m' = RevPhase m"
    "RevIn m' = RevIn m" "MMode m' = ModeDecode"
  shows "link_inv all src m'"
  using assms(1) unfolding link_inv_def assms(2-5) by blast

lemma backend_inv_forward:
  assumes "FwdEnd m = None" "backend_inv (tables E) dst m"
  shows "backend_inv (tables E) dst (forward_step E m)"
proof -
  let ?U = "tables E" and ?dc = "(DecLane m)\<lparr>DTemplates := Shared m\<rparr>"
  from assms obtain rs where md: "MMode m = ModeDecode" and inv: "dec_inv ?U ?dc" "dest_open ?dc"
    and rs: "snk_bytes (DDest ?dc) = snk_bytes dst @ concat rs" "list_all (complete_request ?U) rs"
    by (auto simp: backend_inv_def dec_inv_dest)
  obtain res r dc where it: "decode_iter ?U (Canceled m) (DecIn m) ?dc = (res, r, dc)"
    by (metis prod_cases3)
  from decode_iter_inv [OF inv it] obtain ss where
    d: "res = None \<longrightarrow> dec_inv ?U dc" "dest_open dc"
      "snk_bytes (DDest dc) = snk_bytes (DDest ?dc) @ concat ss" "list_all (complete_request ?U) ss"
    by blast
  have "snk_bytes (DDest dc) = snk_bytes dst @ concat (rs @ ss)" "list_all (complete_request ?U) (rs @ ss)"
    using d(3,4) rs by simp_all
  then have "\<exists>rs. snk_bytes (DDest dc) = snk_bytes dst @ concat rs \<and> list_all (complete_request ?U) rs"
    by blast
  moreover have "run_decoder E m = (res, m\<lparr>DecLane := dc, DecIn := r, Shared := DTemplates dc\<rparr>)"
    by (simp add: run_decoder_def it)
  ultimately show ?thesis
    using d(1,2) md by (cases res) (simp_all add: backend_inv_def forward_step_def)
qed

lemma backend_inv_step:
  assumes "mstep E m m'" "backend_inv (tables E) dst m"
  shows "backend_inv (tables E) dst m'"
proof -
  have md: "MMode m = ModeDecode" using assms(2) by (simp add: backend_inv_def)
  note keep = backend_inv_cong [OF assms(2)] decode_mode_frame [OF md]
  from assms(1) show ?thesis
  proof (cases rule: mstep.cases)
    case forward
    with backend_inv_forward [OF _ assms(2)] show ?thesis by simp
  qed (use keep in simp_all)
qed

lemma link_inv_fast:
  assumes "RevPhase m = RevFast seen" "seen < reverseFastPathBytes" "link_inv all src m"
  shows "link_inv all src (reverse_fast seen m)"
proof -
  from assms(1,3) obtain s p where md: "MMode m = ModeDecode"
    and p: "Destination (Enc (EncLane m)) = Some s"
      "fast_inv all src seen (RevIn m) s (RawWindowFwd (EncLane m)) p"
    by (auto simp: link_inv_def)
  obtain st r s' w where rd: "fast_read seen (RevIn m) s (RawWindowFwd (EncLane m)) = (st, r, s', w)"
    by (metis prod_cases4)
  note step = fast_inv_step [OF p(2) assms(2) rd]
  show ?thesis
  proof (cases st)
    case (FastMore n)
    with step md rd p(1) show ?thesis by (auto simp: link_inv_def reverse_fast_def)
  next
    case (FastEnd e)
    with step have "fast_inv all src seen r s' w p" by simp
    then have "link_text all src False (snk_bytes s')" by (rule link_text_fast) simp
    then show ?thesis using FastEnd md rd p(1) by (simp add: link_inv_def reverse_fast_def sent_def)
  qed
qed

lemma link_inv_handover:
  assumes "RevPhase m = RevFast seen" "\<not> seen < reverseFastPathBytes" "link_inv all src m"
  shows "link_inv all src (reverse_handover m)"
proof -
  from assms(1,3) obtain s p where md: "MMode m = ModeDecode"
    and p: "Destination (Enc (EncLane m)) = Some s"
      "fast_inv all src seen (RevIn m) s (RawWindowFwd (EncLane m)) p"
    by (auto simp: link_inv_def)
  have "256 \<le> length p"
    using assms(2) p(2) by (simp add: fast_inv_def reverseFastPathBytes_def word_less_nat_alt not_less)
  then have "link_text all src True (snk_bytes s)" using link_text_fast [OF p(2)] by blast
  moreover have "snk_room s = None" using p(2) by (simp add: fast_inv_def)
  ultimately show ?thesis
    using md p(1) by (simp add: link_inv_def reverse_handover_def out_open_def sent_def)
qed

lemma link_inv_pipe:
  assumes "RevPhase m = RevPipe" "link_inv all src m"
  shows "link_inv all src (reverse_pipe E m)"
proof -
  let ?st = "(EncLane m)\<lparr>Enc := (Enc (EncLane m))\<lparr>Templates := Shared m\<rparr>\<rparr>"
  have md: "MMode m = ModeDecode" using assms(2) by (simp add: link_inv_def)
  have st: "out_open (Enc ?st)" "sent (Enc ?st) = sent (Enc (EncLane m))"
    and have_text: "link_text all src True (sent (Enc (EncLane m)))"
    using assms by (simp_all add: link_inv_def out_open_def sent_def)
  obtain res r st' where it: "encode_iter E (Canceled m) (EncIn m) ?st = (res, r, st')"
    by (metis prod_cases3)
  from encode_iter_frames [OF st(1) it] st(2) obtain fs where
    d: "out_open (Enc st')" "list_all encoder_frame fs"
      "sent (Enc st') = sent (Enc (EncLane m)) @ wire_of fs"
    by auto
  have out: "link_text all src True (sent (Enc st'))"
    unfolding d(3) by (rule link_text_more [OF have_text d(2)])
  have run: "run_encoder E m = (res, m\<lparr>EncLane := st', EncIn := r, Shared := Templates (Enc st')\<rparr>)"
    by (simp add: run_encoder_def it)
  show ?thesis
    using d(1) out md assms(1) run link_text_weaken [OF out]
    by (cases res) (simp_all add: link_inv_def reverse_pipe_def)
qed

lemma link_inv_step:
  assumes "mstep E m m'" "link_inv all src m"
  shows "link_inv all src m'"
  using assms(1)
proof (cases rule: mstep.cases)
  case forward
  have "MMode m = ModeDecode" using assms(2) by (simp add: link_inv_def)
  from link_inv_cong [OF assms(2)] decode_mode_frame [OF this] forward(1) show ?thesis by simp
qed (use assms(2) link_inv_fast link_inv_handover link_inv_pipe in blast)+

lemma decoding_start:
  assumes "snk_room dst = None" "snk_room src = None"
  shows "link_inv (seg_bytes rr) src (start_machine ModeDecode fwd dst rr src)"
    "backend_inv U dst (start_machine ModeDecode fwd dst rr src)"
proof -
  have "fast_inv (seg_bytes rr) src 0 rr src new_observer []"
    using assms(2) observed_new by (simp add: fast_inv_def)
  then show "link_inv (seg_bytes rr) src (start_machine ModeDecode fwd dst rr src)"
    by (auto simp: link_inv_def start_machine_def start_lane_def)
  have "dec_inv U (new_dec (Some new_dict) 0 dst new_observer)" by (rule new_dec_inv)
  then show "backend_inv U dst (start_machine ModeDecode fwd dst rr src)"
    using assms(1)
    by (auto simp: backend_inv_def start_machine_def dest_open_def new_dec_def intro: exI [of _ "[]"])
qed

lemma decoding_reach:
  assumes "(mstep E)\<^sup>*\<^sup>* (start_machine ModeDecode fwd dst rr src) m"
    and "snk_room dst = None" "snk_room src = None"
  shows "link_inv (seg_bytes rr) src m \<and> backend_inv (tables E) dst m"
  using assms(1)
  by (induction rule: rtranclp_induct)
    (use decoding_start [OF assms(2,3)] link_inv_step backend_inv_step in blast)+

section \<open>A reverse lane that has ended\<close>

lemma reverse_ended_stays:
  assumes "(mstep E)\<^sup>*\<^sup>* m m'" "MMode m = ModeEncode" "RevPhase m = RevEnded e"
  shows "DecLane m' = DecLane m \<and> MMode m' = ModeEncode \<and> RevPhase m' = RevEnded e"
  using assms(1)
proof (induction rule: rtranclp_induct)
  case (step n n')
  from step.hyps(2) step.IH show ?case
    by (cases rule: mstep.cases) (simp_all add: forward_keeps_decoder)
qed (use assms(2,3) in simp)

lemma read_frame_bad_magic:
  assumes "rd_bytes r = b # rest" "8 \<le> length (b # rest)" "b \<noteq> MagicByte"
  shows "read_frame r = Inl (ErrBadMagic b)"
  using assms by (simp add: read_frame_def read_header_def read_full_def parse_header_def)

section \<open>Properties\<close>

text \<open>
  C8: What a decoding connection lets out. At any moment, however its lanes are interleaved on the
  shared dictionary and whatever peer and backend send, the backend has received complete
  requests only, and the link a beginning of the backend's answers, verbatim and shorter than
  33024 bytes, followed by whole well-formed frames; there are none of those before 256 bytes
  have been copied.
\<close>

theorem decoding_connection_outputs:
  assumes "(mstep E)\<^sup>*\<^sup>* (start_machine ModeDecode fwd dst rr src) m"
    and "snk_room dst = None" "snk_room src = None"
  shows "(\<exists>rs. snk_bytes (DDest (DecLane m)) = snk_bytes dst @ concat rs \<and>
      list_all (complete_request (tables E)) rs) \<and>
    (\<exists>p q fs. seg_bytes rr = p @ q \<and> length p < 256 + 32768 \<and> (fs \<noteq> [] \<longrightarrow> 256 \<le> length p) \<and>
      sent (Enc (EncLane m)) = snk_bytes src @ p @ wire_of fs \<and> list_all encoder_frame fs)"
proof -
  from decoding_reach [OF assms] have link: "link_inv (seg_bytes rr) src m"
    and dest: "backend_inv (tables E) dst m" by blast+
  have "link_text (seg_bytes rr) src False (sent (Enc (EncLane m)))"
  proof (cases "RevPhase m")
    case (RevFast seen)
    with link obtain s p where "Destination (Enc (EncLane m)) = Some s"
      "fast_inv (seg_bytes rr) src seen (RevIn m) s (RawWindowFwd (EncLane m)) p"
      by (auto simp: link_inv_def)
    with link_text_fast [of "seg_bytes rr" src seen "RevIn m" s _ p False] show ?thesis
      by (simp add: sent_def)
  qed (use link in \<open>simp_all add: link_inv_def link_text_weaken\<close>)
  with dest show ?thesis unfolding link_text_def backend_inv_def by blast
qed

text \<open>
  C20: The two ends need not agree where the verbatim part stops. The peer has put \<open>p\<close> bytes on the
  link verbatim, followed by its frames, and the first read at the client's end returns only a
  part of \<open>p\<close> of 256 bytes or more. Then the decoder takes the rest of \<open>p\<close> for a frame: unless
  its first byte happens to be the magic byte the reverse lane fails, and the client keeps the
  part that was read and never gets the rest.
\<close>

theorem misaligned_prefix_breaks_the_reverse_lane:
  assumes "256 \<le> length part" "length part \<le> 32768" "b \<noteq> MagicByte" "8 \<le> length (b # rest)"
    and "snk_room client = None"
  shows "\<exists>m. (mstep E)\<^sup>*\<^sup>*
      (start_machine ModeEncode r dst \<lparr>segs = [part, b # rest], seg_end = fin\<rparr> client) m \<and>
    RevPhase m = RevEnded (Some (ErrBadMagic b)) \<and>
    snk_bytes (DDest (DecLane m)) = snk_bytes client @ part \<and>
    (\<forall>m'. (mstep E)\<^sup>*\<^sup>* m m' \<longrightarrow> snk_bytes (DDest (DecLane m')) = snk_bytes client @ part)"
proof -
  let ?r = "\<lparr>segs = [part, b # rest], seg_end = fin\<rparr>" and ?r1 = "\<lparr>segs = [b # rest], seg_end = fin\<rparr>"
  let ?m0 = "start_machine ModeEncode r dst ?r client"
  let ?m1 = "reverse_fast 0 ?m0"
  let ?m2 = "reverse_handover ?m1"
  let ?m3 = "reverse_pipe E ?m2"
  let ?n = "of_nat (length part) :: u32"
  have count: "unat ?n = length part" using assms(2) by simp
  have "part \<noteq> []" using assms(1) by auto
  then have rd: "fast_read 0 ?r client new_observer =
      (FastMore ?n, ?r1, client\<lparr>snk_bytes := snk_bytes client @ part\<rparr>, note_window part new_observer)"
    using assms(2) fast_write_open [OF assms(5), of part new_observer]
    by (simp add: fast_read_def conn_read_def)
  have m1: "RevPhase ?m1 = RevFast ?n" "RevIn ?m1 = ?r1" "MMode ?m1 = ModeEncode" "\<not> Canceled ?m1"
    "snk_bytes (DDest (DecLane ?m1)) = snk_bytes client @ part"
    using rd by (simp_all add: reverse_fast_def start_machine_def new_dec_def)
  have m2: "RevPhase ?m2 = RevPipe" "rd_bytes (DecIn ?m2) = b # rest" "MMode ?m2 = ModeEncode"
    "\<not> Canceled ?m2" "DecLane ?m2 = DecLane ?m1"
    using m1 by (simp_all add: reverse_handover_def reader_of_def seg_bytes_def)
  from read_frame_bad_magic [OF m2(2) assms(4,3)] m2
  have m3: "RevPhase ?m3 = RevEnded (Some (ErrBadMagic b))" "MMode ?m3 = ModeEncode"
    "DDest (DecLane ?m3) = DDest (DecLane ?m1)"
    by (simp_all add: reverse_pipe_def run_decoder_def decode_iter_def)
  have "mstep E ?m0 ?m1"
    by (rule mstep.fast) (simp_all add: start_machine_def reverseFastPathBytes_def)
  moreover have "\<not> ?n < reverseFastPathBytes"
    using assms(1) count by (simp add: reverseFastPathBytes_def word_less_nat_alt)
  then have "mstep E ?m1 ?m2" using m1(1) by (intro mstep.handover)
  moreover have "mstep E ?m2 ?m3" using m2(1) by (rule mstep.pipe)
  ultimately have "(mstep E)\<^sup>*\<^sup>* ?m0 ?m3" by (meson rtranclp.rtrancl_into_rtrancl rtranclp.rtrancl_refl)
  moreover have "snk_bytes (DDest (DecLane m')) = snk_bytes client @ part" if "(mstep E)\<^sup>*\<^sup>* ?m3 m'" for m'
    using reverse_ended_stays [OF that m3(2,1)] m3(3) m1(5) by simp
  ultimately show ?thesis using m3(1,3) m1(5) by (intro exI [of _ ?m3]) simp
qed

theorem decoding_connection_outputs_witness:
  "\<exists>m. (mstep sample_env)\<^sup>*\<^sup>* (start_machine ModeDecode
        \<lparr>rd_bytes = frame_image FrameRawData (str ''GET''), rd_end = ErrEOF\<rparr> fresh_sink short_answer fresh_sink) m \<and>
     FwdEnd m \<noteq> None \<and>
     (\<exists>p q fs. str ''HTTP/1.1 204 OK'' = p @ q \<and> (fs \<noteq> [] \<longrightarrow> 256 \<le> length p) \<and>
        sent (Enc (EncLane m)) = p @ wire_of fs)"
proof -
  obtain m e b where m: "(mstep sample_env)\<^sup>*\<^sup>* (start_machine ModeDecode
        \<lparr>rd_bytes = frame_image FrameRawData (str ''GET''), rd_end = ErrEOF\<rparr> fresh_sink short_answer fresh_sink) m"
    "FwdEnd m = Some e" "RevPhase m = RevEnded b"
    using reaches_end by blast
  have "snk_room fresh_sink = None" by simp
  from decoding_connection_outputs [OF m(1) this this] m(1,2) show ?thesis
    by (intro exI [of _ m]) (auto simp: short_answer_def seg_bytes_def str_def)
qed

theorem misaligned_prefix_breaks_the_reverse_lane_witness:
  "\<exists>m. (mstep sample_env)\<^sup>*\<^sup>* (start_machine ModeEncode bare_request fresh_sink
      \<lparr>segs = [replicate 256 65, 66 # replicate 7 67], seg_end = ErrEOF\<rparr> fresh_sink) m \<and>
    RevPhase m = RevEnded (Some (ErrBadMagic 66)) \<and>
    snk_bytes (DDest (DecLane m)) = snk_bytes fresh_sink @ replicate 256 65"
proof -
  have "256 \<le> length (replicate 256 65 :: bytes)" "length (replicate 256 65 :: bytes) \<le> 32768"
    "(66 :: byte) \<noteq> MagicByte" "8 \<le> length (66 # replicate 7 67 :: bytes)" "snk_room fresh_sink = None"
    by (simp_all add: MagicByte_def)
  from misaligned_prefix_breaks_the_reverse_lane [OF this] show ?thesis by blast
qed

end
