(* ===== verification/Shared_Dict.thy ===== *)
theory Shared_Dict
  imports Reverse_Link
begin

text \<open>
  One dictionary for two lanes. As long as everything that either lane defines is a pattern of
  one unambiguous set \<open>P\<close> under its own id, the shared dictionary only grows, and a lane gets
  from it what it would get from a dictionary of its own: the contract each lane keeps towards
  the other.
\<close>

section \<open>Dictionaries of patterns\<close>

definition dict_in :: "pattern set \<Rightarrow> dict \<Rightarrow> bool" where
  "dict_in P S \<longleftrightarrow> (\<forall>tid tm. S tid = Some tm \<longrightarrow>
     (\<exists>a b. (a, b) \<in> P \<and> tid = template_id_for a b \<and> tm = \<lparr>TID = tid, TConstA = a, TConstB = b\<rparr>))"

lemma dict_in_empty [simp]: "dict_in P Map.empty"
  by (simp add: dict_in_def)

lemma dict_in_define:
  assumes "unambiguous P" "dict_in P S" "(a, b) \<in> P"
  shows "dict_in P (S(template_id_for a b \<mapsto> \<lparr>TID = template_id_for a b, TConstA = a, TConstB = b\<rparr>))"
    "S \<subseteq>\<^sub>m S(template_id_for a b \<mapsto> \<lparr>TID = template_id_for a b, TConstA = a, TConstB = b\<rparr>)"
proof -
  show "dict_in P (S(template_id_for a b \<mapsto> \<lparr>TID = template_id_for a b, TConstA = a, TConstB = b\<rparr>))"
    using assms(2,3) by (auto simp: dict_in_def)
  have "tm = \<lparr>TID = template_id_for a b, TConstA = a, TConstB = b\<rparr>"
    if S: "S (template_id_for a b) = Some tm" for tm
  proof -
    from assms(2) S obtain c d where c: "(c, d) \<in> P" "template_id_for a b = template_id_for c d"
        "tm = \<lparr>TID = template_id_for a b, TConstA = c, TConstB = d\<rparr>"
      unfolding dict_in_def by blast
    with unambiguous_eq [OF assms(1,3) c(1,2)] show ?thesis by simp
  qed
  then show "S \<subseteq>\<^sub>m S(template_id_for a b \<mapsto> \<lparr>TID = template_id_for a b, TConstA = a, TConstB = b\<rparr>)"
    by (auto simp: map_le_def)
qed

lemma map_le_SomeD: "S \<subseteq>\<^sub>m S' \<Longrightarrow> S x = Some y \<Longrightarrow> S' x = Some y"
  by (force simp: map_le_def dom_def)

text \<open>A frame means the same to everybody who holds at least the templates of its stream.\<close>

lemma meaning_grows:
  assumes P: "unambiguous P" "dict_in P S" "T \<subseteq>\<^sub>m S"
    and f: "frame_meaning T f = Some (T', cs)" "defines_from P f"
  shows "\<exists>S'. frame_meaning S f = Some (S', cs) \<and> T' \<subseteq>\<^sub>m S' \<and> S \<subseteq>\<^sub>m S' \<and> dict_in P S'"
proof -
  obtain t p where tp: "f = (t, p)" by fastforce
  consider (raw) "t = FrameRawData" | (dfn) "t = FrameTemplateDefine" | (ref) "t = FrameTemplateRef"
    using f(1) by (auto simp: tp frame_meaning.simps split: if_splits)
  then show ?thesis
  proof cases
    case raw
    with f(1) P show ?thesis by (auto simp: tp frame_meaning.simps)
  next
    case dfn
    with f(2) obtain a b where ab: "(a, b) \<in> P"
        "parse_template_define_payload p = Inr (template_id_for a b, a, b)"
      by (auto simp: tp defines_from_def)
    with f(1) dfn have "T' = T(template_id_for a b \<mapsto> \<lparr>TID = template_id_for a b, TConstA = a, TConstB = b\<rparr>)"
        "cs = []"
      by (simp_all add: tp frame_meaning_define [OF ab(2)] del: FrameTemplateDefine_def)
    with dfn dict_in_define [OF P(1,2) ab(1)] map_le_upd [OF P(3)] show ?thesis
      by (simp add: tp frame_meaning_define [OF ab(2)] del: FrameTemplateDefine_def)
  next
    case ref
    with f(1) obtain tid lane tm where r: "parse_template_ref_payload p = Inr (tid, lane)"
        "T tid = Some tm" "T' = T" "cs = [TConstA tm @ lane @ TConstB tm]"
      by (auto simp: tp frame_meaning.simps split: sum.splits)
    from frame_meaning_ref [where T = S, OF r(1) map_le_SomeD [OF P(3) r(2)]] ref r(3,4) P show ?thesis
      by (simp add: tp del: FrameTemplateRef_def)
  qed
qed

lemma expand_grows:
  "\<lbrakk>unambiguous P; dict_in P S; list_all (defines_from P) fs; expand S fs = Some (S', cs)\<rbrakk> \<Longrightarrow>
     S \<subseteq>\<^sub>m S' \<and> dict_in P S'"
proof (induction fs arbitrary: S cs)
  case (Cons f fs)
  from frame_meaning_inv [OF Cons.prems(4)] obtain S1 ds es where
    m: "frame_meaning S f = Some (S1, ds)" "expand S1 fs = Some (S', es)" by blast
  from meaning_grows [OF Cons.prems(1,2) map_le_refl m(1)] Cons.prems(3) m(1)
  have "S \<subseteq>\<^sub>m S1" "dict_in P S1" by auto
  with Cons.IH [OF Cons.prems(1) _ _ m(2)] Cons.prems(3) show ?case
    by (auto intro: map_le_trans)
qed simp

section \<open>A decoder on the shared dictionary\<close>

text \<open>
  What is still to be read is a stream of frames which, with the templates \<open>T\<close> the stream has
  defined so far, makes the decoder end with \<open>out\<close> written.
\<close>

definition dec_track :: "pattern set \<Rightarrow> unicode \<Rightarrow> bytes \<Rightarrow> reader \<Rightarrow> dec \<Rightarrow> dict \<Rightarrow> bool" where
  "dec_track P U out r dc S \<longleftrightarrow>
     (\<exists>fs T T' cs d. r = \<lparr>rd_bytes = wire_of fs, rd_end = ErrEOF\<rparr> \<and> frames_ok fs \<and>
        list_all (defines_from P) fs \<and> T \<subseteq>\<^sub>m S \<and> expand T fs = Some (T', cs) \<and>
        feed_all U cs dc = (None, d) \<and> snk_bytes (DDest d) = out)"

lemma dec_track_mono: "dec_track P U out r dc S \<Longrightarrow> S \<subseteq>\<^sub>m S' \<Longrightarrow> dec_track P U out r dc S'"
  unfolding dec_track_def by (blast intro: map_le_trans)

lemma decode_iter_end:
  "decode_iter U False \<lparr>rd_bytes = [], rd_end = ErrEOF\<rparr> dc =
     (Some None, \<lparr>rd_bytes = [], rd_end = ErrEOF\<rparr>, dc)"
  by (simp add: decode_iter_def read_frame_eof)

lemma decode_iter_frame:
  "frame_ok t p \<Longrightarrow> handle_frame U t p dc = (None, dc') \<Longrightarrow>
     decode_iter U False \<lparr>rd_bytes = frame_image t p @ q, rd_end = e\<rparr> dc =
       (None, \<lparr>rd_bytes = q, rd_end = e\<rparr>, dc')"
  by (simp add: decode_iter_def read_frame_image frame_header_def)

lemma dec_track_step:
  assumes P: "unambiguous P" "dict_in P S" and track: "dec_track P U out r dc S"
    and it: "decode_iter U False r (with_templates S dc) = (res, r', dc')"
  shows "dict_in P (DTemplates dc') \<and> S \<subseteq>\<^sub>m DTemplates dc' \<and>
    (case res of None \<Rightarrow> dec_track P U out r' dc' (DTemplates dc')
     | Some e \<Rightarrow> e = None \<and> snk_bytes (DDest dc') = out)"
proof -
  from track obtain fs T T' cs d where t: "r = \<lparr>rd_bytes = wire_of fs, rd_end = ErrEOF\<rparr>"
      "frames_ok fs" "list_all (defines_from P) fs" "T \<subseteq>\<^sub>m S" "expand T fs = Some (T', cs)"
      "feed_all U cs dc = (None, d)" "snk_bytes (DDest d) = out"
    unfolding dec_track_def by blast
  show ?thesis
  proof (cases fs)
    case Nil
    with t it have "res = Some None" "dc' = with_templates S dc" "d = dc"
      by (auto simp: decode_iter_end ok_def)
    with t(7) P(2) show ?thesis by simp
  next
    case (Cons f gs)
    obtain ty p where f: "f = (ty, p)" by fastforce
    from frame_meaning_inv [OF t(5) [unfolded Cons]] obtain T1 ds es where
      m: "frame_meaning T f = Some (T1, ds)" "expand T1 gs = Some (T', es)" "cs = ds @ es"
      by blast
    from t(6) obtain c where c: "feed_all U ds dc = (None, c)" "feed_all U es c = (None, d)"
      unfolding m(3) feed_all_append by (blast dest: and_then_NoneD)
    from meaning_grows [OF P t(4) m(1)] t(3) Cons obtain S1 where
      S1: "frame_meaning S (ty, p) = Some (S1, ds)" "T1 \<subseteq>\<^sub>m S1" "S \<subseteq>\<^sub>m S1" "dict_in P S1"
      by (auto simp: f)
    have "handle_frame U ty p (with_templates S dc) = (None, with_templates S1 (with_templates S c))"
      using handle_frame_meaning [of "with_templates S dc" ty p S1 ds U] S1(1) c(1)
      by (simp add: feed_all_templates)
    with it t(1,2) Cons have res: "res = None" "r' = \<lparr>rd_bytes = wire_of gs, rd_end = ErrEOF\<rparr>"
        "dc' = with_templates S1 c"
      by (auto simp: f decode_iter_frame)
    have "feed_all U es (with_templates S1 c) = (None, with_templates S1 d)"
      by (simp add: feed_all_templates c(2))
    moreover have "snk_bytes (DDest (with_templates S1 d)) = out" using t(7) by simp
    ultimately have "dec_track P U out r' dc' S1"
      using res t(2,3) Cons S1(2) m(2) unfolding dec_track_def f
      by (intro exI [of _ gs] exI [of _ T1] exI [of _ T'] exI [of _ es] exI [of _ "with_templates S1 d"])
        simp
    then show ?thesis using res S1(3,4) by simp
  qed
qed

section \<open>An encoder on the shared dictionary\<close>

definition enc_track :: "pattern set \<Rightarrow> go_env \<Rightarrow> reader \<Rightarrow> enc_lane \<Rightarrow> dict \<Rightarrow> bool" where
  "enc_track P E r st S \<longleftrightarrow> out_open (Enc st) \<and> defined_ok P ((Enc st)\<lparr>Templates := S\<rparr>) \<and>
     session_patterns (requests (tables E) r) \<subseteq> P"

lemma enc_track_mono: "enc_track P E r st S \<Longrightarrow> S \<subseteq>\<^sub>m S' \<Longrightarrow> enc_track P E r st S'"
  unfolding enc_track_def defined_ok_def by (fastforce dest: map_le_SomeD)

lemma enc_track_step:
  assumes P: "unambiguous P" "dict_in P S" and track: "enc_track P E r st S"
    and it: "encode_iter E c r (st\<lparr>Enc := (Enc st)\<lparr>Templates := S\<rparr>\<rparr>) = (res, r', st')"
  shows "dict_in P (Templates (Enc st')) \<and> S \<subseteq>\<^sub>m Templates (Enc st') \<and>
    enc_track P E r' st' (Templates (Enc st'))"
proof -
  let ?st = "st\<lparr>Enc := (Enc st)\<lparr>Templates := S\<rparr>\<rparr>" and ?U = "tables E"
  have inv: "out_open (Enc ?st)" "defined_ok P (Enc ?st)" "session_patterns (requests ?U r) \<subseteq> P"
    using track by (simp_all add: enc_track_def out_open_def)
  from encode_iter_frames [OF inv(1) it] have op: "out_open (Enc st')" by blast
  show ?thesis
  proof (cases "c \<or> (\<exists>x. read_http_request_body ?U r maxHeaderBytes maxBodyBytes = Inl x)")
    case True
    with it have "st' = ?st" "r' = r" by (auto simp: encode_iter_def split: if_splits)
    with P(2) inv show ?thesis by (simp add: enc_track_def)
  next
    case False
    then obtain meta body r1 where read:
      "read_http_request_body ?U r maxHeaderBytes maxBodyBytes = Inr (meta, body, r1)" "\<not> c"
      by (metis prod_cases3 sum.exhaust)
    let ?hdr = "normalize_http_headers ?U (HeaderBytes meta) (int (length body))"
    have "requests ?U r = (?hdr, body) # requests ?U r1" using read by (subst requests.simps) simp
    then have pats: "request_patterns (?hdr, body) \<subseteq> P" "session_patterns (requests ?U r1) \<subseteq> P"
      using inv(3) by (auto simp: session_patterns_def)
    from request_encodes [OF read(1) inv(1)] obtain st1 where
      enc: "encode_request E meta body ?st = (None, st1)" by blast
    with it read have st1: "st' = st1" "r' = r1" by (simp_all add: encode_iter_def)
    from encode_request_means [OF enc P(1) refl pats(1) inv(2)] obtain fs cs where
      m: "defined_ok P (Enc st1)" "list_all (defines_from P) fs"
      "expand S fs = Some (Templates (Enc st1), cs)"
      by (auto simp: step_means_def)
    from expand_grows [OF P m(2,3)] m(1) pats(2) op st1 show ?thesis
      by (simp add: enc_track_def)
  qed
qed

end
