(* ===== verification/Full_Duplex.thy ===== *)
theory Full_Duplex
  imports Shared_Dict
begin

text \<open>
  Both pipelines of a connection running at once (\<^verbatim>\<open>Run\<close> in \<^verbatim>\<open>internal/state/machine.go\<close>), on the
  dictionary they share, and two such connections back to back.
\<close>

section \<open>The copy loop as the function it computes\<close>

text \<open>The steps of the fast path in the machine are those of \<^verbatim>\<open>fast_path\<close>.\<close>

definition fast_to :: "seg_reader \<Rightarrow> sink \<Rightarrow> raw_window option \<Rightarrow> u32 \<Rightarrow> machine \<Rightarrow> bool" where
  "fast_to after s1 w1 seen m \<longleftrightarrow> (\<exists>s. source_sink m = Some s \<and>
     fast_path seen (RevIn m) s (source_window m) = (None, after, s1, w1))"

lemma fast_to_cong:
  "\<lbrakk>source_sink m' = source_sink m; source_window m' = source_window m; RevIn m' = RevIn m\<rbrakk> \<Longrightarrow>
     fast_to after s1 w1 seen m' = fast_to after s1 w1 seen m"
  by (simp add: fast_to_def)

lemma fast_to_step:
  assumes "seen < reverseFastPathBytes" "fast_to after s1 w1 seen m"
  shows "\<exists>n. RevPhase (reverse_fast seen m) = RevFast n \<and> fast_to after s1 w1 n (reverse_fast seen m)"
proof -
  from assms(2) obtain s where s: "source_sink m = Some s"
    "fast_path seen (RevIn m) s (source_window m) = (None, after, s1, w1)"
    unfolding fast_to_def by blast
  obtain st r s' w where rd: "fast_read seen (RevIn m) s (source_window m) = (st, r, s', w)"
    by (metis prod_cases4)
  from s(2) rd assms(1) obtain n where "st = FastMore n" "fast_path n r s' w = (None, after, s1, w1)"
    by (subst (asm) fast_path.simps) (cases st; simp)
  with reverse_fast_run [OF s(1) rd] show ?thesis by (simp add: fast_to_def)
qed

lemma fast_to_done:
  assumes "\<not> seen < reverseFastPathBytes" "fast_to after s1 w1 seen m"
  shows "RevIn m = after" "source_sink m = Some s1" "source_window m = w1"
  using assms by (auto simp: fast_to_def fast_path.simps)

section \<open>A session of frames for the other end\<close>

lemma session_track:
  assumes run: "encode_loop E k r (start_lane (Some s) new_dict stats w) = (None, st)"
    and P: "unambiguous P" "session_patterns (requests (tables E) r) \<subseteq> P"
    and plain: "list_all (\<lambda>(hdr, body). plain_request_line (tables E) hdr) (requests (tables E) r)"
  shows "\<exists>x. sent (Enc st) = snk_bytes s @ x \<and>
    (\<forall>t v. snk_room t = None \<longrightarrow> dec_track P (tables E) (snk_bytes t @ truth_stream (requests (tables E) r))
      \<lparr>rd_bytes = x, rd_end = ErrEOF\<rparr> (new_dec (Some new_dict) 0 t v) Map.empty)"
proof -
  have "defined_ok P (Enc (start_lane (Some s) new_dict stats w))"
    by (simp add: start_lane_def defined_ok_def)
  from session_frames [OF run P plain this] obtain fs cs T where fs:
    "sent (Enc st) = snk_bytes s @ wire_of fs" "frames_ok fs" "list_all (defines_from P) fs"
    "expand Map.empty fs = Some (T, cs)"
    "\<And>dc. idle dc \<Longrightarrow> dest_open dc \<Longrightarrow> feed_all (tables E) cs dc =
       (None, deliver_all (map (\<lambda>(hdr, body). hdr @ body) (requests (tables E) r)) dc)"
    by (auto simp: start_lane_def sent_def new_dict_def)
  have "dec_track P (tables E) (snk_bytes t @ truth_stream (requests (tables E) r))
      \<lparr>rd_bytes = wire_of fs, rd_end = ErrEOF\<rparr> (new_dec (Some new_dict) 0 t v) Map.empty"
    if "snk_room t = None" for t v
  proof -
    let ?dc = "new_dec (Some new_dict) 0 t v"
    have "idle ?dc" "dest_open ?dc" using that by (simp_all add: idle_def dest_open_def new_dec_def)
    from fs(5) [OF this] deliver_all_facts(2) [of "map (\<lambda>(hdr, body). hdr @ body) (requests (tables E) r)" ?dc]
    show ?thesis
      using fs(2-4) unfolding dec_track_def
      by (intro exI [of _ fs] exI [of _ Map.empty] exI [of _ T] exI [of _ cs] exI)
        (simp add: truth_stream_def new_dec_def)
  qed
  with fs(1) show ?thesis by blast
qed

section \<open>A decoding connection\<close>

definition duplex_decode ::
    "pattern set \<Rightarrow> go_env \<Rightarrow> bytes \<Rightarrow> seg_reader \<Rightarrow> sink \<Rightarrow> raw_window option \<Rightarrow>
     go_error option \<times> enc_lane \<Rightarrow> machine \<Rightarrow> bool" where
  "duplex_decode P E out after s1 w1 res m \<longleftrightarrow> MMode m = ModeDecode \<and> dict_in P (Shared m) \<and>
     (case FwdEnd m of
        None \<Rightarrow> \<not> Canceled m \<and> dec_track P (tables E) out (DecIn m) (DecLane m) (Shared m)
      | Some e \<Rightarrow> e = None \<and> snk_bytes (DDest (DecLane m)) = out) \<and>
     (case RevPhase m of
        RevFast seen \<Rightarrow> fast_to after s1 w1 seen m \<and>
          (\<exists>s w. EncLane m = start_lane (Some s) new_dict new_conn_stats w)
      | RevPipe \<Rightarrow> enc_track P E (EncIn m) (EncLane m) (Shared m) \<and> alone E (EncIn m) (EncLane m) res
      | RevEnded e \<Rightarrow> e = None \<and> forget_lane (snd res) = forget_lane (EncLane m) \<or>
          e = Some ErrCanceled \<and> FwdEnd m \<noteq> None)"

lemma duplex_decode_forward:
  assumes P: "unambiguous P" and fwd: "FwdEnd m = None" and inv: "duplex_decode P E out after s1 w1 res m"
  shows "duplex_decode P E out after s1 w1 res (forward_step E m)"
proof -
  have md: "MMode m = ModeDecode" "\<not> Canceled m" "dict_in P (Shared m)"
    and track: "dec_track P (tables E) out (DecIn m) (DecLane m) (Shared m)"
    using inv fwd by (simp_all add: duplex_decode_def)
  obtain x r dc where it: "decode_iter (tables E) False (DecIn m) (with_templates (Shared m) (DecLane m)) =
      (x, r, dc)" by (metis prod_cases3)
  have run: "run_decoder E m = (x, m\<lparr>DecLane := dc, DecIn := r, Shared := DTemplates dc\<rparr>)"
    using it md(2) by (simp add: run_decoder_def)
  from dec_track_step [OF P md(3) track it] have s: "dict_in P (DTemplates dc)" "Shared m \<subseteq>\<^sub>m DTemplates dc"
    "case x of None \<Rightarrow> dec_track P (tables E) out r dc (DTemplates dc)
     | Some e \<Rightarrow> e = None \<and> snk_bytes (DDest dc) = out" by simp_all
  let ?m = "forward_step E m"
  have m: "MMode ?m = ModeDecode" "Shared ?m = DTemplates dc" "DecLane ?m = dc" "DecIn ?m = r"
    "EncIn ?m = EncIn m" "FwdEnd ?m = x" "Canceled ?m = (x \<noteq> None)"
    using run md fwd by (cases x; simp add: forward_step_def)+
  note keep = decode_mode_frame(1,2,3) [OF md(1), of E] forward_keeps_source(1,2) [of E m]
  have "case RevPhase ?m of
        RevFast seen \<Rightarrow> fast_to after s1 w1 seen ?m \<and>
          (\<exists>s w. EncLane ?m = start_lane (Some s) new_dict new_conn_stats w)
      | RevPipe \<Rightarrow> enc_track P E (EncIn ?m) (EncLane ?m) (Shared ?m) \<and> alone E (EncIn ?m) (EncLane ?m) res
      | RevEnded e \<Rightarrow> e = None \<and> forget_lane (snd res) = forget_lane (EncLane ?m) \<or>
          e = Some ErrCanceled \<and> FwdEnd ?m \<noteq> None"
    using inv fwd enc_track_mono [OF _ s(2)] fast_to_cong [of ?m m] unfolding keep m
    by (cases "RevPhase m") (auto simp: duplex_decode_def keep)
  then show ?thesis
    using s(1,3) unfolding duplex_decode_def m by (cases x) simp_all
qed

lemma duplex_decode_fast:
  assumes "RevPhase m = RevFast seen" "seen < reverseFastPathBytes"
    and inv: "duplex_decode P E out after s1 w1 res m"
  shows "duplex_decode P E out after s1 w1 res (reverse_fast seen m)"
proof -
  let ?m = "reverse_fast seen m"
  from inv assms(1) obtain s w where md: "MMode m = ModeDecode" and ft: "fast_to after s1 w1 seen m"
    and lane: "EncLane m = start_lane (Some s) new_dict new_conn_stats w"
    by (auto simp: duplex_decode_def)
  have "\<exists>s w. EncLane ?m = start_lane (Some s) new_dict new_conn_stats w"
    using md lane by (auto simp: reverse_fast_def start_lane_def split: prod.split)
  moreover obtain n where "RevPhase ?m = RevFast n" "fast_to after s1 w1 n ?m"
    using fast_to_step [OF assms(2) ft] by blast
  moreover have "MMode ?m = ModeDecode" "Shared ?m = Shared m" "FwdEnd ?m = FwdEnd m"
    "Canceled ?m = Canceled m" "DecIn ?m = DecIn m" "DecLane ?m = DecLane m"
    using md by (simp_all add: reverse_fast_def split: prod.split option.split)
  ultimately show ?thesis using inv by (simp add: duplex_decode_def split: option.splits)
qed

lemma duplex_decode_handover:
  assumes "RevPhase m = RevFast seen" "\<not> seen < reverseFastPathBytes"
    and inv: "duplex_decode P E out after s1 w1 res m"
    and res: "res = encode_loop E 0 (reader_of after) (start_lane (Some s1) new_dict new_conn_stats w1)"
    and s1: "snk_room s1 = None" "session_patterns (requests (tables E) (reader_of after)) \<subseteq> P"
  shows "duplex_decode P E out after s1 w1 res (reverse_handover m)"
proof -
  from inv assms(1) obtain s w where md: "MMode m = ModeDecode" and ft: "fast_to after s1 w1 seen m"
    and lane: "EncLane m = start_lane (Some s) new_dict new_conn_stats w"
    by (auto simp: duplex_decode_def)
  note last = fast_to_done [OF assms(2) ft]
  have l: "EncLane m = start_lane (Some s1) new_dict new_conn_stats w1"
    using last(2,3) md lane by (simp add: source_sink_def source_window_def start_lane_def)
  have "enc_track P E (reader_of after) (EncLane m) (Shared m)"
    using s1 by (simp add: l enc_track_def start_lane_def out_open_def defined_ok_def)
  moreover have "alone E (reader_of after) (EncLane m) res" unfolding l res alone_def by blast
  ultimately show ?thesis
    using inv md last(1) by (simp add: duplex_decode_def reverse_handover_def split: option.splits)
qed

lemma duplex_decode_pipe:
  assumes never: "\<forall>k. \<not> ctx_done E k" and P: "unambiguous P" and "RevPhase m = RevPipe"
    and inv: "duplex_decode P E out after s1 w1 res m" and ok: "fst res = None"
  shows "duplex_decode P E out after s1 w1 res (reverse_pipe E m)"
proof -
  from inv assms(3) have md: "MMode m = ModeDecode" "dict_in P (Shared m)"
    and track: "enc_track P E (EncIn m) (EncLane m) (Shared m)" and al: "alone E (EncIn m) (EncLane m) res"
    by (simp_all add: duplex_decode_def)
  obtain x r st where it: "encode_iter E (Canceled m) (EncIn m)
      ((EncLane m)\<lparr>Enc := (Enc (EncLane m))\<lparr>Templates := Shared m\<rparr>\<rparr>) = (x, r, st)"
    by (metis prod_cases3)
  have run: "run_encoder E m = (x, m\<lparr>EncLane := st, EncIn := r, Shared := Templates (Enc st)\<rparr>)"
    using it by (simp add: run_encoder_def)
  from enc_track_step [OF P md(2) track it]
  have s: "dict_in P (Templates (Enc st))" "Shared m \<subseteq>\<^sub>m Templates (Enc st)"
    "enc_track P E r st (Templates (Enc st))" by simp_all
  let ?m = "reverse_pipe E m"
  have m: "MMode ?m = ModeDecode" "Shared ?m = Templates (Enc st)" "EncLane ?m = st" "EncIn ?m = r"
    "DecIn ?m = DecIn m" "DecLane ?m = DecLane m" "FwdEnd ?m = FwdEnd m" "Canceled ?m = Canceled m"
    "RevPhase ?m = (case x of None \<Rightarrow> RevPipe | Some e \<Rightarrow> RevEnded e)"
    using run md assms(3) by (cases x; simp add: reverse_pipe_def)+
  have "case x of None \<Rightarrow> alone E r st res
    | Some e \<Rightarrow> e = None \<and> forget_lane (snd res) = forget_lane st \<or> e = Some ErrCanceled \<and> FwdEnd m \<noteq> None"
  proof (cases "Canceled m")
    case True
    with it have "x = Some (Some ErrCanceled)" by (simp add: encode_iter_def)
    moreover have "FwdEnd m \<noteq> None" using True inv by (cases "FwdEnd m") (simp_all add: duplex_decode_def)
    ultimately show ?thesis by simp
  next
    case False
    from alone_iter [OF never al it [unfolded Eq_FalseI [OF False]]] False it ok
    show ?thesis by (auto split: option.splits)
  qed
  then show ?thesis
    using inv s dec_track_mono [OF _ s(2)] unfolding duplex_decode_def m
    by (cases x) (auto split: option.splits)
qed

lemma duplex_decode_reach:
  assumes reach: "(mstep E)\<^sup>*\<^sup>* (start_machine ModeDecode fwd dst rr src) m"
    and never: "\<forall>k. \<not> ctx_done E k" and P: "unambiguous P"
    and fwd: "dec_track P (tables E) out fwd (new_dec (Some new_dict) 0 dst new_observer) Map.empty"
    and fast: "fast_path 0 rr src new_observer = (None, after, s1, w1)" "snk_room s1 = None"
    and res: "res = encode_loop E 0 (reader_of after) (start_lane (Some s1) new_dict new_conn_stats w1)"
      "fst res = None" "session_patterns (requests (tables E) (reader_of after)) \<subseteq> P"
  shows "duplex_decode P E out after s1 w1 res m"
  using reach
proof (induction rule: rtranclp_induct)
  case base
  show ?case
    using fwd fast(1)
    by (auto simp: duplex_decode_def start_machine_def fast_to_def source_sink_def source_window_def
        start_lane_def new_dict_def)
next
  case (step m m')
  from step.hyps(2) show ?case
  proof (cases rule: mstep.cases)
    case forward
    with duplex_decode_forward [OF P _ step.IH] show ?thesis by simp
  next
    case (fast seen)
    with duplex_decode_fast [OF _ _ step.IH] show ?thesis by simp
  next
    case (handover seen)
    with duplex_decode_handover [OF _ _ step.IH res(1) fast(2) res(3)] show ?thesis by simp
  next
    case pipe
    with duplex_decode_pipe [OF never P _ step.IH res(2)] show ?thesis by simp
  qed
qed

section \<open>An encoding connection\<close>

definition duplex_encode ::
    "pattern set \<Rightarrow> go_env \<Rightarrow> bytes \<Rightarrow> seg_reader \<Rightarrow> sink \<Rightarrow> raw_window option \<Rightarrow> machine \<Rightarrow> bool" where
  "duplex_encode P E out after s1 w1 m \<longleftrightarrow> MMode m = ModeEncode \<and> dict_in P (Shared m) \<and>
     (FwdEnd m = None \<longrightarrow> \<not> Canceled m \<and> enc_track P E (EncIn m) (EncLane m) (Shared m)) \<and>
     (case RevPhase m of
        RevFast seen \<Rightarrow> fast_to after s1 w1 seen m \<and>
          (\<exists>s w. DecLane m = new_dec (Some new_dict) 0 s w)
      | RevPipe \<Rightarrow> dec_track P (tables E) out (DecIn m) (DecLane m) (Shared m)
      | RevEnded e \<Rightarrow> e = None \<and> snk_bytes (DDest (DecLane m)) = out \<or>
          e = Some ErrCanceled \<and> FwdEnd m \<noteq> None)"

lemma duplex_encode_forward:
  assumes P: "unambiguous P" and fwd: "FwdEnd m = None" and inv: "duplex_encode P E out after s1 w1 m"
  shows "duplex_encode P E out after s1 w1 (forward_step E m)"
proof -
  have md: "MMode m = ModeEncode" "\<not> Canceled m" "dict_in P (Shared m)"
    and track: "enc_track P E (EncIn m) (EncLane m) (Shared m)"
    using inv fwd by (simp_all add: duplex_encode_def)
  obtain x r st where it: "encode_iter E False (EncIn m)
      ((EncLane m)\<lparr>Enc := (Enc (EncLane m))\<lparr>Templates := Shared m\<rparr>\<rparr>) = (x, r, st)"
    by (metis prod_cases3)
  have run: "run_encoder E m = (x, m\<lparr>EncLane := st, EncIn := r, Shared := Templates (Enc st)\<rparr>)"
    using it md(2) by (simp add: run_encoder_def)
  from enc_track_step [OF P md(3) track it]
  have s: "dict_in P (Templates (Enc st))" "Shared m \<subseteq>\<^sub>m Templates (Enc st)"
    "enc_track P E r st (Templates (Enc st))" by simp_all
  let ?m = "forward_step E m"
  have m: "MMode ?m = ModeEncode" "Shared ?m = Templates (Enc st)" "EncLane ?m = st" "EncIn ?m = r"
    "DecIn ?m = DecIn m" "DecLane ?m = DecLane m" "FwdEnd ?m = x" "Canceled ?m = (x \<noteq> None)"
    using run md fwd by (cases x; simp add: forward_step_def)+
  note keep = forward_keeps_source(1-4) [of E m]
  have "case RevPhase ?m of
        RevFast seen \<Rightarrow> fast_to after s1 w1 seen ?m \<and>
          (\<exists>s w. DecLane ?m = new_dec (Some new_dict) 0 s w)
      | RevPipe \<Rightarrow> dec_track P (tables E) out (DecIn ?m) (DecLane ?m) (Shared ?m)
      | RevEnded e \<Rightarrow> e = None \<and> snk_bytes (DDest (DecLane ?m)) = out \<or>
          e = Some ErrCanceled \<and> FwdEnd ?m \<noteq> None"
    using inv fwd dec_track_mono [OF _ s(2)] fast_to_cong [of ?m m] unfolding keep m
    by (cases "RevPhase m") (auto simp: duplex_encode_def keep)
  then show ?thesis using s(1,3) unfolding duplex_encode_def m by simp
qed

lemma duplex_encode_fast:
  assumes "RevPhase m = RevFast seen" "seen < reverseFastPathBytes"
    and inv: "duplex_encode P E out after s1 w1 m"
  shows "duplex_encode P E out after s1 w1 (reverse_fast seen m)"
proof -
  let ?m = "reverse_fast seen m"
  from inv assms(1) obtain s w where md: "MMode m = ModeEncode" and ft: "fast_to after s1 w1 seen m"
    and lane: "DecLane m = new_dec (Some new_dict) 0 s w"
    by (auto simp: duplex_encode_def)
  have "\<exists>s w. DecLane ?m = new_dec (Some new_dict) 0 s w"
    using md lane by (auto simp: reverse_fast_def new_dec_def split: prod.split)
  moreover obtain n where "RevPhase ?m = RevFast n" "fast_to after s1 w1 n ?m"
    using fast_to_step [OF assms(2) ft] by blast
  moreover have "MMode ?m = ModeEncode" "Shared ?m = Shared m" "FwdEnd ?m = FwdEnd m"
    "Canceled ?m = Canceled m" "EncIn ?m = EncIn m" "EncLane ?m = EncLane m"
    using md by (simp_all add: reverse_fast_def split: prod.split)
  ultimately show ?thesis using inv by (simp add: duplex_encode_def)
qed

lemma duplex_encode_handover:
  assumes "RevPhase m = RevFast seen" "\<not> seen < reverseFastPathBytes"
    and inv: "duplex_encode P E out after s1 w1 m"
    and start: "dec_track P (tables E) out (reader_of after) (new_dec (Some new_dict) 0 s1 w1) Map.empty"
  shows "duplex_encode P E out after s1 w1 (reverse_handover m)"
proof -
  from inv assms(1) obtain s w where md: "MMode m = ModeEncode" and ft: "fast_to after s1 w1 seen m"
    and lane: "DecLane m = new_dec (Some new_dict) 0 s w"
    by (auto simp: duplex_encode_def)
  note last = fast_to_done [OF assms(2) ft]
  have "DecLane m = new_dec (Some new_dict) 0 s1 w1"
    using last(2,3) md lane by (simp add: source_sink_def source_window_def new_dec_def)
  with dec_track_mono [OF start, of "Shared m"] inv md last(1) show ?thesis
    by (simp add: duplex_encode_def reverse_handover_def)
qed

lemma duplex_encode_pipe:
  assumes P: "unambiguous P" and "RevPhase m = RevPipe" and inv: "duplex_encode P E out after s1 w1 m"
  shows "duplex_encode P E out after s1 w1 (reverse_pipe E m)"
proof -
  from inv assms(2) have md: "MMode m = ModeEncode" "dict_in P (Shared m)"
    and track: "dec_track P (tables E) out (DecIn m) (DecLane m) (Shared m)"
    by (simp_all add: duplex_encode_def)
  obtain x r dc where it: "decode_iter (tables E) (Canceled m) (DecIn m)
      (with_templates (Shared m) (DecLane m)) = (x, r, dc)" by (metis prod_cases3)
  have run: "run_decoder E m = (x, m\<lparr>DecLane := dc, DecIn := r, Shared := DTemplates dc\<rparr>)"
    using it by (simp add: run_decoder_def)
  let ?m = "reverse_pipe E m"
  have m: "MMode ?m = ModeEncode" "Shared ?m = DTemplates dc" "DecLane ?m = dc" "DecIn ?m = r"
    "EncIn ?m = EncIn m" "EncLane ?m = EncLane m" "FwdEnd ?m = FwdEnd m" "Canceled ?m = Canceled m"
    "RevPhase ?m = (case x of None \<Rightarrow> RevPipe | Some e \<Rightarrow> RevEnded e)"
    using run md assms(2) by (cases x; simp add: reverse_pipe_def)+
  have s: "dict_in P (DTemplates dc)" "Shared m \<subseteq>\<^sub>m DTemplates dc"
    "case x of None \<Rightarrow> dec_track P (tables E) out r dc (DTemplates dc)
     | Some e \<Rightarrow> e = None \<and> snk_bytes (DDest dc) = out \<or> e = Some ErrCanceled \<and> FwdEnd m \<noteq> None"
  proof (atomize(full), cases "Canceled m")
    case True
    with it have "x = Some (Some ErrCanceled)" "DTemplates dc = Shared m"
      by (auto simp: decode_iter_def)
    moreover have "FwdEnd m \<noteq> None" using True inv by (auto simp: duplex_encode_def)
    ultimately show "dict_in P (DTemplates dc) \<and> Shared m \<subseteq>\<^sub>m DTemplates dc \<and>
      (case x of None \<Rightarrow> dec_track P (tables E) out r dc (DTemplates dc)
       | Some e \<Rightarrow> e = None \<and> snk_bytes (DDest dc) = out \<or> e = Some ErrCanceled \<and> FwdEnd m \<noteq> None)"
      using md(2) by simp
  next
    case False
    from dec_track_step [OF P md(2) track it [unfolded Eq_FalseI [OF False]]]
    show "dict_in P (DTemplates dc) \<and> Shared m \<subseteq>\<^sub>m DTemplates dc \<and>
      (case x of None \<Rightarrow> dec_track P (tables E) out r dc (DTemplates dc)
       | Some e \<Rightarrow> e = None \<and> snk_bytes (DDest dc) = out \<or> e = Some ErrCanceled \<and> FwdEnd m \<noteq> None)"
      by (auto split: option.splits)
  qed
  show ?thesis
    using inv s enc_track_mono [OF _ s(2)] unfolding duplex_encode_def m
    by (cases x) auto
qed

lemma duplex_encode_reach:
  assumes reach: "(mstep E)\<^sup>*\<^sup>* (start_machine ModeEncode fwd dst rr src) m"
    and P: "unambiguous P" and pats: "session_patterns (requests (tables E) fwd) \<subseteq> P"
    and dst: "snk_room dst = None"
    and fast: "fast_path 0 rr src new_observer = (None, after, s1, w1)"
    and start: "dec_track P (tables E) out (reader_of after) (new_dec (Some new_dict) 0 s1 w1) Map.empty"
  shows "duplex_encode P E out after s1 w1 m"
  using reach
proof (induction rule: rtranclp_induct)
  case base
  show ?case
    using pats fast dst
    by (auto simp: duplex_encode_def start_machine_def fast_to_def source_sink_def source_window_def
        start_lane_def new_dict_def new_dec_def enc_track_def out_open_def defined_ok_def)
next
  case (step m m')
  from step.hyps(2) show ?case
  proof (cases rule: mstep.cases)
    case forward
    with duplex_encode_forward [OF P _ step.IH] show ?thesis by simp
  next
    case (fast seen)
    with duplex_encode_fast [OF _ _ step.IH] show ?thesis by simp
  next
    case (handover seen)
    with duplex_encode_handover [OF _ _ step.IH start] show ?thesis by simp
  next
    case pipe
    with duplex_encode_pipe [OF P _ step.IH] show ?thesis by simp
  qed
qed

end
