(* ===== verification/End_To_End.thy ===== *)
theory End_To_End
  imports Full_Duplex
begin

text \<open>
  Two connections back to back with both pipelines running: requests one way, answers the other,
  one dictionary in each machine (\<^verbatim>\<open>Run\<close> in \<^verbatim>\<open>internal/state/machine.go\<close> at both ends).
\<close>

section \<open>What the fast path leaves\<close>

lemma fast_path_leaves:
  assumes "fast_path 0 r s new_observer = (None, r', s', w')" "snk_room s = None"
  shows "\<exists>q. seg_bytes r = q @ seg_bytes r' \<and> snk_bytes s' = snk_bytes s @ q \<and>
    snk_room s' = None \<and> seg_end r' = seg_end r \<and> 256 \<le> length q"
proof -
  have "fast_inv (seg_bytes r) s 0 r s new_observer []"
    using assms(2) observed_new by (simp add: fast_inv_def)
  from fast_path_inv [OF this assms(1)] show ?thesis unfolding fast_inv_def by auto
qed

lemma encode_loop_none:
  assumes "\<forall>k. \<not> ctx_done E k" "stream_error (tables E) r = None" "snk_room s = None"
  shows "\<exists>st. encode_loop E k r (start_lane (Some s) new_dict stats w) = (None, st)"
proof -
  have "out_open (Enc (start_lane (Some s) new_dict stats w))"
    using assms(3) by (simp add: start_lane_def out_open_def)
  from encode_loop_error [OF assms(1) this, of k r] assms(2)
  have "fst (encode_loop E k r (start_lane (Some s) new_dict stats w)) = None" by simp
  then show ?thesis by (metis prod.collapse)
qed

text \<open>One direction alone: what the encoder sends, and that the other end can decode it.\<close>

lemma session_sent:
  assumes "\<forall>k. \<not> ctx_done E k" "stream_error (tables E) r = None" "snk_room s = None"
    and "unambiguous P" "session_patterns (requests (tables E) r) \<subseteq> P"
    and "list_all (\<lambda>(hdr, body). plain_request_line (tables E) hdr) (requests (tables E) r)"
  obtains st y where
    "encode_loop E 0 r (start_lane (Some s) new_dict new_conn_stats w) = (None, st)"
    "sent (Enc st) = snk_bytes s @ y"
    "\<And>t v. snk_room t = None \<Longrightarrow> dec_track P (tables E) (snk_bytes t @ truth_stream (requests (tables E) r))
       \<lparr>rd_bytes = y, rd_end = ErrEOF\<rparr> (new_dec (Some new_dict) 0 t v) Map.empty"
proof -
  obtain st where "encode_loop E 0 r (start_lane (Some s) new_dict new_conn_stats w) = (None, st)"
    using encode_loop_none [OF assms(1-3)] by blast
  with session_track [OF this assms(4-6)] show thesis using that by blast
qed

lemma sent_forget: "forget_lane st = forget_lane st' \<Longrightarrow> sent (Enc st) = sent (Enc st')"
  by (auto simp: sent_def dest!: forget_lane_eqD(1) elim!: forget_eqE)

text \<open>The decoding machine, once its reverse lane has ended without an error.\<close>

lemma decoding_machine_end:
  assumes "duplex_decode P E out after s1 w1 (None, st) n" "FwdEnd n = Some e" "RevPhase n = RevEnded None"
  shows "e = None" "snk_bytes (DDest (DecLane n)) = out" "sent (Enc (EncLane n)) = sent (Enc st)"
  using assms sent_forget [of st "EncLane n"] by (auto simp: duplex_decode_def)

section \<open>Both directions at once\<close>

text \<open>
  C2: Full duplex, end to end. A client's requests enter the encoding connection, the frames it
  sends enter the decoding one, and the backend's answers come back: first the \<open>copied\<close> bytes,
  at least 256, that the far end's fast path takes verbatim, then a stream that reads as
  messages. Assume that (1) the 16-bit ids tell the patterns of both directions apart, (2) both
  streams are clean (they end after a whole message) and every request or status line is
  plain, (3) the near end's fast path stops at the same byte as the far end's, (4) both reverse
  lanes ended by themselves (\<open>RevEnded None\<close>: not cut off by the end of the forward lane), and
  (5) the sinks take every byte and no context is cancelled. Then, however the four lanes are
  interleaved on the two shared dictionaries, the backend has received exactly the normalised
  requests, the client the copied beginning of the answers followed by exactly the normalised
  messages of the rest, and no lane has failed. Without (1) and (3) the statement is false: see
  \<open>template_collision_corrupts\<close> and \<open>misaligned_prefix_breaks_the_reverse_lane\<close>.
\<close>

theorem full_duplex_end_to_end:
  assumes never: "\<forall>k. \<not> ctx_done E k"
    and clean: "stream_error (tables E) r = None" "stream_error (tables E) (reader_of rest) = None"
    and far: "fast_path 0 answers fresh_sink new_observer = (None, rest, link_end, w)"
    and near: "fast_path 0 incoming client new_observer = (None, rest', client', w')"
      "snk_bytes client' = snk_bytes client @ snk_bytes link_end"
    and P: "unambiguous (session_patterns (requests (tables E) r) \<union>
      session_patterns (requests (tables E) (reader_of rest)))"
    and plain: "list_all (\<lambda>(hdr, body). plain_request_line (tables E) hdr)
      (requests (tables E) r @ requests (tables E) (reader_of rest))"
    and enc: "(mstep E)\<^sup>*\<^sup>* (start_machine ModeEncode r fresh_sink incoming client) m"
      "FwdEnd m = Some e" "RevPhase m = RevEnded None"
    and dec: "(mstep E)\<^sup>*\<^sup>* (start_machine ModeDecode
        \<lparr>rd_bytes = sent (Enc (EncLane m)), rd_end = ErrEOF\<rparr> backend answers fresh_sink) n"
      "FwdEnd n = Some e'" "RevPhase n = RevEnded None"
    and link: "seg_bytes incoming = sent (Enc (EncLane n))" "seg_end incoming = ErrEOF"
    and room: "snk_room client = None" "snk_room backend = None"
  shows "e = None \<and> e' = None \<and>
    snk_bytes (DDest (DecLane n)) = snk_bytes backend @ truth_stream (requests (tables E) r) \<and>
    (\<exists>copied. seg_bytes answers = copied @ seg_bytes rest \<and> 256 \<le> length copied \<and>
      snk_bytes (DDest (DecLane m)) = snk_bytes client @ copied @
        truth_stream (requests (tables E) (reader_of rest)))"
proof -
  let ?U = "tables E" and ?Q = "session_patterns (requests (tables E) (reader_of rest))"
  let ?P = "session_patterns (requests ?U r) \<union> ?Q"
  have plain: "list_all (\<lambda>(hdr, body). plain_request_line ?U hdr) (requests ?U r)"
    "list_all (\<lambda>(hdr, body). plain_request_line ?U hdr) (requests ?U (reader_of rest))"
    using plain by simp_all
  have pats: "session_patterns (requests ?U r) \<subseteq> ?P" "?Q \<subseteq> ?P" and open_link: "snk_room fresh_sink = None"
    by simp_all
  from fast_path_leaves [OF far open_link] have far_open: "snk_room link_end = None"
    and copied: "seg_bytes answers = snk_bytes link_end @ seg_bytes rest"
      "256 \<le> length (snk_bytes link_end)" by auto
  obtain st x where fwd: "encode_loop E 0 r (start_lane (Some fresh_sink) new_dict new_conn_stats new_observer) = (None, st)"
    "sent (Enc st) = snk_bytes fresh_sink @ x" "dec_track ?P ?U (snk_bytes backend @ truth_stream (requests ?U r))
      \<lparr>rd_bytes = x, rd_end = ErrEOF\<rparr> (new_dec (Some new_dict) 0 backend new_observer) Map.empty"
    using session_sent [OF never clean(1) open_link P pats(1) plain(1)] room(2) by metis
  obtain st' y where rev: "encode_loop E 0 (reader_of rest) (start_lane (Some link_end) new_dict new_conn_stats w) = (None, st')"
    "sent (Enc st') = snk_bytes link_end @ y"
    "\<And>t v. snk_room t = None \<Longrightarrow> dec_track ?P ?U (snk_bytes t @ truth_stream (requests ?U (reader_of rest)))
      \<lparr>rd_bytes = y, rd_end = ErrEOF\<rparr> (new_dec (Some new_dict) 0 t v) Map.empty"
    using session_sent [OF never clean(2) far_open P pats(2) plain(2)] by metis
  from encoder_as_alone [OF never enc(1,2)] fwd(1,2) have e: "e = None" "sent (Enc (EncLane m)) = x"
    by (auto simp: run_encode_template_v1_def start_lane_def)
  have "duplex_decode ?P E (snk_bytes backend @ truth_stream (requests ?U r)) rest link_end w (None, st') n"
    by (rule duplex_decode_reach [OF dec(1) [unfolded e(2)] never P fwd(3) far far_open rev(1) [symmetric] _ pats(2)])
      simp
  note n = decoding_machine_end [OF this dec(2,3)]
  have "seg_bytes incoming = snk_bytes link_end @ y" using n(3) rev(2) link(1) by simp
  with fast_path_leaves [OF near(1) room(1)] near(2) link(2)
  have rest': "reader_of rest' = \<lparr>rd_bytes = y, rd_end = ErrEOF\<rparr>" "snk_room client' = None"
    by (auto simp: reader_of_def)
  have "duplex_encode ?P E (snk_bytes client' @ truth_stream (requests ?U (reader_of rest)))
      rest' client' w' m"
    by (rule duplex_encode_reach [OF enc(1) P pats(1) open_link near(1)])
      (use rev(3) [OF rest'(2)] rest'(1) in simp)
  with enc(3) near(2) have "snk_bytes (DDest (DecLane m)) = snk_bytes client @ snk_bytes link_end @
      truth_stream (requests ?U (reader_of rest))"
    by (simp add: duplex_encode_def)
  with e n(1,2) copied show ?thesis by (auto intro!: exI [of _ "snk_bytes link_end"])
qed

section \<open>Such runs exist\<close>

text \<open>
  For every session of the property there are answers on the link and complete runs of both
  machines that satisfy its hypotheses: let each reverse lane finish first.
\<close>

lemma full_duplex_runs_exist:
  assumes never: "\<forall>k. \<not> ctx_done E k"
    and clean: "stream_error (tables E) r = None" "stream_error (tables E) (reader_of rest) = None"
    and far: "fast_path 0 answers fresh_sink new_observer = (None, rest, link_end, w)"
    and P: "unambiguous (session_patterns (requests (tables E) r) \<union>
      session_patterns (requests (tables E) (reader_of rest)))"
    and plain: "list_all (\<lambda>(hdr, body). plain_request_line (tables E) hdr)
      (requests (tables E) r @ requests (tables E) (reader_of rest))"
    and small: "length (snk_bytes link_end) \<le> 32768"
    and room: "snk_room client = None" "snk_room backend = None"
  shows "\<exists>incoming rest' client' w' m n e e'.
    fast_path 0 incoming client new_observer = (None, rest', client', w') \<and>
    snk_bytes client' = snk_bytes client @ snk_bytes link_end \<and>
    (mstep E)\<^sup>*\<^sup>* (start_machine ModeEncode r fresh_sink incoming client) m \<and>
    FwdEnd m = Some e \<and> RevPhase m = RevEnded None \<and>
    (mstep E)\<^sup>*\<^sup>* (start_machine ModeDecode
      \<lparr>rd_bytes = sent (Enc (EncLane m)), rd_end = ErrEOF\<rparr> backend answers fresh_sink) n \<and>
    FwdEnd n = Some e' \<and> RevPhase n = RevEnded None \<and>
    seg_bytes incoming = sent (Enc (EncLane n)) \<and> seg_end incoming = ErrEOF"
proof -
  let ?U = "tables E" and ?Q = "session_patterns (requests (tables E) (reader_of rest))"
  let ?P = "session_patterns (requests ?U r) \<union> ?Q"
  have plain: "list_all (\<lambda>(hdr, body). plain_request_line ?U hdr) (requests ?U r)"
    "list_all (\<lambda>(hdr, body). plain_request_line ?U hdr) (requests ?U (reader_of rest))"
    using plain by simp_all
  have pats: "session_patterns (requests ?U r) \<subseteq> ?P" "?Q \<subseteq> ?P" and open_link: "snk_room fresh_sink = None"
    by simp_all
  from fast_path_leaves [OF far open_link]
  have far_open: "snk_room link_end = None" "256 \<le> length (snk_bytes link_end)" by auto
  obtain st x where fwd: "encode_loop E 0 r (start_lane (Some fresh_sink) new_dict new_conn_stats new_observer) = (None, st)"
    "sent (Enc st) = snk_bytes fresh_sink @ x" "dec_track ?P ?U (snk_bytes backend @ truth_stream (requests ?U r))
      \<lparr>rd_bytes = x, rd_end = ErrEOF\<rparr> (new_dec (Some new_dict) 0 backend new_observer) Map.empty"
    using session_sent [OF never clean(1) open_link P pats(1) plain(1)] room(2) by metis
  obtain st' y where rev: "encode_loop E 0 (reader_of rest) (start_lane (Some link_end) new_dict new_conn_stats w) = (None, st')"
    "sent (Enc st') = snk_bytes link_end @ y"
    "\<And>t v. snk_room t = None \<Longrightarrow> dec_track ?P ?U (snk_bytes t @ truth_stream (requests ?U (reader_of rest)))
      \<lparr>rd_bytes = y, rd_end = ErrEOF\<rparr> (new_dec (Some new_dict) 0 t v) Map.empty"
    using session_sent [OF never clean(2) far_open(1) P pats(2) plain(2)] by metis
  let ?incoming = "\<lparr>segs = [snk_bytes link_end, y], seg_end = ErrEOF\<rparr>"
  let ?client = "client\<lparr>snk_bytes := snk_bytes client @ snk_bytes link_end\<rparr>"
  let ?w = "note_window (snk_bytes link_end) new_observer"
  let ?rest = "\<lparr>segs = [y], seg_end = ErrEOF\<rparr>"
  let ?enc = "start_machine ModeEncode r fresh_sink ?incoming client"
  let ?dec = "start_machine ModeDecode \<lparr>rd_bytes = x, rd_end = ErrEOF\<rparr> backend answers fresh_sink"
  have near: "fast_path 0 ?incoming client new_observer = (None, ?rest, ?client, ?w)"
    by (rule fast_path_one_read [OF far_open(2) small room(1)])
  obtain m0 m b e where m: "(mstep E)\<^sup>*\<^sup>* ?enc m0" "FwdEnd m0 = FwdEnd ?enc" "RevPhase m0 = RevEnded b"
      "(mstep E)\<^sup>*\<^sup>* m0 m" "FwdEnd m = Some e" "RevPhase m = RevEnded b"
    using reverse_then_forward [of E ?enc] by blast
  have "duplex_encode ?P E (snk_bytes ?client @ truth_stream (requests ?U (reader_of rest))) ?rest ?client ?w m0"
    by (rule duplex_encode_reach [OF m(1) P pats(1) open_link near])
      (use rev(3) [of ?client ?w] room(1) in \<open>simp add: reader_of_def seg_bytes_def\<close>)
  with m(2,3) have b: "b = None" by (simp add: duplex_encode_def start_machine_def)
  have run_m: "(mstep E)\<^sup>*\<^sup>* ?enc m" using m(1,4) by simp
  from encoder_as_alone [OF never run_m m(5)] fwd(1,2) have sent_m: "sent (Enc (EncLane m)) = x"
    by (auto simp: run_encode_template_v1_def start_lane_def)
  obtain n0 n c e' where n: "(mstep E)\<^sup>*\<^sup>* ?dec n0" "FwdEnd n0 = FwdEnd ?dec" "RevPhase n0 = RevEnded c"
      "(mstep E)\<^sup>*\<^sup>* n0 n" "FwdEnd n = Some e'" "RevPhase n = RevEnded c"
    using reverse_then_forward [of E ?dec] by blast
  have run_n: "(mstep E)\<^sup>*\<^sup>* ?dec n" using n(1,4) by simp
  have inv: "duplex_decode ?P E (snk_bytes backend @ truth_stream (requests ?U r)) rest link_end w (None, st') k"
    if "(mstep E)\<^sup>*\<^sup>* ?dec k" for k
    by (rule duplex_decode_reach [OF that never P fwd(3) far far_open(1) rev(1) [symmetric] _ pats(2)]) simp
  from inv [OF n(1)] n(2,3) have c: "c = None" by (simp add: duplex_decode_def start_machine_def)
  from decoding_machine_end(3) [OF inv [OF run_n] n(5)] n(6) c rev(2)
  have link: "seg_bytes ?incoming = sent (Enc (EncLane n))" by (simp add: seg_bytes_def)
  have "snk_bytes ?client = snk_bytes client @ snk_bytes link_end" "seg_end ?incoming = ErrEOF" by simp_all
  with near run_m m(5,6) run_n n(5,6) link b c sent_m show ?thesis by blast
qed

section \<open>At a concrete input\<close>

definition banner :: bytes where "banner = replicate 256 65"

definition sample_answers :: seg_reader where
  "sample_answers = \<lparr>segs = [banner,
     header_block [str ''HTTP/1.1 200 OK'', str ''Content-Length: 2''] @ str ''ok''], seg_end = ErrEOF\<rparr>"

definition answer_reader :: reader where
  "answer_reader = \<lparr>rd_bytes =
     header_block [str ''HTTP/1.1 200 OK'', str ''Content-Length: 2''] @ str ''ok'', rd_end = ErrEOF\<rparr>"

lemma answer_read:
  "read_http_request_body (tables sample_env) answer_reader maxHeaderBytes maxBodyBytes =
     Inr (\<lparr>Method = str ''HTTP/1.1'', Path = str ''200'', Proto = str ''OK'', TransferChunked = False,
       ContentLength = 2, HeaderBytes = header_block [str ''HTTP/1.1 200 OK'', str ''Content-Length: 2'']\<rparr>,
       str ''ok'', \<lparr>rd_bytes = [], rd_end = ErrEOF\<rparr>)"
  by (simp add: sample_env_def answer_reader_def maxHeaderBytes_def maxBodyBytes_def http_eval
      header_block_def)

lemma answer_normalized:
  "normalize_http_headers (tables sample_env)
     (header_block [str ''HTTP/1.1 200 OK'', str ''Content-Length: 2'']) 2 =
   header_block [str ''HTTP/1.1 200 OK'', str ''Content-Length: 2'']"
proof -
  have "header_lines_ok [str ''HTTP/1.1 200 OK'', str ''Content-Length: 2'']"
    by (simp add: header_lines_ok_def str_def)
  from normalize_block [OF this, of "tables sample_env" 2] show ?thesis
    by (simp add: keeps_line_def sample_env_def to_lower_def has_prefix_def str_def ascii_def
        lower_byte_def length_line_def format_uint.simps digit_char_def)
qed

lemma answer_session:
  "requests (tables sample_env) answer_reader =
     [(header_block [str ''HTTP/1.1 200 OK'', str ''Content-Length: 2''], str ''ok'')]"
  "stream_error (tables sample_env) answer_reader = None"
proof -
  have "requests (tables sample_env) \<lparr>rd_bytes = [], rd_end = ErrEOF\<rparr> = []"
    by (subst requests.simps) (simp add: sample_read_end)
  moreover have "int (length (str ''ok'')) = 2" by (simp add: str_def)
  ultimately show "requests (tables sample_env) answer_reader =
     [(header_block [str ''HTTP/1.1 200 OK'', str ''Content-Length: 2''], str ''ok'')]"
    by (subst requests.simps) (simp add: answer_read answer_normalized)
  have "stream_error (tables sample_env) \<lparr>rd_bytes = [], rd_end = ErrEOF\<rparr> = None"
    by (subst stream_error.simps) (simp add: sample_read_end)
  then show "stream_error (tables sample_env) answer_reader = None"
    by (subst stream_error.simps) (simp add: answer_read)
qed

lemma answer_patterns:
  "session_patterns (requests (tables sample_env) answer_reader) = {(str ''Content-Length: '', CRLF)}"
proof -
  have h: "split_on CRLF (header_block [str ''HTTP/1.1 200 OK'', str ''Content-Length: 2'']) =
      [str ''HTTP/1.1 200 OK'', str ''Content-Length: 2'', [], []]"
    by (rule split_header_block [of "[str ''HTTP/1.1 200 OK'', str ''Content-Length: 2'']", simplified])
      (simp add: str_def)
  have b: "newline_lines (str ''ok'') = [str ''ok'']" by (simp add: newline_lines.simps str_def)
  have k: "line_pieces (str ''ok'') = [Plain (str ''ok'')]"
    by (simp add: line_pieces_def kv_pieces.simps is_delim_def str_def Let_def)
  have s: "header_line_pieces (str ''HTTP/1.1 200 OK'' @ CRLF) = [Plain (str ''HTTP/1.1 200 OK'' @ CRLF)]"
      "header_line_pieces (str ''Content-Length: 2'' @ CRLF) =
        [Seg (str ''Content-Length: '') (str ''2'') CRLF]"
      "header_line_pieces ([] @ CRLF) = [Plain CRLF]"
    by (simp_all add: header_line_pieces_def try_split_header_line_def str_def CRLF_def
        has_suffix_def has_prefix_def)
  have hp: "header_pieces (header_block [str ''HTTP/1.1 200 OK'', str ''Content-Length: 2'']) =
      [Plain (str ''HTTP/1.1 200 OK'' @ CRLF), Seg (str ''Content-Length: '') (str ''2'') CRLF, Plain CRLF]"
    unfolding header_pieces_def h using s by (simp add: header_line_pieces_def [of "[]"])
  have bp: "body_pieces (str ''ok'') = [Plain (str ''ok'')]"
    unfolding body_pieces_def b by (simp add: k)
  show ?thesis by (simp add: answer_session session_patterns_def request_patterns_def hp bp)
qed

lemma sample_far:
  "fast_path 0 sample_answers fresh_sink new_observer =
     (None, \<lparr>segs = [rd_bytes answer_reader], seg_end = ErrEOF\<rparr>,
      fresh_sink\<lparr>snk_bytes := [] @ banner\<rparr>, note_window banner new_observer)"
  using fast_path_one_read [of banner fresh_sink "[rd_bytes answer_reader]" ErrEOF new_observer]
  by (simp add: sample_answers_def answer_reader_def banner_def)

theorem full_duplex_end_to_end_witness:
  "\<exists>incoming m n. (mstep sample_env)\<^sup>*\<^sup>* (start_machine ModeEncode sample_reader fresh_sink incoming fresh_sink) m \<and>
    (mstep sample_env)\<^sup>*\<^sup>* (start_machine ModeDecode
      \<lparr>rd_bytes = sent (Enc (EncLane m)), rd_end = ErrEOF\<rparr> fresh_sink sample_answers fresh_sink) n \<and>
    seg_bytes incoming = sent (Enc (EncLane n)) \<and>
    snk_bytes (DDest (DecLane n)) =
      header_block [str ''PUT /w H'', str ''Content-Length: 8''] @ str ''m a=1 2'' @ [10] \<and>
    snk_bytes (DDest (DecLane m)) = banner @
      header_block [str ''HTTP/1.1 200 OK'', str ''Content-Length: 2''] @ str ''ok''"
proof -
  let ?rest = "\<lparr>segs = [rd_bytes answer_reader], seg_end = ErrEOF\<rparr>"
  have rest: "reader_of ?rest = answer_reader"
    by (simp add: reader_of_def seg_bytes_def answer_reader_def)
  have "session_patterns (requests (tables sample_env) sample_reader) \<union>
      session_patterns (requests (tables sample_env) (reader_of ?rest)) =
      session_patterns (requests (tables sample_env) sample_reader)"
    unfolding rest answer_patterns sample_patterns by auto
  with sample_session(2) have P: "unambiguous (session_patterns (requests (tables sample_env) sample_reader) \<union>
      session_patterns (requests (tables sample_env) (reader_of ?rest)))" by simp
  have "list_all (\<lambda>(hdr, body). plain_request_line (tables sample_env) hdr)
      (requests (tables sample_env) answer_reader)"
    by (simp add: answer_session plain_request_line_def split_header_block str_def has_prefix_def
        to_lower_def ascii_def lower_byte_def)
  with sample_session(3) have plain: "list_all (\<lambda>(hdr, body). plain_request_line (tables sample_env) hdr)
      (requests (tables sample_env) sample_reader @ requests (tables sample_env) (reader_of ?rest))"
    by (simp add: rest)
  have clean: "stream_error (tables sample_env) (reader_of ?rest) = None"
    by (simp add: rest answer_session)
  have small: "length (snk_bytes (fresh_sink\<lparr>snk_bytes := [] @ banner\<rparr>)) \<le> 32768"
    and open_sink: "snk_room fresh_sink = None" by (simp_all add: banner_def)
  from full_duplex_runs_exist [OF sample_session(1) sample_stream_error clean sample_far P plain small
      open_sink open_sink]
  obtain ret rest' client' w' m n e e' where near:
      "fast_path 0 ret fresh_sink new_observer = (None, rest', client', w')"
      "snk_bytes client' = snk_bytes fresh_sink @ snk_bytes (fresh_sink\<lparr>snk_bytes := [] @ banner\<rparr>)"
    and m: "(mstep sample_env)\<^sup>*\<^sup>* (start_machine ModeEncode sample_reader fresh_sink ret fresh_sink) m"
      "FwdEnd m = Some e" "RevPhase m = RevEnded None"
    and n: "(mstep sample_env)\<^sup>*\<^sup>* (start_machine ModeDecode
        \<lparr>rd_bytes = sent (Enc (EncLane m)), rd_end = ErrEOF\<rparr> fresh_sink sample_answers fresh_sink) n"
      "FwdEnd n = Some e'" "RevPhase n = RevEnded None"
    and link: "seg_bytes ret = sent (Enc (EncLane n))" "seg_end ret = ErrEOF"
    by blast
  have "truth_stream (requests (tables sample_env) sample_reader) =
      header_block [str ''PUT /w H'', str ''Content-Length: 8''] @ str ''m a=1 2'' @ [10]"
    "truth_stream (requests (tables sample_env) (reader_of ?rest)) =
      header_block [str ''HTTP/1.1 200 OK'', str ''Content-Length: 2''] @ str ''ok''"
    by (simp_all add: rest sample_requests answer_session truth_stream_def)
  with full_duplex_end_to_end [OF sample_session(1) sample_stream_error clean sample_far near P plain
      m n link open_sink open_sink] m(1) n(1) link(1)
  show ?thesis
    by (intro exI [of _ ret] exI [of _ m] exI [of _ n])
      (auto simp: sample_answers_def seg_bytes_def answer_reader_def)
qed

end
