(* ===== verification/Observers.thy ===== *)
theory Observers
  imports Machine_Runs
begin

text \<open>
  The raw windows and the span learner are observers: the code says that they must never
  influence the wire flow (\<^verbatim>\<open>ConnectionContext\<close> in \<^verbatim>\<open>internal/connctx/context.go\<close>, the learning
  hooks of \<^verbatim>\<open>internal/state/encode_v1.go\<close>). States that differ only in what the observers hold
  stay so, step by step.
\<close>

section \<open>Forgetting what the observers hold\<close>

definition blind_lane :: "enc_lane \<Rightarrow> enc_lane" where
  "blind_lane st = st\<lparr>Learner := new_aggregator 0, RawWindowFwd := None\<rparr>"

definition blind_dec :: "dec \<Rightarrow> dec" where
  "blind_dec dc = dc\<lparr>DWindow := None\<rparr>"

definition blind :: "machine \<Rightarrow> machine" where
  "blind m = m\<lparr>EncLane := blind_lane (EncLane m), DecLane := blind_dec (DecLane m)\<rparr>"

text \<open>Two environments that may treat the learner differently.\<close>

definition same_run :: "go_env \<Rightarrow> go_env \<Rightarrow> bool" where
  "same_run E E' \<longleftrightarrow> ctx_done E = ctx_done E' \<and> tables E = tables E'"

lemma blind_lane_iff:
  "blind_lane st = blind_lane st' \<longleftrightarrow>
     Enc st = Enc st' \<and> PacketID st = PacketID st' \<and> TruthOffset st = TruthOffset st'"
  by (cases st; cases st') (simp add: blind_lane_def)

lemma blind_dec_eqE:
  assumes "blind_dec dc = blind_dec dc'"
  obtains w where "dc = dc'\<lparr>DWindow := w\<rparr>"
  using assms by (cases dc; cases dc') (auto simp: blind_dec_def)

lemma blind_iff:
  "blind m = blind m' \<longleftrightarrow>
     blind_lane (EncLane m) = blind_lane (EncLane m') \<and> blind_dec (DecLane m) = blind_dec (DecLane m') \<and>
     MMode m = MMode m' \<and> Canceled m = Canceled m' \<and> Shared m = Shared m' \<and> EncIn m = EncIn m' \<and>
     DecIn m = DecIn m' \<and> FwdEnd m = FwdEnd m' \<and> RevPhase m = RevPhase m' \<and> RevIn m = RevIn m'"
  by (cases m; cases m') (auto simp: blind_def)

section \<open>The encoder\<close>

lemma encode_request_blind:
  assumes "same_run E E'" "blind_lane st = blind_lane st'"
  shows "fst (encode_request E meta body st) = fst (encode_request E' meta body st') \<and>
    blind_lane (snd (encode_request E meta body st)) = blind_lane (snd (encode_request E' meta body st'))"
  using assms unfolding blind_lane_iff same_run_def
  by (auto simp: encode_request_def Let_def split: option.split prod.split)

lemma encode_iter_blind:
  assumes "same_run E E'" "blind_lane st = blind_lane st'"
    and "encode_iter E c r st = (res, r1, st1)" "encode_iter E' c r st' = (res', r1', st1')"
  shows "res = res' \<and> r1 = r1' \<and> blind_lane st1 = blind_lane st1'"
proof -
  have "tables E = tables E'" using assms(1) by (simp add: same_run_def)
  with assms(3,4) encode_request_blind [OF assms(1,2)] assms(2) show ?thesis
    by (auto simp: encode_iter_def split: if_splits sum.splits prod.splits option.splits)
      (metis fst_conv snd_conv option.distinct(1) option.inject)+
qed

section \<open>The decoder\<close>

definition ignores_window :: "dec act \<Rightarrow> bool" where
  "ignores_window f \<longleftrightarrow>
     (\<forall>dc w. fst (f (dc\<lparr>DWindow := w\<rparr>)) = fst (f dc) \<and>
        blind_dec (snd (f (dc\<lparr>DWindow := w\<rparr>))) = blind_dec (snd (f dc)))"

lemma ignores_windowD:
  "ignores_window f \<Longrightarrow> blind_dec d = blind_dec dc \<Longrightarrow>
     fst (f d) = fst (f dc) \<and> blind_dec (snd (f d)) = blind_dec (snd (f dc))"
  by (auto simp: ignores_window_def elim!: blind_dec_eqE)

lemma blind_dec_window [simp]: "blind_dec (dc\<lparr>DWindow := w\<rparr>) = blind_dec dc"
  by (simp add: blind_dec_def)

lemma ignores_window_then:
  assumes "ignores_window f" "ignores_window g"
  shows "ignores_window (and_then f g)"
  unfolding ignores_window_def
proof (intro allI)
  fix dc w
  have same: "blind_dec (dc\<lparr>DWindow := w\<rparr>) = blind_dec dc" by simp
  note f = ignores_windowD [OF assms(1) same]
  with ignores_windowD [OF assms(2) conjunct2 [OF f]]
  show "fst (and_then f g (dc\<lparr>DWindow := w\<rparr>)) = fst (and_then f g dc) \<and>
      blind_dec (snd (and_then f g (dc\<lparr>DWindow := w\<rparr>))) = blind_dec (snd (and_then f g dc))"
    by (cases "f dc"; cases "f (dc\<lparr>DWindow := w\<rparr>)"; cases "fst (f dc)") (auto simp: and_then_def)
qed

lemma write_out_cong:
  "blind_dec dc = blind_dec dc' \<Longrightarrow>
     fst (write_out out dc) = fst (write_out out dc') \<and>
     blind_dec (snd (write_out out dc)) = blind_dec (snd (write_out out dc'))"
proof (induction out dc arbitrary: dc' rule: write_out.induct)
  case (1 out dc)
  show ?case
  proof (cases "out = []")
    case True
    with "1.prems" show ?thesis by (simp add: write_out.simps)
  next
    case False
    obtain n e s where c: "conn_write out (DDest dc) = (n, e, s)" by (metis prod_cases3)
    from "1.prems" obtain v where v: "dc = dc'\<lparr>DWindow := v\<rparr>" by (rule blind_dec_eqE)
    then have c': "conn_write out (DDest dc') = (n, e, s)" using c by simp
    let ?next = "\<lambda>d. d\<lparr>DDest := s, DWindow := (if n > 0 then map_option (rw_append (take n out)) (DWindow d)
      else DWindow d)\<rparr>"
    have run: "write_out out d = (case e of Some x \<Rightarrow> (Some x, d\<lparr>DDest := s\<rparr>)
        | None \<Rightarrow> write_out (drop n out) (?next d))" if "conn_write out (DDest d) = (n, e, s)" for d
      using False that by (subst write_out.simps) (simp split: option.split)
    have same: "blind_dec (?next dc) = blind_dec (?next dc')" "blind_dec (dc\<lparr>DDest := s\<rparr>) = blind_dec (dc'\<lparr>DDest := s\<rparr>)"
      by (simp_all add: v blind_dec_def)
    show ?thesis
    proof (cases e)
      case None
      have "fst (write_out (drop n out) (?next dc)) = fst (write_out (drop n out) (?next dc')) \<and>
          blind_dec (snd (write_out (drop n out) (?next dc))) = blind_dec (snd (write_out (drop n out) (?next dc')))"
        using "1.IH" [where dc' = "?next dc'"] False c None same(1) by simp
      then show ?thesis unfolding run [OF c] run [OF c'] None option.case .
    next
      case (Some x)
      show ?thesis unfolding run [OF c] run [OF c'] Some option.case using same(2) by simp
    qed
  qed
qed

lemma write_out_blind: "ignores_window (write_out out)"
  unfolding ignores_window_def by (intro allI) (rule write_out_cong, rule blind_dec_window)

lemma reset_req_window: "blind_dec c = blind_dec d \<Longrightarrow> blind_dec (reset_req c) = blind_dec (reset_req d)"
  by (cases c; cases d) (simp add: reset_req_def blind_dec_def)

lemma flush_blind: "ignores_window flush_req_if_complete"
  unfolding ignores_window_def
proof (intro allI)
  fix dc w
  obtain e d where d: "write_out (Req dc) dc = (e, d)" by fastforce
  obtain e' d' where d': "write_out (Req dc) (dc\<lparr>DWindow := w\<rparr>) = (e', d')" by fastforce
  have "e' = e" "blind_dec d' = blind_dec d"
    using ignores_windowD [OF write_out_blind, of "dc\<lparr>DWindow := w\<rparr>" dc "Req dc"] d d' by simp_all
  then show "fst (flush_req_if_complete (dc\<lparr>DWindow := w\<rparr>)) = fst (flush_req_if_complete dc) \<and>
      blind_dec (snd (flush_req_if_complete (dc\<lparr>DWindow := w\<rparr>))) = blind_dec (snd (flush_req_if_complete dc))"
    using reset_req_window [of d' d] d d'
    by (cases e) (simp_all add: flush_req_if_complete_def)
qed

lemma feed_blind: "ignores_window (feed U b)"
  unfolding ignores_window_def
  by (simp add: feed_def Let_def blind_dec_def split: option.split sum.split)

lemma feed_and_flush_blind: "ignores_window (feed_and_flush U b)"
  unfolding feed_and_flush_def by (rule ignores_window_then [OF feed_blind flush_blind])

lemma handle_frame_blind: "ignores_window (handle_frame U t p)"
proof -
  note ff = ignores_windowD [OF feed_and_flush_blind]
  have add: "blind_dec (add_template i a b (dc\<lparr>DWindow := w\<rparr>)) = blind_dec (add_template i a b dc)"
    for i a b dc w by (simp add: add_template_def blind_dec_def)
  have reset: "blind_dec (reset_req (dc\<lparr>DWindow := w, DEpoch := e, DTemplates := Map.empty\<rparr>)) =
      blind_dec (reset_req (dc\<lparr>DEpoch := e, DTemplates := Map.empty\<rparr>))" for dc w e
    by (simp add: reset_req_def blind_dec_def)
  show ?thesis
    unfolding ignores_window_def handle_frame_def
    using ff [OF blind_dec_window] ff [OF add] add reset
    by (simp split: sum.split option.split prod.split)
qed

lemma decode_iter_blind:
  assumes "blind_dec dc = blind_dec dc'"
    and "decode_iter U c r dc = (res, r1, dc1)" "decode_iter U c r dc' = (res', r1', dc1')"
  shows "res = res' \<and> r1 = r1' \<and> blind_dec dc1 = blind_dec dc1'"
  using assms(2,3) ignores_windowD [OF handle_frame_blind assms(1)] assms(1)
  by (auto simp: decode_iter_def split: if_splits sum.splits prod.splits option.splits)
    (metis fst_conv snd_conv option.distinct(1) option.inject)+

section \<open>The fast path\<close>

lemma fast_write_blind:
  "fst (fast_write out s w) = fst (fast_write out s v) \<and>
   fst (snd (fast_write out s w)) = fst (snd (fast_write out s v))"
proof (induction out s w arbitrary: v rule: fast_write.induct)
  case (1 out s w)
  obtain n e t where c: "conn_write out s = (n, e, t)" by (metis prod_cases3)
  show ?case
  proof (cases "out = [] \<or> e \<noteq> None")
    case True
    with c show ?thesis by (auto simp: fast_write.simps)
  next
    case False
    then have run: "fast_write out s x =
        fast_write (drop n out) t (if n > 0 then map_option (rw_append (take n out)) x else x)" for x
      using c by (subst fast_write.simps) simp
    from False show ?thesis
      unfolding run [of w] run [of v] using c by (intro "1.IH") simp_all
  qed
qed

lemma fast_read_blind:
  assumes "fast_read seen r s w = (st, r1, s1, w1)"
  shows "\<exists>v1. fast_read seen r s v = (st, r1, s1, v1)"
proof -
  obtain chunk e r2 where c: "conn_read (32 * 1024) r = (chunk, e, r2)" by (metis prod_cases3)
  let ?f = "\<lambda>w. if length chunk > 0 then fast_write chunk s w else (None, s, w)"
  obtain x t a where fw: "?f w = (x, t, a)" by (metis prod_cases3)
  obtain x' t' b where fv: "?f v = (x', t', b)" by (metis prod_cases3)
  have "fst (?f w) = fst (?f v) \<and> fst (snd (?f w)) = fst (snd (?f v))"
    using fast_write_blind [of chunk s w v] by simp
  then have "x' = x" "t' = t" unfolding fw fv by simp_all
  with fw fv have run: "fast_read seen r s w = (case (x, t, a) of
        (Some werr, s, w) \<Rightarrow> (FastEnd (Some werr), r2, s, w)
      | (None, s, w) \<Rightarrow>
         (let seen = (if length chunk > 0 then seen + of_nat (length chunk) else seen)
          in (case e of Some err \<Rightarrow> (FastEnd (if err = ErrEOF then None else Some err), r2, s, w)
              | None \<Rightarrow> (FastMore seen, r2, s, w))))"
    and run': "fast_read seen r s v = (case (x, t, b) of
        (Some werr, s, w) \<Rightarrow> (FastEnd (Some werr), r2, s, w)
      | (None, s, w) \<Rightarrow>
         (let seen = (if length chunk > 0 then seen + of_nat (length chunk) else seen)
          in (case e of Some err \<Rightarrow> (FastEnd (if err = ErrEOF then None else Some err), r2, s, w)
              | None \<Rightarrow> (FastMore seen, r2, s, w))))"
    by (simp_all only: fast_read_def c prod.case)
  show ?thesis using assms unfolding run run' by (cases x; cases e) (simp_all add: Let_def)
qed

section \<open>The machine\<close>

lemma run_encoder_blind:
  assumes "same_run E E'" "blind m = blind m'"
    and "run_encoder E m = (res, n)" "run_encoder E' m' = (res', n')"
  shows "res = res' \<and> blind n = blind n'"
proof -
  let ?st = "\<lambda>m. (EncLane m)\<lparr>Enc := (Enc (EncLane m))\<lparr>Templates := Shared m\<rparr>\<rparr>"
  note eq = assms(2) [unfolded blind_iff]
  have lane: "blind_lane (?st m) = blind_lane (?st m')" using eq by (simp add: blind_lane_iff)
  obtain x r st where it: "encode_iter E (Canceled m) (EncIn m) (?st m) = (x, r, st)" by (metis prod_cases3)
  obtain x' r' st' where it': "encode_iter E' (Canceled m) (EncIn m) (?st m') = (x', r', st')"
    by (metis prod_cases3)
  from encode_iter_blind [OF assms(1) lane it it'] have
    same: "x = x'" "r = r'" "blind_lane st = blind_lane st'" by auto
  have "n = m\<lparr>EncLane := st, EncIn := r, Shared := Templates (Enc st)\<rparr>" "res = x"
    using assms(3) it by (auto simp: run_encoder_def)
  moreover have "n' = m'\<lparr>EncLane := st', EncIn := r', Shared := Templates (Enc st')\<rparr>" "res' = x'"
    using assms(4) it' eq by (auto simp: run_encoder_def)
  ultimately show ?thesis using same eq by (simp add: blind_iff) (simp add: blind_lane_iff)
qed

lemma run_decoder_blind:
  assumes "same_run E E'" "blind m = blind m'"
    and "run_decoder E m = (res, n)" "run_decoder E' m' = (res', n')"
  shows "res = res' \<and> blind n = blind n'"
proof -
  let ?dc = "\<lambda>m. (DecLane m)\<lparr>DTemplates := Shared m\<rparr>"
  note eq = assms(2) [unfolded blind_iff]
  have tab: "tables E' = tables E" using assms(1) by (simp add: same_run_def)
  from eq obtain w where "DecLane m = (DecLane m')\<lparr>DWindow := w\<rparr>" by (auto elim: blind_dec_eqE)
  with eq have lane: "blind_dec (?dc m) = blind_dec (?dc m')" by (simp add: blind_dec_def)
  obtain x r dc where it: "decode_iter (tables E) (Canceled m) (DecIn m) (?dc m) = (x, r, dc)"
    by (metis prod_cases3)
  obtain x' r' dc' where it': "decode_iter (tables E) (Canceled m) (DecIn m) (?dc m') = (x', r', dc')"
    by (metis prod_cases3)
  from decode_iter_blind [OF lane it it'] have
    same: "x = x'" "r = r'" "blind_dec dc = blind_dec dc'" by auto
  then have "DTemplates dc = DTemplates dc'" by (auto elim: blind_dec_eqE)
  moreover have "n = m\<lparr>DecLane := dc, DecIn := r, Shared := DTemplates dc\<rparr>" "res = x"
    using assms(3) it by (auto simp: run_decoder_def)
  moreover have "n' = m'\<lparr>DecLane := dc', DecIn := r', Shared := DTemplates dc'\<rparr>" "res' = x'"
    using assms(4) it' eq tab by (auto simp: run_decoder_def)
  ultimately show ?thesis using same eq by (simp add: blind_iff)
qed

lemma blind_end:
  "blind n = blind n' \<Longrightarrow> blind (n\<lparr>FwdEnd := e, Canceled := c\<rparr>) = blind (n'\<lparr>FwdEnd := e, Canceled := c\<rparr>)"
  "blind n = blind n' \<Longrightarrow> blind (n\<lparr>RevPhase := p\<rparr>) = blind (n'\<lparr>RevPhase := p\<rparr>)"
  by (simp_all add: blind_iff)

lemma forward_step_blind:
  assumes "same_run E E'" "blind m = blind m'"
  shows "blind (forward_step E m) = blind (forward_step E' m')"
proof -
  let ?run = "\<lambda>E m. case MMode m of ModeEncode \<Rightarrow> run_encoder E m | ModeDecode \<Rightarrow> run_decoder E m"
  obtain res n where n: "?run E m = (res, n)" by fastforce
  obtain res' n' where n': "?run E' m' = (res', n')" by fastforce
  have md: "MMode m' = MMode m" using assms(2) by (simp add: blind_iff)
  have "res = res' \<and> blind n = blind n'"
  proof (cases "MMode m")
    case ModeEncode
    from run_encoder_blind [OF assms, of res n res' n'] n n' md ModeEncode show ?thesis by simp
  next
    case ModeDecode
    from run_decoder_blind [OF assms, of res n res' n'] n n' md ModeDecode show ?thesis by simp
  qed
  then have r: "res' = res" and b: "blind n = blind n'" by simp_all
  show ?thesis
    unfolding forward_step_def n n' r by (cases res) (simp_all add: b blind_end(1) [OF b])
qed

lemma reverse_pipe_blind:
  assumes "same_run E E'" "blind m = blind m'"
  shows "blind (reverse_pipe E m) = blind (reverse_pipe E' m')"
proof -
  let ?run = "\<lambda>E m. case MMode m of ModeEncode \<Rightarrow> run_decoder E m | ModeDecode \<Rightarrow> run_encoder E m"
  obtain res n where n: "?run E m = (res, n)" by fastforce
  obtain res' n' where n': "?run E' m' = (res', n')" by fastforce
  have md: "MMode m' = MMode m" using assms(2) by (simp add: blind_iff)
  have "res = res' \<and> blind n = blind n'"
  proof (cases "MMode m")
    case ModeEncode
    from run_decoder_blind [OF assms, of res n res' n'] n n' md ModeEncode show ?thesis by simp
  next
    case ModeDecode
    from run_encoder_blind [OF assms, of res n res' n'] n n' md ModeDecode show ?thesis by simp
  qed
  then have r: "res' = res" and b: "blind n = blind n'" by simp_all
  show ?thesis
    unfolding reverse_pipe_def n n' r by (cases res) (simp_all add: b blind_end(2) [OF b])
qed

lemma reverse_fast_blind:
  assumes "blind m = blind m'"
  shows "blind (reverse_fast seen m) = blind (reverse_fast seen m')"
proof -
  note eq = assms [unfolded blind_iff]
  show ?thesis
  proof (cases "MMode m")
    case ModeEncode
    from eq obtain w where d: "DecLane m = (DecLane m')\<lparr>DWindow := w\<rparr>" by (auto elim: blind_dec_eqE)
    obtain st r s v where rd: "fast_read seen (RevIn m) (DDest (DecLane m)) (DWindow (DecLane m)) = (st, r, s, v)"
      by (metis prod_cases4)
    then obtain v' where "fast_read seen (RevIn m) (DDest (DecLane m)) (DWindow (DecLane m')) = (st, r, s, v')"
      using fast_read_blind by blast
    with rd ModeEncode eq d show ?thesis
      by (simp add: reverse_fast_def blind_iff blind_dec_def)
  next
    case ModeDecode
    have lane: "Enc (EncLane m) = Enc (EncLane m')" using eq by (simp add: blind_lane_iff)
    show ?thesis
    proof (cases "Destination (Enc (EncLane m))")
      case None
      with ModeDecode eq lane show ?thesis by (simp add: reverse_fast_def blind_iff)
    next
      case (Some d)
      obtain st r s v where rd: "fast_read seen (RevIn m) d (RawWindowFwd (EncLane m)) = (st, r, s, v)"
        by (metis prod_cases4)
      then obtain v' where "fast_read seen (RevIn m) d (RawWindowFwd (EncLane m')) = (st, r, s, v')"
        using fast_read_blind by blast
      with rd ModeDecode eq lane Some show ?thesis
        by (simp add: reverse_fast_def blind_iff) (simp add: blind_lane_iff)
    qed
  qed
qed

lemma reverse_handover_blind:
  "blind m = blind m' \<Longrightarrow> blind (reverse_handover m) = blind (reverse_handover m')"
  by (cases "MMode m") (auto simp: reverse_handover_def blind_iff)

lemma mstep_blind:
  assumes "same_run E E'" "blind m = blind m'" "mstep E m n"
  shows "\<exists>n'. mstep E' m' n' \<and> blind n = blind n'"
proof -
  have eq: "FwdEnd m = FwdEnd m'" "RevPhase m = RevPhase m'" using assms(2) by (simp_all add: blind_iff)
  from assms(3) show ?thesis
  proof (cases rule: mstep.cases)
    case forward
    with forward_step_blind [OF assms(1,2)] eq show ?thesis
      by (intro exI [of _ "forward_step E' m'"] conjI mstep.forward) simp_all
  next
    case (fast seen)
    with reverse_fast_blind [OF assms(2)] eq show ?thesis
      by (intro exI [of _ "reverse_fast seen m'"] conjI mstep.fast) simp_all
  next
    case (handover seen)
    with reverse_handover_blind [OF assms(2)] eq show ?thesis
      by (intro exI [of _ "reverse_handover m'"] conjI mstep.handover [of m' seen]) simp_all
  next
    case pipe
    with reverse_pipe_blind [OF assms(1,2)] eq show ?thesis
      by (intro exI [of _ "reverse_pipe E' m'"] conjI mstep.pipe) simp_all
  qed
qed

lemma reach_blind:
  assumes "same_run E E'" "blind m = blind m'" "(mstep E)\<^sup>*\<^sup>* m n"
  shows "\<exists>n'. (mstep E')\<^sup>*\<^sup>* m' n' \<and> blind n = blind n'"
  using assms(3)
proof (induction rule: rtranclp_induct)
  case (step n p)
  then obtain n' where n': "(mstep E')\<^sup>*\<^sup>* m' n'" "blind n = blind n'" by blast
  from mstep_blind [OF assms(1) n'(2) step.hyps(2)] n'(1) show ?case
    by (meson rtranclp.rtrancl_into_rtrancl)
qed (use assms(2) in blast)

section \<open>Property\<close>

text \<open>
  C10: Observers never influence the wire. Take two connections that agree but for what the raw
  windows and the span learner hold, or whether there are windows at all, and let the learner
  sort and range differently. Whatever the first can do, the second can do too, with the same
  bytes sent by the encoder and the decoder, the same counters and templates, the same results
  of both lanes.
\<close>

theorem observers_never_influence_wire:
  assumes "same_run E E'" "blind m = blind m'" "(mstep E)\<^sup>*\<^sup>* m n"
  shows "\<exists>n'. (mstep E')\<^sup>*\<^sup>* m' n' \<and> sent (Enc (EncLane n')) = sent (Enc (EncLane n)) \<and>
    CStats (Enc (EncLane n')) = CStats (Enc (EncLane n)) \<and> DDest (DecLane n') = DDest (DecLane n) \<and>
    Shared n' = Shared n \<and> FwdEnd n' = FwdEnd n \<and> RevPhase n' = RevPhase n"
proof -
  from reach_blind [OF assms] obtain n' where n': "(mstep E')\<^sup>*\<^sup>* m' n'" "blind n = blind n'" by blast
  then have "Enc (EncLane n') = Enc (EncLane n)" "DDest (DecLane n') = DDest (DecLane n)"
    "Shared n' = Shared n" "FwdEnd n' = FwdEnd n" "RevPhase n' = RevPhase n"
    by (auto simp: blind_iff blind_lane_iff elim: blind_dec_eqE)
  with n'(1) show ?thesis by (intro exI [of _ n']) simp
qed

text \<open>The connection of the example without its observers.\<close>

theorem observers_never_influence_wire_witness:
  "\<exists>n. (mstep sample_env)\<^sup>*\<^sup>* (blind echo_machine) n \<and>
     snk_bytes (DDest (DecLane n)) = str ''HTTP/1.1 204 OK''"
proof -
  let ?one = "reverse_fast 0 echo_machine"
  have one: "(mstep sample_env)\<^sup>*\<^sup>* echo_machine ?one"
    by (rule r_into_rtranclp, rule mstep.fast)
      (simp_all add: echo_machine_def start_machine_def reverseFastPathBytes_def)
  have out: "snk_bytes (DDest (DecLane ?one)) = str ''HTTP/1.1 204 OK''"
    by (simp add: reverse_fast_def echo_machine_def start_machine_def fast_read_def conn_read_def
        new_dec_def fast_write_open str_def)
  have "same_run sample_env sample_env" "blind echo_machine = blind (blind echo_machine)"
    by (simp_all add: same_run_def blind_def blind_lane_def blind_dec_def)
  from observers_never_influence_wire [OF this one] out show ?thesis by auto
qed

end
