(* ===== verification/Accept.thy ===== *)
theory Accept
  imports Packet_IO Conn_State
begin

text \<open>
  Accepting connections (\<^verbatim>\<open>internal/accept/listener.go\<close>) and making their context
  (\<^verbatim>\<open>ctxFactory\<close> of \<^verbatim>\<open>cmd/enzo/main.go\<close>, \<^verbatim>\<open>ConnectionContext\<close> of
  \<^verbatim>\<open>internal/connctx/context.go\<close>). The dialled destination and the accepted connections are
  the environment's; \<^verbatim>\<open>run\<close> is a parameter, as in the code.
\<close>

section \<open>The context of a connection\<close>

record conn_context =
  CtxID :: u64
  CtxMode :: mode
  Source :: payload_conn
  CtxDestination :: payload_conn
  CtxEpoch :: u32
  CtxDictionary :: "dict option"
  CtxWindowFwd :: "raw_window option"
  CtxWindowRev :: "raw_window option"
  CtxCanceled :: bool

text \<open>
  \<^verbatim>\<open>ctxFactory\<close>: \<open>dialled\<close> is the outcome of \<^verbatim>\<open>net.Dial\<close>, \<open>counter\<close> the global \<^verbatim>\<open>nextConnID\<close>,
  which only moves when the dial succeeded.
\<close>

definition ctx_factory ::
    "go_error + (reader \<times> sink) \<Rightarrow> payload_conn \<Rightarrow> mode \<Rightarrow> u64 \<Rightarrow> conn_context option \<times> u64" where
  "ctx_factory dialled src m counter =
     (case dialled of
        Inl err \<Rightarrow> (None, counter)
      | Inr (r, w) \<Rightarrow>
         (let dst = new_payload_conn r w;
              counter = counter + 1
          in (Some \<lparr>CtxID = counter, CtxMode = m, Source = src, CtxDestination = dst, CtxEpoch = 0,
                CtxDictionary = None, CtxWindowFwd = None, CtxWindowRev = None,
                CtxCanceled = False\<rparr>, counter)))"

section \<open>Handling one connection\<close>

text \<open>How \<^verbatim>\<open>handleConn\<close> ends; only \<open>Served\<close> calls \<^verbatim>\<open>run\<close>.\<close>

datatype 'a handled =
    ClosedQuietly
  | ClassifyFailed go_error
  | NoContext
  | Served 'a

definition handle_conn ::
    "(payload_conn \<Rightarrow> mode \<Rightarrow> 'cc option) \<Rightarrow> ('cc \<Rightarrow> 'a) \<Rightarrow> reader \<Rightarrow> sink \<Rightarrow> 'a handled" where
  "handle_conn factory run r w =
     (let pc = new_payload_conn r w
      in (case peek_byte pc of
            Inl err \<Rightarrow> if err = ErrEOF \<or> err = ErrClosed then ClosedQuietly else ClassifyFailed err
          | Inr b \<Rightarrow>
             (let m = classify_first_byte b
              in (case factory pc m of
                    None \<Rightarrow> NoContext
                  | Some cc \<Rightarrow> Served (run cc)))))"

text \<open>
  \<^verbatim>\<open>ListenAndServe\<close> over the outcomes of \<^verbatim>\<open>Accept\<close>: every connection gets its own goroutine,
  the first error ends the loop and is returned; \<open>None\<close> while the loop is still waiting.
\<close>

fun listen_and_serve ::
    "(payload_conn \<Rightarrow> mode \<Rightarrow> 'cc option) \<Rightarrow> ('cc \<Rightarrow> 'a) \<Rightarrow> (go_error + (reader \<times> sink)) list \<Rightarrow>
     go_error option \<times> 'a handled list" where
  "listen_and_serve factory run [] = (None, [])"
| "listen_and_serve factory run (Inl err # accepted) = (Some err, [])"
| "listen_and_serve factory run (Inr (r, w) # accepted) =
     (case listen_and_serve factory run accepted of
        (err, hs) \<Rightarrow> (err, handle_conn factory run r w # hs))"

section \<open>Properties\<close>

text \<open>
  C39: Classification is lossless. A connection whose stream starts with a frame is run exactly
  once, in decode mode, and the context holds the connection with every byte unread: the
  first frame read from it is that frame. A stream that starts with any other byte is run in
  encode mode, also unread.
\<close>

theorem connection_is_classified_unread:
  assumes "frame_ok t p" "rd_bytes r = frame_image t p @ q"
  shows "(\<exists>cc. handle_conn (\<lambda>src m. fst (ctx_factory (Inr (br, bw)) src m n)) run r w = Served (run cc) \<and>
      CtxMode cc = ModeDecode \<and> CtxID cc = n + 1 \<and>
      read_frame (pc_in (Source cc)) = Inr (frame_header t p, p, r\<lparr>rd_bytes := q\<rparr>)) \<and>
    (b \<noteq> MagicByte \<longrightarrow>
      (\<exists>cc. handle_conn (\<lambda>src m. fst (ctx_factory (Inr (br, bw)) src m n)) run (r\<lparr>rd_bytes := b # s\<rparr>) w =
          Served (run cc) \<and>
        CtxMode cc = ModeEncode \<and> CtxID cc = n + 1 \<and> rd_bytes (pc_in (Source cc)) = b # s))"
proof -
  have r: "r = \<lparr>rd_bytes = frame_image t p @ q, rd_end = rd_end r\<rparr>" using assms(2) by (cases r) simp
  have "read_frame r = Inr (frame_header t p, p, r\<lparr>rd_bytes := q\<rparr>)"
    using read_frame_image [OF assms(1), of q "rd_end r"] by (subst (1 2) r) simp
  moreover have "peek_byte (new_payload_conn r w) = Inr MagicByte"
    using assms(2) by (simp add: peek_byte_def new_payload_conn_def frame_image_def)
  moreover have "peek_byte (new_payload_conn (r\<lparr>rd_bytes := b # s\<rparr>) w) = Inr b"
    by (simp add: peek_byte_def new_payload_conn_def)
  ultimately show ?thesis
    by (auto simp: handle_conn_def ctx_factory_def classify_first_byte_def new_payload_conn_def Let_def)
qed

theorem connection_is_classified_unread_witness:
  "\<exists>cc. handle_conn (\<lambda>src m. fst (ctx_factory (Inr (\<lparr>rd_bytes = [], rd_end = ErrEOF\<rparr>,
        \<lparr>snk_bytes = [], snk_room = None\<rparr>)) src m 4)) id
      \<lparr>rd_bytes = frame_image FrameRawData [7] @ [8], rd_end = ErrEOF\<rparr>
      \<lparr>snk_bytes = [], snk_room = None\<rparr> = Served (id cc) \<and>
    CtxMode cc = ModeDecode \<and> CtxID cc = 4 + 1 \<and>
    read_frame (pc_in (Source cc)) =
      Inr (frame_header FrameRawData [7], [7], \<lparr>rd_bytes = [8], rd_end = ErrEOF\<rparr>)"
proof -
  let ?r = "\<lparr>rd_bytes = frame_image FrameRawData [7] @ [8], rd_end = ErrEOF\<rparr>"
  have ok: "frame_ok FrameRawData [7]"
    by (simp add: frame_ok_def MaxFramePayloadBytes_def validate_payload_shape_v1_def)
  have bytes: "rd_bytes ?r = frame_image FrameRawData [7] @ [8]" by (simp only: reader.simps)
  show ?thesis
    using connection_is_classified_unread [OF ok bytes, THEN conjunct1,
        of "\<lparr>rd_bytes = [], rd_end = ErrEOF\<rparr>" "\<lparr>snk_bytes = [], snk_room = None\<rparr>" 4 id
        "\<lparr>snk_bytes = [], snk_room = None\<rparr>"]
    by (simp only: reader.simps)
qed

text \<open>
  Failures stay with their connection. The accept loop serves every connection that is
  accepted before the first \<^verbatim>\<open>Accept\<close> error, in order and each on its own, and returns that
  error; a failed dial makes no context and uses up no connection id.
\<close>

lemma accept_loop_serves_each:
  "listen_and_serve factory run (map Inr cs @ Inl err # later) =
     (Some err, map (\<lambda>(r, w). handle_conn factory run r w) cs) \<and>
   handle_conn (\<lambda>src m. fst (ctx_factory (Inl e) src m n)) run (r\<lparr>rd_bytes := b # s\<rparr>) w = NoContext \<and>
   snd (ctx_factory (Inl e) src m n) = n"
proof -
  have "listen_and_serve factory run (map Inr cs @ Inl err # later) =
      (Some err, map (\<lambda>(r, w). handle_conn factory run r w) cs)"
    by (induction cs) auto
  then show ?thesis
    by (simp add: handle_conn_def peek_byte_def new_payload_conn_def ctx_factory_def)
qed

end
