(* ===== verification/Machine_Types.thy ===== *)
theory Machine_Types
  imports Machine_Runs
begin

text \<open>
  The well-formedness every state of a connection has (\<^verbatim>\<open>Run\<close> in
  \<^verbatim>\<open>internal/state/machine.go\<close>), whatever the peers send and whether or not the connections
  break: the observers are there and inside their capacity, the shared dictionary files every
  template under its own id, the count of the fast path has not wrapped, and the counters of
  the duplex extension are untouched.
\<close>

section \<open>Well-formed values\<close>

definition window_ok :: "raw_window option \<Rightarrow> bool" where
  "window_ok w \<longleftrightarrow> (\<exists>v. w = Some v \<and> rw_inv v \<and> rw_cap v = rawWindowSizeBytes)"

definition template_ok :: "u16 \<Rightarrow> template \<Rightarrow> bool" where
  "template_ok tid tm \<longleftrightarrow>
     TID tm = tid \<and> length (TConstA tm) + length (TConstB tm) \<le> MaxFramePayloadBytes"

definition dict_ok :: "dict \<Rightarrow> bool" where
  "dict_ok T \<longleftrightarrow> (\<forall>tid tm. T tid = Some tm \<longrightarrow> template_ok tid tm)"

definition duplex_unused :: "conn_stats \<Rightarrow> bool" where
  "duplex_unused s \<longleftrightarrow> fwdRawIn s = 0 \<and> fwdWireOut s = 0 \<and> revRawIn s = 0 \<and> revWireOut s = 0"

lemma window_ok_append: "window_ok w \<Longrightarrow> window_ok (map_option (rw_append p) w)"
  by (auto simp: window_ok_def rw_append_refines)

lemma window_ok_observe: "window_ok w \<Longrightarrow> window_ok (observe_window p w)"
  by (simp add: observe_window_def window_ok_append)

lemma window_ok_new: "window_ok new_observer"
proof -
  obtain w where w: "new_raw_window (int rawWindowSizeBytes) = Inr w"
    by (cases "new_raw_window (int rawWindowSizeBytes)")
      (auto simp: new_raw_window_def rawWindowSizeBytes_def split: if_splits)
  with new_raw_window_inv [OF w] show ?thesis by (simp add: new_observer_def window_ok_def)
qed

lemma dict_ok_empty [simp]: "dict_ok Map.empty"
  by (simp add: dict_ok_def)

lemma dict_ok_update:
  "dict_ok T \<Longrightarrow> length a + length b \<le> MaxFramePayloadBytes \<Longrightarrow>
     dict_ok (T(tid \<mapsto> \<lparr>TID = tid, TConstA = a, TConstB = b\<rparr>))"
  by (simp add: dict_ok_def template_ok_def)

lemma duplex_unused_counts:
  "duplex_unused (add_raw_in n s) = duplex_unused s" "duplex_unused (add_wire_out n s) = duplex_unused s"
  by (simp_all add: duplex_unused_def add_raw_in_def add_wire_out_def)

section \<open>The encoder\<close>

definition enc_ok :: "enc \<Rightarrow> bool" where
  "enc_ok cc \<longleftrightarrow> dict_ok (Templates cc) \<and> duplex_unused (CStats cc)"

definition keeps_enc_ok :: "enc act \<Rightarrow> bool" where
  "keeps_enc_ok f \<longleftrightarrow> (\<forall>cc. enc_ok cc \<longrightarrow> enc_ok (snd (f cc)))"

lemma keeps_enc_okD: "keeps_enc_ok f \<Longrightarrow> enc_ok cc \<Longrightarrow> f cc = (e, cc') \<Longrightarrow> enc_ok cc'"
  by (metis keeps_enc_ok_def snd_conv)

lemma keeps_enc_ok_then: "keeps_enc_ok f \<Longrightarrow> keeps_enc_ok g \<Longrightarrow> keeps_enc_ok (and_then f g)"
  by (auto simp: keeps_enc_ok_def and_then_def split: prod.splits option.splits)

lemma keeps_enc_ok_frame: "keeps_enc_ok (write_frame_count t p)"
  by (auto simp: keeps_enc_ok_def write_frame_count_def enc_ok_def duplex_unused_counts Let_def
      split: option.split prod.split)

lemma keeps_enc_ok_ref_or_raw: "keeps_enc_ok (emit_ref_or_raw tid lane raw)"
  using keeps_enc_ok_frame by (auto simp: emit_ref_or_raw_def split: sum.splits)

lemma define_payload_fits:
  "build_template_define_payload (tid, a, b) = Inr p \<Longrightarrow> length a + length b \<le> MaxFramePayloadBytes"
  by (auto simp: build_template_define_payload_def Let_def split: if_splits)

lemma keeps_enc_ok_promotion: "keeps_enc_ok (emit_with_delayed_promotion a l b)"
proof -
  let ?tid = "template_id_for a b"
  have go: "enc_ok c \<Longrightarrow> keeps_enc_ok f \<Longrightarrow> enc_ok (snd (f c))" for f c
    by (simp add: keeps_enc_ok_def)
  have stat: "enc_ok (cc\<lparr>SpanStats := S\<rparr>) = enc_ok cc" for cc S by (simp add: enc_ok_def)
  have dfn: "keeps_enc_ok (and_then (write_frame_count FrameTemplateDefine p)
      (\<lambda>cc. emit_ref_or_raw ?tid l (a @ l @ b)
         (cc\<lparr>Templates := (Templates cc)(?tid \<mapsto> \<lparr>TID = ?tid, TConstA = a, TConstB = b\<rparr>),
             SpanStats := (SpanStats cc)(?tid \<mapsto> st)\<rparr>)))"
    if "build_template_define_payload (?tid, a, b) = Inr p" for p st
  proof (intro keeps_enc_ok_then keeps_enc_ok_frame)
    note fits = define_payload_fits [OF that]
    show "keeps_enc_ok (\<lambda>cc. emit_ref_or_raw ?tid l (a @ l @ b)
         (cc\<lparr>Templates := (Templates cc)(?tid \<mapsto> \<lparr>TID = ?tid, TConstA = a, TConstB = b\<rparr>),
             SpanStats := (SpanStats cc)(?tid \<mapsto> st)\<rparr>))"
      unfolding keeps_enc_ok_def
      by (intro allI impI go [OF _ keeps_enc_ok_ref_or_raw]) (simp add: enc_ok_def dict_ok_update fits)
  qed
  show ?thesis
    unfolding keeps_enc_ok_def emit_with_delayed_promotion_def Let_def
    by (auto simp del: FrameRawData_def FrameTemplateDefine_def simp: stat split: sum.split
        intro!: go keeps_enc_ok_frame keeps_enc_ok_ref_or_raw dfn)
qed

interpretation typed: encoding_steps keeps_enc_ok
proof
  show "keeps_enc_ok ok" "keeps_enc_ok (observe ob)" "keeps_enc_ok (count_raw_in n)" for ob n
    by (simp_all add: keeps_enc_ok_def ok_def observe_def count_raw_in_def enc_ok_def
        duplex_unused_counts)
qed (rule keeps_enc_ok_then keeps_enc_ok_promotion keeps_enc_ok_frame; assumption?)+

definition enc_lane_ok :: "enc_lane \<Rightarrow> bool" where
  "enc_lane_ok st \<longleftrightarrow> enc_ok (Enc st) \<and> window_ok (RawWindowFwd st)"

lemma encode_request_typed:
  assumes "enc_lane_ok st"
  shows "enc_lane_ok (snd (encode_request E meta body st))"
proof -
  let ?hdr = "normalize_http_headers (tables E) (HeaderBytes meta) (int (length body))"
  let ?off = "TruthOffset st + of_nat (length ?hdr)"
  obtain e c where c: "encode_header_lines ?hdr (Enc st) = (e, c)" by fastforce
  have ok: "enc_ok c" "window_ok (observe_window body (observe_window ?hdr (RawWindowFwd st)))"
    using assms keeps_enc_okD [OF typed.header _ c] by (simp_all add: enc_lane_ok_def window_ok_observe)
  obtain e' c' where c': "and_then (count_raw_in (length body)) (encode_body_as_lines body ?off)
      (c\<lparr>Obs := Some []\<rparr>) = (e', c')" by fastforce
  have "enc_ok (c\<lparr>Obs := Some []\<rparr>)" using ok(1) by (simp add: enc_ok_def)
  from keeps_enc_okD [OF typed.body this c'] have "enc_ok c'" .
  with ok show ?thesis
    by (auto simp: encode_request_def Let_def c c' enc_lane_ok_def split: option.split)
qed

lemma encode_iter_typed:
  assumes "enc_lane_ok st" "encode_iter E c r st = (res, r', st')"
  shows "enc_lane_ok st'"
  using assms encode_request_typed [OF assms(1), of E]
  by (auto simp: encode_iter_def split: if_splits sum.splits prod.splits option.splits)
    (metis snd_conv)+

section \<open>The decoder\<close>

definition dec_ok :: "dec \<Rightarrow> bool" where
  "dec_ok dc \<longleftrightarrow> dict_ok (DTemplates dc) \<and> window_ok (DWindow dc)"

lemma write_out_typed: "dec_ok dc \<Longrightarrow> dec_ok (snd (write_out out dc))"
proof (induction out dc rule: write_out.induct)
  case (1 out dc)
  show ?case
  proof (cases "out = []")
    case True
    with "1.prems" show ?thesis by (subst write_out.simps) simp
  next
    case False
    obtain n e s where w: "conn_write out (DDest dc) = (n, e, s)" by (metis prod_cases3)
    let ?dc = "dc\<lparr>DDest := s, DWindow := (if n > 0 then map_option (rw_append (take n out)) (DWindow dc)
        else DWindow dc)\<rparr>"
    have ok: "dec_ok ?dc" using "1.prems" by (simp add: dec_ok_def window_ok_append)
    show ?thesis
    proof (cases e)
      case None
      with "1.IH" False w ok show ?thesis
        by (subst write_out.simps) simp
    next
      case (Some x)
      with "1.prems" False w show ?thesis by (subst write_out.simps) (simp add: dec_ok_def)
    qed
  qed
qed

lemma feed_and_flush_typed:
  assumes "dec_ok dc"
  shows "dec_ok (snd (feed_and_flush U b dc))"
proof -
  have feed: "dec_ok (snd (feed U b dc))"
    using assms by (auto simp: feed_def Let_def dec_ok_def split: option.split sum.split)
  have flush: "dec_ok (snd (flush_req_if_complete c))" if "dec_ok c" for c
    using write_out_typed [OF that, of "Req c"] that
    by (auto simp: flush_req_if_complete_def reset_req_def dec_ok_def split: prod.splits option.splits)
  show ?thesis
    using feed flush
    by (cases "feed U b dc"; cases "fst (feed U b dc)") (simp_all add: feed_and_flush_def and_then_def)
qed

lemma parsed_consts_fit:
  "parse_template_define_payload p = Inr (tid, a, b) \<Longrightarrow> length a + length b \<le> MaxFramePayloadBytes"
  "parse_template_inline_payload p = Inr (tid, a, b, l) \<Longrightarrow> length a + length b \<le> MaxFramePayloadBytes"
proof -
  show "length a + length b \<le> MaxFramePayloadBytes"
    if "parse_template_define_payload p = Inr (tid, a, b)"
    using parse_define_InrD [OF that] by (simp add: MaxFramePayloadBytes_def)
  have u16: "unat (x :: u16) + unat (y :: u16) \<le> 16777216" for x y
    using unat_u16_lt [of x] unat_u16_lt [of y] by linarith
  show "length a + length b \<le> MaxFramePayloadBytes"
    if "parse_template_inline_payload p = Inr (tid, a, b, l)"
    using that u16 by (auto simp: parse_template_inline_payload_def Let_def MaxFramePayloadBytes_def
        split: if_splits sum.splits)
qed

lemma handle_frame_typed:
  assumes "dec_ok dc"
  shows "dec_ok (snd (handle_frame U t p dc))"
proof -
  have add: "dec_ok (add_template tid a b dc)" if "length a + length b \<le> MaxFramePayloadBytes" for tid a b
    using assms that by (simp add: dec_ok_def add_template_def dict_ok_update)
  show ?thesis
    using assms unfolding handle_frame_def
    by (auto intro!: feed_and_flush_typed add simp: parsed_consts_fit reset_req_def
        split: sum.split option.split prod.split) (simp_all add: dec_ok_def)
qed

lemma decode_iter_typed:
  assumes "dec_ok dc" "decode_iter U c r dc = (res, r', dc')"
  shows "dec_ok dc'"
  using assms handle_frame_typed [OF assms(1), of U]
  by (auto simp: decode_iter_def split: if_splits sum.splits prod.splits option.splits)
    (metis snd_conv)+

section \<open>The machine\<close>

text \<open>
  \<^verbatim>\<open>seen\<close> is below 256 when a read starts and a read returns at most 32 KiB, so the counter of
  the fast path stays far from its last value.
\<close>

definition machine_ok :: "machine \<Rightarrow> bool" where
  "machine_ok m \<longleftrightarrow> dict_ok (Shared m) \<and>
     window_ok (RawWindowFwd (EncLane m)) \<and> window_ok (DWindow (DecLane m)) \<and>
     duplex_unused (CStats (Enc (EncLane m))) \<and>
     (\<forall>seen. RevPhase m = RevFast seen \<longrightarrow> unat seen < 256 + 32768)"

lemma machine_ok_ended:
  "machine_ok (m\<lparr>FwdEnd := x, Canceled := c\<rparr>) = machine_ok m"
  "machine_ok m \<Longrightarrow> machine_ok (m\<lparr>RevPhase := RevEnded e\<rparr>)"
  by (simp_all add: machine_ok_def)

lemma run_encoder_typed:
  assumes "machine_ok m" "run_encoder E m = (res, m')"
  shows "machine_ok m'"
proof -
  let ?st = "(EncLane m)\<lparr>Enc := (Enc (EncLane m))\<lparr>Templates := Shared m\<rparr>\<rparr>"
  obtain x r st where it: "encode_iter E (Canceled m) (EncIn m) ?st = (x, r, st)" by (metis prod_cases3)
  have "enc_lane_ok ?st" using assms(1) by (simp add: machine_ok_def enc_lane_ok_def enc_ok_def)
  from encode_iter_typed [OF this it] assms it show ?thesis
    by (auto simp: run_encoder_def machine_ok_def enc_lane_ok_def enc_ok_def)
qed

lemma run_decoder_typed:
  assumes "machine_ok m" "run_decoder E m = (res, m')"
  shows "machine_ok m'"
proof -
  let ?dc = "(DecLane m)\<lparr>DTemplates := Shared m\<rparr>"
  obtain x r dc where it: "decode_iter (tables E) (Canceled m) (DecIn m) ?dc = (x, r, dc)"
    by (metis prod_cases3)
  have "dec_ok ?dc" using assms(1) by (simp add: machine_ok_def dec_ok_def)
  from decode_iter_typed [OF this it] assms it show ?thesis
    by (auto simp: run_decoder_def machine_ok_def dec_ok_def)
qed

lemma fast_write_typed:
  "window_ok w \<Longrightarrow> fast_write out s w = (e, s', w') \<Longrightarrow> window_ok w'"
proof (induction out s w rule: fast_write.induct)
  case (1 out s w)
  show ?case
  proof (cases "out = []")
    case True
    with "1.prems" show ?thesis by (subst (asm) fast_write.simps) simp
  next
    case False
    obtain n x t where c: "conn_write out s = (n, x, t)" by (metis prod_cases3)
    show ?thesis
    proof (cases x)
      case None
      with "1.prems" False c have "fast_write (drop n out) t
          (if n > 0 then map_option (rw_append (take n out)) w else w) = (e, s', w')"
        by (subst (asm) fast_write.simps) simp
      with "1.IH" False c None "1.prems"(1) show ?thesis by (auto simp: window_ok_append)
    next
      case (Some y)
      with "1.prems" False c show ?thesis by (subst (asm) fast_write.simps) simp
    qed
  qed
qed

lemma conn_read_at_most: "conn_read n r = (chunk, e, r') \<Longrightarrow> length chunk \<le> n"
  by (auto simp: conn_read_def split: list.splits if_splits prod.splits)

lemma fast_read_typed:
  assumes "window_ok w" "seen < reverseFastPathBytes" "fast_read seen r s w = (st, r', s', w')"
  shows "window_ok w' \<and> (\<forall>n. st = FastMore n \<longrightarrow> unat n < 256 + 32768)"
proof -
  obtain chunk e r1 where c: "conn_read (32 * 1024) r = (chunk, e, r1)" by (metis prod_cases3)
  obtain x t v where f: "(if length chunk > 0 then fast_write chunk s w else (None, s, w)) = (x, t, v)"
    by (metis prod_cases3)
  have v: "window_ok v" using f assms(1) fast_write_typed by (auto split: if_splits)
  have len: "length chunk \<le> 32768" using conn_read_at_most [OF c] by simp
  have small: "unat seen < 256" using assms(2) by (simp add: reverseFastPathBytes_def word_less_nat_alt)
  with len have "unat (seen + of_nat (length chunk)) = unat seen + unat (of_nat (length chunk) :: u32)"
    by (intro unat_add_lem [THEN iffD1]) simp
  with len small have "unat (seen + of_nat (length chunk)) < 256 + 32768" by simp
  with v assms(2,3) c f show ?thesis
    by (auto simp: fast_read_def Let_def reverseFastPathBytes_def word_less_nat_alt
        split: option.splits if_splits)
qed

lemma reverse_fast_typed:
  assumes "machine_ok m" "seen < reverseFastPathBytes"
  shows "machine_ok (reverse_fast seen m)"
proof (cases "MMode m")
  case ModeEncode
  obtain st r s w where rd: "fast_read seen (RevIn m) (DDest (DecLane m)) (DWindow (DecLane m)) =
      (st, r, s, w)" by (metis prod_cases4)
  with fast_read_typed [OF _ assms(2) rd] assms(1) ModeEncode show ?thesis
    by (auto simp: reverse_fast_def machine_ok_def split: fast_step.split)
next
  case ModeDecode
  show ?thesis
  proof (cases "Destination (Enc (EncLane m))")
    case None
    with assms(1) ModeDecode show ?thesis by (simp add: reverse_fast_def machine_ok_def)
  next
    case (Some d)
    obtain st r s w where rd: "fast_read seen (RevIn m) d (RawWindowFwd (EncLane m)) = (st, r, s, w)"
      by (metis prod_cases4)
    with fast_read_typed [OF _ assms(2) rd] assms(1) ModeDecode Some show ?thesis
      by (auto simp: reverse_fast_def machine_ok_def split: fast_step.split)
  qed
qed

lemma mstep_typed:
  assumes "mstep E m m'" "machine_ok m"
  shows "machine_ok m'"
  using assms(1)
proof (cases rule: mstep.cases)
  case forward
  obtain res n where n: "(case MMode m of ModeEncode \<Rightarrow> run_encoder E m | ModeDecode \<Rightarrow> run_decoder E m) =
      (res, n)" by fastforce
  then have "run_encoder E m = (res, n) \<or> run_decoder E m = (res, n)" by (cases "MMode m") simp_all
  then have "machine_ok n" using run_encoder_typed run_decoder_typed assms(2) by blast
  then show ?thesis
    using forward(1) n by (cases res) (simp_all add: forward_step_def machine_ok_ended)
next
  case (fast seen)
  with assms(2) reverse_fast_typed show ?thesis by simp
next
  case (handover seen)
  with assms(2) show ?thesis
    by (cases "MMode m") (simp_all add: reverse_handover_def machine_ok_def)
next
  case pipe
  obtain res n where n: "(case MMode m of ModeEncode \<Rightarrow> run_decoder E m | ModeDecode \<Rightarrow> run_encoder E m) =
      (res, n)" by fastforce
  then have "run_encoder E m = (res, n) \<or> run_decoder E m = (res, n)" by (cases "MMode m") simp_all
  then have "machine_ok n" using run_encoder_typed run_decoder_typed assms(2) by blast
  then show ?thesis
    using pipe(1) n by (cases res) (simp_all add: reverse_pipe_def machine_ok_ended)
qed

lemma machine_ok_start: "machine_ok (start_machine md fwd dst rr src)"
  by (simp add: machine_ok_def start_machine_def start_lane_def new_dec_def window_ok_new new_dict_def
      new_conn_stats_def duplex_unused_def)

lemma machine_ok_reach:
  "(mstep E)\<^sup>*\<^sup>* (start_machine md fwd dst rr src) m \<Longrightarrow> machine_ok m"
  by (induction rule: rtranclp_induct) (auto intro: machine_ok_start mstep_typed)

end
