(* ===== verification/Reports.thy ===== *)
theory Reports
  imports Complex_Main Machine_Types Reverse_Link
begin

text \<open>
  What a connection logs: \<^verbatim>\<open>printStats\<close> (\<^verbatim>\<open>internal/state/stats.go\<close>), the ticker goroutine and
  the end of \<^verbatim>\<open>Run\<close> (\<^verbatim>\<open>internal/state/machine.go\<close>). A line is the values it shows; the times
  are the environment's. Floating-point values stand for themselves as rationals: their
  rounding and the number of digits that are printed are left out.
\<close>

section \<open>Lines\<close>

datatype log_line =
    StatsLine u64 u64 u64 rat nat
  | StatsLineDuplex u64 u64 u64 rat nat u64 u64 u64 u64
  | ObserverFwd nat nat rat
  | ObserverRev nat nat rat
  | ReverseEndedLine go_error
  | ForwardEndedLine go_error

text \<open>\<^verbatim>\<open>dur.Round(time.Millisecond)\<close>, in nanoseconds: half a millisecond rounds up.\<close>

definition round_ms :: "nat \<Rightarrow> nat" where
  "round_ms d = (let r = d mod 1000000 in if r + r < 1000000 then d - r else d + (1000000 - r))"

definition savings :: "u64 \<Rightarrow> u64 \<Rightarrow> rat" where
  "savings raw wire = (if raw > 0 then 100 * (1 - of_nat (unat wire) / of_nat (unat raw)) else 0)"

definition print_stats :: "u64 \<Rightarrow> nat \<Rightarrow> conn_stats \<Rightarrow> log_line" where
  "print_stats i dur s =
     (let raw = rawIn s; wire = wireOut s;
          fRaw = fwdRawIn s; fWire = fwdWireOut s; rRaw = revRawIn s; rWire = revWireOut s
      in if or (or (or fRaw fWire) rRaw) rWire = 0
         then StatsLine i raw wire (savings raw wire) (round_ms dur)
         else StatsLineDuplex i raw wire (savings raw wire) (round_ms dur) fRaw fWire rRaw rWire)"

section \<open>The ticker goroutine\<close>

text \<open>
  In either mode one lane of the connection is the encoder and counts in its \<^verbatim>\<open>connStats\<close>,
  \<^verbatim>\<open>statsFwd\<close> or \<^verbatim>\<open>statsRev\<close>; the two observers are those of the lanes.
\<close>

definition window_fwd :: "machine \<Rightarrow> raw_window option" where
  "window_fwd m = (case MMode m of ModeEncode \<Rightarrow> RawWindowFwd (EncLane m) | ModeDecode \<Rightarrow> DWindow (DecLane m))"

definition window_rev :: "machine \<Rightarrow> raw_window option" where
  "window_rev m = (case MMode m of ModeEncode \<Rightarrow> DWindow (DecLane m) | ModeDecode \<Rightarrow> RawWindowFwd (EncLane m))"

definition observer_line :: "(nat \<Rightarrow> nat \<Rightarrow> rat \<Rightarrow> log_line) \<Rightarrow> raw_window option \<Rightarrow> log_line list" where
  "observer_line mk w =
     (case w of
        None \<Rightarrow> []
      | Some v \<Rightarrow> [mk (rw_len v) (rw_cap v) (100 * of_nat (rw_len v) / of_nat (rw_cap v))])"

text \<open>The channel that \<^verbatim>\<open>select\<close> receives from; \<open>None\<close> when the goroutine returns.\<close>

datatype tick = CtxDone | StatsTick | TelemetryTick

definition ticker_iter :: "u64 \<Rightarrow> nat \<Rightarrow> tick \<Rightarrow> machine \<Rightarrow> log_line list option" where
  "ticker_iter i dur t m =
     (case t of
        CtxDone \<Rightarrow> None
      | StatsTick \<Rightarrow>
          Some (if MMode m = ModeEncode then [print_stats i dur (CStats (Enc (EncLane m)))] else [])
      | TelemetryTick \<Rightarrow>
          Some (observer_line ObserverFwd (window_fwd m) @ observer_line ObserverRev (window_rev m)))"

section \<open>The end of \<^verbatim>\<open>Run\<close>\<close>

text \<open>
  The lines logged once the forward lane has returned \<open>res\<close>; \<^verbatim>\<open>doneBack\<close> holds a value when
  the reverse goroutine has ended by then, and is not waited for.
\<close>

definition run_end :: "u64 \<Rightarrow> nat \<Rightarrow> go_error option \<Rightarrow> machine \<Rightarrow> log_line list" where
  "run_end i dur res m =
     (let backErr = (case RevPhase m of RevEnded e \<Rightarrow> e | _ \<Rightarrow> None);
          line = (\<lambda>mk e. case e of Some err \<Rightarrow> if err = ErrEOF then [] else [mk err] | None \<Rightarrow> [])
      in line ReverseEndedLine backErr
         @ [print_stats i dur (CStats (Enc (EncLane m)))]
         @ line ForwardEndedLine res)"

section \<open>The wire counter in a running connection\<close>

text \<open>
  On open connections: the encoder's side has let out a copied beginning \<open>p\<close> of the reverse
  stream, none in encode mode, and frames, and \<^verbatim>\<open>wireOut\<close> is the length of the frames.
\<close>

definition counted :: "bytes \<Rightarrow> sink \<Rightarrow> machine \<Rightarrow> bool" where
  "counted all out m \<longleftrightarrow> out_open (Enc (EncLane m)) \<and>
     (\<exists>p q fs. all = p @ q \<and> list_all encoder_frame fs \<and>
        sent (Enc (EncLane m)) = snk_bytes out @ p @ wire_of fs \<and>
        wireOut (CStats (Enc (EncLane m))) = of_nat (length (wire_of fs)) \<and>
        (MMode m = ModeEncode \<longrightarrow> p = []) \<and>
        (MMode m = ModeDecode \<and> (\<exists>n. RevPhase m = RevFast n) \<longrightarrow> fs = [] \<and> q = seg_bytes (RevIn m)))"

lemma counted_cong:
  assumes "counted all out m" "EncLane m' = EncLane m" "MMode m' = MMode m"
    "MMode m = ModeDecode \<longrightarrow> RevPhase m' = RevPhase m \<and> RevIn m' = RevIn m \<or>
       (\<forall>n. RevPhase m' \<noteq> RevFast n)"
  shows "counted all out m'"
proof -
  obtain p q fs where *: "out_open (Enc (EncLane m))" "all = p @ q" "list_all encoder_frame fs"
      "sent (Enc (EncLane m)) = snk_bytes out @ p @ wire_of fs"
      "wireOut (CStats (Enc (EncLane m))) = of_nat (length (wire_of fs))"
      "MMode m = ModeEncode \<longrightarrow> p = []"
      "MMode m = ModeDecode \<and> (\<exists>n. RevPhase m = RevFast n) \<longrightarrow> fs = [] \<and> q = seg_bytes (RevIn m)"
    using assms(1) unfolding counted_def by blast
  show ?thesis
    unfolding counted_def assms(2,3)
    by (intro conjI exI [of _ p] exI [of _ q] exI [of _ fs]) (use * assms(4) in auto)
qed

text \<open>An iteration of the encoder, once the reverse fast path is over or in encode mode.\<close>

lemma counted_encoder:
  assumes "counted all out m" "run_encoder E m = (res, m')"
    and "MMode m = ModeEncode \<or> (\<forall>n. RevPhase m \<noteq> RevFast n)"
  shows "counted all out m'"
proof -
  let ?st = "(EncLane m)\<lparr>Enc := (Enc (EncLane m))\<lparr>Templates := Shared m\<rparr>\<rparr>"
  obtain p q fs where *: "out_open (Enc (EncLane m))" "all = p @ q" "list_all encoder_frame fs"
      "sent (Enc (EncLane m)) = snk_bytes out @ p @ wire_of fs"
      "wireOut (CStats (Enc (EncLane m))) = of_nat (length (wire_of fs))"
      "MMode m = ModeEncode \<longrightarrow> p = []"
    using assms(1) unfolding counted_def by blast
  obtain x r st where it: "encode_iter E (Canceled m) (EncIn m) ?st = (x, r, st)" by (metis prod_cases3)
  have "out_open (Enc ?st)" using *(1) by (simp add: out_open_def)
  from encode_iter_frames [OF this it] obtain gs where
    g: "out_open (Enc st)" "list_all encoder_frame gs" "sent (Enc st) = sent (Enc (EncLane m)) @ wire_of gs"
      "wireOut (CStats (Enc st)) = wireOut (CStats (Enc (EncLane m))) + of_nat (length (wire_of gs))"
    by (auto simp: sent_def)
  have m': "EncLane m' = st" using assms(2) it by (auto simp: run_encoder_def)
  show ?thesis
    unfolding counted_def m' run_encoder_facts(1,3,4) [OF assms(2)]
    by (intro conjI exI [of _ p] exI [of _ q] exI [of _ "fs @ gs"]) (use * g assms(3) in auto)
qed

lemma run_decoder_keeps_encoder: "run_decoder E m = (res, m') \<Longrightarrow> EncLane m' = EncLane m"
  by (auto simp: run_decoder_def Let_def split: prod.splits)

lemma counted_decoder:
  assumes "counted all out m" "run_decoder E m = (res, m')"
  shows "counted all out m'"
  by (rule counted_cong [OF assms(1)])
    (simp_all add: run_decoder_facts [OF assms(2)] run_decoder_keeps_encoder [OF assms(2)])

lemma counted_fast:
  assumes "counted all out m" "RevPhase m = RevFast seen" "seen < reverseFastPathBytes"
  shows "counted all out (reverse_fast seen m)"
proof (cases "MMode m")
  case ModeEncode
  show ?thesis
    by (rule counted_cong [OF assms(1)])
      (simp_all add: reverse_keeps_encoder [OF ModeEncode] ModeEncode)
next
  case ModeDecode
  with assms(1,2) obtain p where *: "out_open (Enc (EncLane m))" "all = p @ seg_bytes (RevIn m)"
      "sent (Enc (EncLane m)) = snk_bytes out @ p" "wireOut (CStats (Enc (EncLane m))) = 0"
    unfolding counted_def by auto
  then obtain s where s: "Destination (Enc (EncLane m)) = Some s" "snk_room s = None"
    unfolding out_open_def by blast
  obtain st r s' w where rd: "fast_read seen (RevIn m) s (RawWindowFwd (EncLane m)) = (st, r, s', w)"
    by (metis prod_cases4)
  from s(2) rd obtain chunk where c: "seg_bytes (RevIn m) = chunk @ seg_bytes r"
      "s' = s\<lparr>snk_bytes := snk_bytes s @ chunk\<rparr>" by (rule fast_read_open)
  have "sent (Enc (EncLane (reverse_fast seen m))) = snk_bytes out @ p @ chunk"
    "out_open (Enc (EncLane (reverse_fast seen m)))" "RevIn (reverse_fast seen m) = r"
    "wireOut (CStats (Enc (EncLane (reverse_fast seen m)))) = 0" "MMode (reverse_fast seen m) = ModeDecode"
    using *(3,4) s ModeDecode rd c(2)
    by (simp_all add: reverse_fast_def sent_def out_open_def)
  moreover have "all = (p @ chunk) @ seg_bytes r" using *(2) c(1) by simp
  ultimately show ?thesis
    unfolding counted_def
    by (intro conjI exI [of _ "p @ chunk"] exI [of _ "seg_bytes r"] exI [of _ "[]"]) auto
qed

lemma counted_step:
  assumes "mstep E m m'" "counted all out m"
  shows "counted all out m'"
  using assms(1)
proof (cases rule: mstep.cases)
  case forward
  obtain res n where n: "(case MMode m of ModeEncode \<Rightarrow> run_encoder E m | ModeDecode \<Rightarrow> run_decoder E m) =
      (res, n)" by fastforce
  have "counted all out n"
  proof (cases "MMode m")
    case ModeEncode
    with n counted_encoder [OF assms(2), of E res n] show ?thesis by simp
  next
    case ModeDecode
    with n counted_decoder [OF assms(2), of E res n] show ?thesis by simp
  qed
  then have "counted all out (n\<lparr>FwdEnd := x, Canceled := c\<rparr>)" for x c
    by (rule counted_cong) simp_all
  with \<open>counted all out n\<close> n forward(1) show ?thesis by (cases res) (simp_all add: forward_step_def)
next
  case (fast seen)
  with counted_fast [OF assms(2)] show ?thesis by simp
next
  case (handover seen)
  have "counted all out (reverse_handover m)"
    by (rule counted_cong [OF assms(2)]; cases "MMode m") (simp_all add: reverse_handover_def)
  with handover(1) show ?thesis by simp
next
  case pipe
  obtain res n where n: "(case MMode m of ModeEncode \<Rightarrow> run_decoder E m | ModeDecode \<Rightarrow> run_encoder E m) =
      (res, n)" by fastforce
  have "counted all out n"
  proof (cases "MMode m")
    case ModeEncode
    with n counted_decoder [OF assms(2), of E res n] show ?thesis by simp
  next
    case ModeDecode
    with n pipe(2) counted_encoder [OF assms(2), of E res n] show ?thesis by simp
  qed
  then have "counted all out (n\<lparr>RevPhase := RevEnded x\<rparr>)" for x
    by (rule counted_cong) simp_all
  with \<open>counted all out n\<close> n pipe(1) show ?thesis by (cases res) (simp_all add: reverse_pipe_def)
qed

lemma counted_reach:
  assumes "(mstep E)\<^sup>*\<^sup>* (start_machine md fwd dst rr src) m" "snk_room dst = None" "snk_room src = None"
  shows "counted (seg_bytes rr) (case md of ModeEncode \<Rightarrow> dst | ModeDecode \<Rightarrow> src) m"
  using assms(1)
proof (induction rule: rtranclp_induct)
  case base
  show ?case
    unfolding counted_def
    by (rule conjI, use assms(2,3) in \<open>cases md; simp add: start_machine_def start_lane_def out_open_def\<close>,
        rule exI [of _ "[]"], rule exI [of _ "seg_bytes rr"], rule exI [of _ "[]"])
      (cases md; simp add: start_machine_def start_lane_def sent_def new_conn_stats_def)
qed (rule counted_step)

lemma mode_stays:
  assumes "(mstep E)\<^sup>*\<^sup>* m m'"
  shows "MMode m' = MMode m"
  using assms
proof (induction rule: rtranclp_induct)
  case (step n n')
  then show ?case
    by (cases "MMode n"; auto elim!: mstepE simp: decode_mode_frame reverse_keeps_encoder forward_keeps_decoder)
qed simp

section \<open>Properties\<close>

lemma print_stats_unused:
  "duplex_unused s \<Longrightarrow>
     print_stats i dur s = StatsLine i (rawIn s) (wireOut s) (savings (rawIn s) (wireOut s)) (round_ms dur)"
  by (simp add: print_stats_def duplex_unused_def Let_def)

text \<open>
  C31: What the statistics of a connection report. At any moment, in either mode and however the
  lanes are interleaved, the line has the short format, because no code updates the duplex
  counters, and \<^verbatim>\<open>wire_out\<close> is the number of bytes of the frames put on the wire. Everything
  the encoder's side has let out is these frames in encode mode; in decode mode they follow a
  beginning of the reverse stream that was copied, and that part is not counted.
\<close>

theorem stats_report_frames_only:
  assumes "(mstep E)\<^sup>*\<^sup>* (start_machine md fwd dst rr src) m" "snk_room dst = None" "snk_room src = None"
  shows "\<exists>p q fs raw. seg_bytes rr = p @ q \<and> (md = ModeEncode \<longrightarrow> p = []) \<and> list_all encoder_frame fs \<and>
    sent (Enc (EncLane m)) =
      snk_bytes (case md of ModeEncode \<Rightarrow> dst | ModeDecode \<Rightarrow> src) @ p @ wire_of fs \<and>
    print_stats i dur (CStats (Enc (EncLane m))) =
      StatsLine i raw (of_nat (length (wire_of fs))) (savings raw (of_nat (length (wire_of fs)))) (round_ms dur)"
proof -
  let ?cc = "Enc (EncLane m)"
  have unused: "duplex_unused (CStats ?cc)" using machine_ok_reach [OF assms(1)] by (simp add: machine_ok_def)
  have "MMode m = md" using mode_stays [OF assms(1)] by (simp add: start_machine_def)
  with counted_reach [OF assms] obtain p q fs where
    *: "seg_bytes rr = p @ q" "md = ModeEncode \<longrightarrow> p = []" "list_all encoder_frame fs"
      "sent ?cc = snk_bytes (case md of ModeEncode \<Rightarrow> dst | ModeDecode \<Rightarrow> src) @ p @ wire_of fs"
      "wireOut (CStats ?cc) = of_nat (length (wire_of fs))"
    unfolding counted_def by blast
  then show ?thesis
    unfolding print_stats_unused [OF unused] by (intro exI [of _ p] exI [of _ q] exI [of _ fs]) auto
qed

text \<open>
  C11: Every state of a connection is well-formed, whatever the peers send and whether or not
  their connections break: both observers exist with 2 MB of capacity and never hold more,
  so that the telemetry shows at most 100 per cent; a template is filed under its own id
  and small enough for a frame; the count of the fast path has not wrapped; and an encoder
  has never updated the duplex counters.
\<close>

theorem connection_state_is_well_formed:
  assumes "(mstep E)\<^sup>*\<^sup>* (start_machine md fwd dst rr src) m"
  shows "machine_ok m \<and>
    (\<exists>a b x y. ticker_iter i dur TelemetryTick m =
       Some [ObserverFwd a 2097152 x, ObserverRev b 2097152 y] \<and>
       a \<le> 2097152 \<and> b \<le> 2097152 \<and> 0 \<le> x \<and> x \<le> 100 \<and> 0 \<le> y \<and> y \<le> 100)"
proof -
  have ok: "machine_ok m" using machine_ok_reach [OF assms] .
  have line: "\<exists>n x. observer_line mk w = [mk n 2097152 x] \<and> n \<le> 2097152 \<and> 0 \<le> x \<and> x \<le> 100"
    if w: "window_ok w" for w and mk :: "nat \<Rightarrow> nat \<Rightarrow> rat \<Rightarrow> log_line"
  proof -
    obtain v where v: "w = Some v" "rw_cap v = 2097152" "rw_len v \<le> 2097152"
      using w by (auto simp: window_ok_def rw_inv_def rw_cap_def rw_len_def rawWindowSizeBytes_def)
    have "(100 * of_nat (rw_len v) / 2097152 :: rat) \<le> 100"
      using of_nat_mono [OF v(3), where 'a = rat] by simp
    with v show ?thesis
      by (intro exI [of _ "rw_len v"] exI [of _ "100 * of_nat (rw_len v) / 2097152"])
        (simp add: observer_line_def)
  qed
  have "window_ok (window_fwd m)" "window_ok (window_rev m)"
    using ok by (cases "MMode m"; simp add: machine_ok_def window_fwd_def window_rev_def)+
  with line [of "window_fwd m" ObserverFwd] line [of "window_rev m" ObserverRev] ok
  show ?thesis by (fastforce simp: ticker_iter_def)
qed

lemma stream_error_not_eof: "stream_error U r \<noteq> Some ErrEOF"
proof (induction U r rule: stream_error.induct)
  case (1 U r)
  then show ?case
    by (subst stream_error.simps) (simp split: sum.split prod.split)
qed

lemma encoder_result:
  assumes "\<forall>k. \<not> ctx_done E k" "(mstep E)\<^sup>*\<^sup>* (start_machine ModeEncode r dst rr src) m"
    and "FwdEnd m = Some res" "snk_room dst = None"
  shows "res = stream_error (tables E) r"
proof -
  from encoder_as_alone [OF assms(1-3)] obtain st where
    run: "run_encode_template_v1 E (Some dst) None new_conn_stats new_observer r = (res, st)" by blast
  have "run_encode_template_v1 E (Some dst) None new_conn_stats new_observer r =
      encode_loop E 0 r (start_lane (Some dst) new_dict new_conn_stats new_observer)"
    by (simp add: run_encode_template_v1_def start_lane_def)
  with run encode_loop_error [OF assms(1), of "start_lane (Some dst) new_dict new_conn_stats new_observer" 0 r]
  show ?thesis using assms(4) by (simp add: start_lane_def out_open_def)
qed

text \<open>
  What an encoding connection logs when it ends, while the reverse lane still runs or has
  ended without an error. One line of statistics, and after it the error that ended the
  request stream, if it was not a clean end: nothing the observers, the learner or the reverse
  lane do is ever reported as an error of the forward lane.
\<close>

theorem final_report:
  assumes "\<forall>k. \<not> ctx_done E k" "(mstep E)\<^sup>*\<^sup>* (start_machine ModeEncode r dst rr src) m"
    and "FwdEnd m = Some res" "snk_room dst = None" "\<forall>e. RevPhase m \<noteq> RevEnded (Some e)"
  shows "\<exists>raw wire. run_end i dur res m =
    StatsLine i raw wire (savings raw wire) (round_ms dur) #
      (case stream_error (tables E) r of None \<Rightarrow> [] | Some e \<Rightarrow> [ForwardEndedLine e])"
proof -
  have "duplex_unused (CStats (Enc (EncLane m)))"
    using machine_ok_reach [OF assms(2)] by (simp add: machine_ok_def)
  note line = print_stats_unused [OF this]
  have quiet: "(case RevPhase m of RevEnded e \<Rightarrow> e | _ \<Rightarrow> None) = None"
    using assms(5) by (auto split: rev_phase.split)
  have res: "res = stream_error (tables E) r" using encoder_result [OF assms(1-4)] .
  show ?thesis
    unfolding run_end_def Let_def quiet line res
    using stream_error_not_eof [of "tables E" r] by (auto split: option.split)
qed

text \<open>A read of nine bytes on the fast path of a decoding connection.\<close>

definition answering :: machine where
  "answering = start_machine ModeDecode \<lparr>rd_bytes = [], rd_end = ErrEOF\<rparr> fresh_sink short_answer fresh_sink"

lemma answering_step: "(mstep sample_env)\<^sup>*\<^sup>* answering (reverse_fast 0 answering)"
  by (rule r_into_rtranclp, rule mstep.fast)
    (simp_all add: answering_def start_machine_def reverseFastPathBytes_def)

lemma answering_sent: "sent (Enc (EncLane (reverse_fast 0 answering))) = str ''HTTP/1.1 ''"
  by (simp add: answering_def reverse_fast_def start_machine_def start_lane_def fast_read_def
      conn_read_def short_answer_def fast_write_open sent_def str_def)

theorem stats_report_frames_only_witness:
  "\<exists>p fs raw. str ''HTTP/1.1 '' = p @ wire_of fs \<and> list_all encoder_frame fs \<and>
     print_stats 7 1499999 (CStats (Enc (EncLane (reverse_fast 0 answering)))) =
       StatsLine 7 raw (of_nat (length (wire_of fs))) (savings raw (of_nat (length (wire_of fs)))) (round_ms 1499999) \<and>
     round_ms 1499999 = 1000000"
  using stats_report_frames_only [OF answering_step [unfolded answering_def], folded answering_def,
      of 7 1499999] answering_sent
  by (auto simp: round_ms_def)

theorem connection_state_is_well_formed_witness:
  "machine_ok (reverse_fast 0 answering) \<and>
   ticker_iter 7 0 TelemetryTick (reverse_fast 0 answering) \<noteq> Some []"
  using connection_state_is_well_formed [OF answering_step [unfolded answering_def], folded answering_def,
      of 7 0] by auto

theorem final_report_witness:
  "\<exists>m raw wire. (mstep sample_env)\<^sup>*\<^sup>* (start_machine ModeEncode sample_reader fresh_sink short_answer fresh_sink) m \<and>
     run_end 7 0 None m = [StatsLine 7 raw wire (savings raw wire) 0]"
proof -
  have never: "\<forall>k. \<not> ctx_done sample_env k" by (simp add: sample_env_def)
  let ?m0 = "start_machine ModeEncode sample_reader fresh_sink short_answer fresh_sink"
  have room: "snk_room fresh_sink = None" by simp
  have "\<forall>e. RevPhase ?m0 \<noteq> RevEnded (Some e)" by (simp add: start_machine_def)
  then obtain m res where m: "(mstep sample_env)\<^sup>*\<^sup>* ?m0 m" "FwdEnd m = Some res"
      "\<forall>e. RevPhase m \<noteq> RevEnded (Some e)"
    using forward_first [of sample_env ?m0] by metis
  have "res = None" using encoder_result [OF never m(1,2) room] sample_stream_error by simp
  with final_report [OF never m(1,2) room m(3), of 7 0] sample_stream_error m(1) show ?thesis
    by (auto simp: round_ms_def)
qed

end
