(* ===== verification/Server.thy ===== *)
theory Server
  imports Accept Reports "HOL-Library.Sublist"
begin

text \<open>
  The program as a whole (\<^verbatim>\<open>cmd/enzo/main.go\<close>): the checks of \<^verbatim>\<open>main\<close>, the accept loop, the
  goroutines that classify connections and make their contexts, in any order, and the machine
  that \<^verbatim>\<open>state.Run\<close> starts for each of them. What listening, accepting and dialling return is
  the environment's.
\<close>

section \<open>State and start\<close>

text \<open>
  \<^verbatim>\<open>waiting\<close> are the accepted connections whose goroutine has not classified them yet,
  \<^verbatim>\<open>served\<close> the contexts handed to \<^verbatim>\<open>Run\<close>; \<^verbatim>\<open>stopped\<close> is the error that ended the accept loop,
  after which \<^verbatim>\<open>log.Fatalf\<close> ends the process.
\<close>

record server =
  waiting :: "(reader \<times> sink) list"
  served :: "conn_context list"
  NextConnID :: u64
  stopped :: "go_error option"

datatype main_result = FatalArgs | FatalListen go_error | Serving server

definition main_start :: "bytes \<Rightarrow> bytes \<Rightarrow> go_error option \<Rightarrow> main_result" where
  "main_start listenAddr destAddr listening =
     (if listenAddr = [] \<or> destAddr = [] then FatalArgs
      else (case listening of
              Some err \<Rightarrow> FatalListen err
            | None \<Rightarrow> Serving \<lparr>waiting = [], served = [], NextConnID = 0, stopped = None\<rparr>))"

section \<open>One connection\<close>

text \<open>
  \<^verbatim>\<open>handleConn\<close> up to the call of \<^verbatim>\<open>run\<close>, on the global connection counter; the factory is not
  called when the first byte cannot be read.
\<close>

definition serve_conn ::
    "go_error + (reader \<times> sink) \<Rightarrow> reader \<times> sink \<Rightarrow> u64 \<Rightarrow> conn_context handled \<times> u64" where
  "serve_conn dialled = (\<lambda>(r, w) n.
     (handle_conn (\<lambda>src m. fst (ctx_factory dialled src m n)) id r w,
      (case peek_byte (new_payload_conn r w) of
         Inl err \<Rightarrow> n
       | Inr b \<Rightarrow> snd (ctx_factory dialled (new_payload_conn r w) (classify_first_byte b) n))))"

text \<open>What \<^verbatim>\<open>Run\<close> starts; \<open>answers\<close> is the stream of the destination as its reads return it.\<close>

definition run_context :: "seg_reader \<Rightarrow> conn_context \<Rightarrow> machine" where
  "run_context answers cc =
     start_machine (CtxMode cc) (pc_in (Source cc)) (pc_out (CtxDestination cc)) answers (pc_out (Source cc))"

section \<open>Steps\<close>

definition after_serving :: "go_error + (reader \<times> sink) \<Rightarrow> nat \<Rightarrow> server \<Rightarrow> server" where
  "after_serving dialled i s =
     (case serve_conn dialled (waiting s ! i) (NextConnID s) of
        (res, n) \<Rightarrow>
          s\<lparr>waiting := take i (waiting s) @ drop (Suc i) (waiting s),
            served := served s @ (case res of Served cc \<Rightarrow> [cc] | _ \<Rightarrow> []),
            NextConnID := n\<rparr>)"

inductive server_step :: "server \<Rightarrow> server \<Rightarrow> bool" where
  accepted: "stopped s = None \<Longrightarrow> server_step s (s\<lparr>waiting := waiting s @ [(r, w)]\<rparr>)"
| handled: "stopped s = None \<Longrightarrow> i < length (waiting s) \<Longrightarrow> server_step s (after_serving dialled i s)"
| failed: "stopped s = None \<Longrightarrow> server_step s (s\<lparr>stopped := Some err\<rparr>)"

inductive_cases server_stepE: "server_step s s'"

section \<open>The contexts\<close>

definition context_ok :: "conn_context \<Rightarrow> bool" where
  "context_ok cc \<longleftrightarrow> (\<exists>b rest. rd_bytes (pc_in (Source cc)) = b # rest \<and> CtxMode cc = classify_first_byte b) \<and>
     CtxDictionary cc = None \<and> CtxWindowFwd cc = None \<and> CtxWindowRev cc = None \<and> CtxEpoch cc = 0"

lemma serve_conn_cases:
  assumes "serve_conn dialled (r, w) n = (res, n')"
  obtains (quiet) "n' = n" "\<forall>cc. res \<noteq> Served cc"
  | (made) cc where "n' = n + 1" "res = Served cc" "CtxID cc = n + 1" "context_ok cc"
proof (cases "rd_bytes r")
  case Nil
  with assms have "n' = n" "\<forall>cc. res \<noteq> Served cc"
    by (auto simp: serve_conn_def handle_conn_def peek_byte_def new_payload_conn_def split: if_splits)
  then show thesis by (rule quiet)
next
  case (Cons b rest)
  show thesis
  proof (cases dialled)
    case (Inl err)
    with Cons assms have "n' = n" "\<forall>cc. res \<noteq> Served cc"
      by (auto simp: serve_conn_def handle_conn_def peek_byte_def new_payload_conn_def ctx_factory_def Let_def)
    then show thesis by (rule quiet)
  next
    case (Inr d)
    obtain br bw where d: "d = (br, bw)" by fastforce
    let ?cc = "\<lparr>CtxID = n + 1, CtxMode = classify_first_byte b, Source = new_payload_conn r w,
      CtxDestination = new_payload_conn br bw, CtxEpoch = 0, CtxDictionary = None, CtxWindowFwd = None,
      CtxWindowRev = None, CtxCanceled = False\<rparr>"
    have run: "n' = n + 1" "res = Served ?cc"
      using Cons assms Inr d
      by (auto simp: serve_conn_def handle_conn_def peek_byte_def new_payload_conn_def ctx_factory_def Let_def)
    have "context_ok ?cc" using Cons by (simp add: context_ok_def new_payload_conn_def)
    with run show thesis by (intro made) simp_all
  qed
qed

definition server_inv :: "server \<Rightarrow> bool" where
  "server_inv s \<longleftrightarrow> NextConnID s = of_nat (length (served s)) \<and>
     map CtxID (served s) = map of_nat [1..<Suc (length (served s))] \<and> list_all context_ok (served s)"

lemma server_inv_step:
  assumes "server_step s s'" "server_inv s"
  shows "server_inv s'"
  using assms(1)
proof (cases rule: server_step.cases)
  case (handled i dialled)
  obtain r w where x: "waiting s ! i = (r, w)" by fastforce
  obtain res n where run: "serve_conn dialled (r, w) (NextConnID s) = (res, n)" by fastforce
  then show ?thesis
  proof (cases rule: serve_conn_cases)
    case quiet
    then show ?thesis
      using assms(2) handled(1) run x
      by (cases res) (simp_all add: after_serving_def server_inv_def)
  next
    case (made cc)
    then show ?thesis
      using assms(2) handled(1) run x by (simp add: after_serving_def server_inv_def add.commute)
  qed
qed (use assms(2) in \<open>simp_all add: server_inv_def\<close>)

lemma server_inv_reach:
  assumes "main_start l d None = Serving s0" "server_step\<^sup>*\<^sup>* s0 s"
  shows "server_inv s"
  using assms(2)
proof (induction rule: rtranclp_induct)
  case base
  show ?case using assms(1) by (auto simp: main_start_def server_inv_def split: if_splits)
qed (rule server_inv_step)

section \<open>Properties\<close>

text \<open>
  C32: Connection ids. In whatever order connections are accepted, classified and dialled, the
  contexts made so far have the ids 1, 2, 3 and so on in the order in which they were made, so
  no two connections share an id before 2^64 of them; each is in the mode its first byte
  asks for, holds its stream unread, and starts with no dictionary and no observers of its own.
  A failed accept ends the program: there is no further step.
\<close>

theorem connection_ids_are_consecutive:
  assumes "main_start l d None = Serving s0" "server_step\<^sup>*\<^sup>* s0 s"
  shows "map CtxID (served s) = map of_nat [1..<Suc (length (served s))] \<and>
    (length (served s) < 2 ^ 64 \<longrightarrow> distinct (map CtxID (served s))) \<and>
    list_all context_ok (served s) \<and>
    (stopped s \<noteq> None \<longrightarrow> (\<nexists>s'. server_step s s'))"
proof -
  have inv: "server_inv s" by (rule server_inv_reach [OF assms])
  let ?n = "length (served s)"
  have "distinct (map (of_nat :: nat \<Rightarrow> u64) [1..<Suc ?n])" if small: "?n < 2 ^ 64"
  proof -
    have "inj_on (of_nat :: nat \<Rightarrow> u64) {1..<Suc ?n}"
    proof (rule inj_onI)
      fix x y
      assume xy: "x \<in> {1..<Suc ?n}" "y \<in> {1..<Suc ?n}" "(of_nat x :: u64) = of_nat y"
      then have "unat (of_nat x :: u64) = unat (of_nat y :: u64)" by simp
      with xy(1,2) small show "x = y" by (simp add: unat_of_nat)
    qed
    then show ?thesis by (simp add: distinct_map del: upt_Suc)
  qed
  then show ?thesis using inv by (auto simp: server_inv_def elim!: server_stepE)
qed

text \<open>
  C9: What a connection of the running program lets out. Take any context the program has made
  and any state of its two lanes, whatever the peers send and in whatever order things happen.
  If the first byte of the connection is the magic byte, the backend has been sent complete
  requests only, and the link a copied beginning of the answers and frames; otherwise the link
  has been sent frames only, and the client a copied beginning of what came back on the link
  and complete decoded messages.
\<close>

theorem served_connection_outputs:
  assumes "main_start l d None = Serving s0" "server_step\<^sup>*\<^sup>* s0 s" "cc \<in> set (served s)"
    and "(mstep E)\<^sup>*\<^sup>* (run_context answers cc) m"
    and "snk_room (pc_out (Source cc)) = None" "snk_room (pc_out (CtxDestination cc)) = None"
  shows "\<exists>b rest p p' fs rs. rd_bytes (pc_in (Source cc)) = b # rest \<and>
    prefix p (seg_bytes answers) \<and> prefix p' (seg_bytes answers) \<and>
    (if b = MagicByte then p' = [] else p = []) \<and>
    sent (Enc (EncLane m)) =
      snk_bytes (pc_out (if b = MagicByte then Source cc else CtxDestination cc)) @ p @ wire_of fs \<and>
    list_all encoder_frame fs \<and>
    snk_bytes (DDest (DecLane m)) =
      snk_bytes (pc_out (if b = MagicByte then CtxDestination cc else Source cc)) @ p' @ concat rs \<and>
    list_all (complete_request (tables E)) rs"
proof -
  have "context_ok cc"
    using server_inv_reach [OF assms(1,2)] assms(3) by (simp add: server_inv_def list_all_iff)
  then obtain b rest where b: "rd_bytes (pc_in (Source cc)) = b # rest" "CtxMode cc = classify_first_byte b"
    unfolding context_ok_def by blast
  note run = assms(4) [unfolded run_context_def b(2)]
  have md: "MMode m = classify_first_byte b" using mode_stays [OF run] by (simp add: start_machine_def)
  from counted_reach [OF run assms(6,5)] obtain p q fs where
    out: "seg_bytes answers = p @ q" "list_all encoder_frame fs" "MMode m = ModeEncode \<longrightarrow> p = []"
      "sent (Enc (EncLane m)) = snk_bytes (case classify_first_byte b of
         ModeEncode \<Rightarrow> pc_out (CtxDestination cc) | ModeDecode \<Rightarrow> pc_out (Source cc)) @ p @ wire_of fs"
    unfolding counted_def by blast
  have p: "prefix p (seg_bytes answers)" using out(1) by simp
  show ?thesis
  proof (cases "b = MagicByte")
    case True
    then have c: "classify_first_byte b = ModeDecode" by (simp add: classify_first_byte_def)
    from decoding_reach [OF run [unfolded c] assms(6,5)] obtain rs where
      "snk_bytes (DDest (DecLane m)) = snk_bytes (pc_out (CtxDestination cc)) @ concat rs"
      "list_all (complete_request (tables E)) rs"
      unfolding backend_inv_def by blast
    with True c b(1) p out(2,4) show ?thesis
      by (intro exI [of _ b] exI [of _ rest] exI [of _ p] exI [of _ "[]"] exI [of _ fs] exI [of _ rs]) simp
  next
    case False
    then have c: "classify_first_byte b = ModeEncode" by (simp add: classify_first_byte_def)
    from client_text_reach [OF run [unfolded c] assms(5)] obtain p' q' rs where
      "seg_bytes answers = p' @ q'" "list_all (complete_request (tables E)) rs"
      "snk_bytes (DDest (DecLane m)) = snk_bytes (pc_out (Source cc)) @ p' @ concat rs"
      unfolding client_text_def by blast
    with False c b(1) md out(2-4) show ?thesis
      by (intro exI [of _ b] exI [of _ rest] exI [of _ "[]"] exI [of _ p'] exI [of _ fs] exI [of _ rs]) simp
  qed
qed

section \<open>Example\<close>

text \<open>One accepted connection that starts with an HTTP request.\<close>

definition idle :: server where
  "idle = \<lparr>waiting = [], served = [], NextConnID = 0, stopped = None\<rparr>"

definition one_client :: server where
  "one_client = after_serving (Inr (\<lparr>rd_bytes = [], rd_end = ErrEOF\<rparr>, fresh_sink)) 0
     (idle\<lparr>waiting := [(bare_request, fresh_sink)]\<rparr>)"

lemma idle_start: "main_start [58] [58] None = Serving idle"
  by (simp add: main_start_def idle_def)

lemma one_client_reached: "server_step\<^sup>*\<^sup>* idle one_client"
proof -
  let ?s = "idle\<lparr>waiting := [(bare_request, fresh_sink)]\<rparr>"
  have "server_step idle ?s"
    using server_step.accepted [of idle bare_request fresh_sink] by (simp add: idle_def)
  moreover have "server_step ?s one_client"
    unfolding one_client_def by (rule server_step.handled) (simp_all add: idle_def)
  ultimately show ?thesis by (meson rtranclp.rtrancl_into_rtrancl rtranclp.rtrancl_refl)
qed

lemma one_client_served:
  "\<exists>cc. served one_client = [cc] \<and> pc_out (Source cc) = fresh_sink \<and>
     pc_out (CtxDestination cc) = fresh_sink \<and> pc_in (Source cc) = bare_request"
proof -
  obtain b rest where "rd_bytes bare_request = b # rest"
    by (simp add: bare_request_def header_block_def str_def)
  then show ?thesis
    by (simp add: one_client_def idle_def after_serving_def serve_conn_def handle_conn_def peek_byte_def
        new_payload_conn_def ctx_factory_def Let_def)
qed

theorem connection_ids_are_consecutive_witness:
  "map CtxID (served one_client) = [1] \<and> list_all context_ok (served one_client)"
  using connection_ids_are_consecutive [OF idle_start one_client_reached] one_client_served by auto

theorem served_connection_outputs_witness:
  "\<exists>cc m fs. cc \<in> set (served one_client) \<and> (mstep sample_env)\<^sup>*\<^sup>* (run_context short_answer cc) m \<and>
     FwdEnd m \<noteq> None \<and> sent (Enc (EncLane m)) = wire_of fs \<and> list_all encoder_frame fs"
proof -
  obtain cc where cc: "served one_client = [cc]" "pc_out (Source cc) = fresh_sink"
      "pc_out (CtxDestination cc) = fresh_sink" "pc_in (Source cc) = bare_request"
    using one_client_served by blast
  obtain m e where m: "(mstep sample_env)\<^sup>*\<^sup>* (run_context short_answer cc) m" "FwdEnd m = Some e"
    using reaches_end by blast
  have "cc \<in> set (served one_client)" "snk_room (pc_out (Source cc)) = None"
    "snk_room (pc_out (CtxDestination cc)) = None" using cc by simp_all
  from served_connection_outputs [OF idle_start one_client_reached this(1) m(1) this(2,3)]
  show ?thesis
  proof (elim exE conjE)
    fix b rest p p' fs
    assume out: "rd_bytes (pc_in (Source cc)) = b # rest" "if b = MagicByte then p' = [] else p = []"
        "sent (Enc (EncLane m)) =
           snk_bytes (pc_out (if b = MagicByte then Source cc else CtxDestination cc)) @ p @ wire_of fs"
        "list_all encoder_frame fs"
    have "b \<noteq> MagicByte"
      using out(1) cc(4) by (auto simp: bare_request_def header_block_def str_def MagicByte_def)
    with out(2-4) cc m show ?thesis by (intro exI [of _ cc] exI [of _ m] exI [of _ fs]) simp
  qed
qed

end
