(* ===== verification/Spec2Isabelle.thy ===== *)
theory Spec2Isabelle
  imports Codec_Correct Decoder_Invariant Mem_Eviction Entry_Dictionary Span_Extract Buffered_Conn
    Http_Helpers End_To_End Observers Server
begin

text \<open>
  \<^bold>\<open>ENZO, a transparent compressing TCP proxy.\<close>

  Two instances face each other over a slow link. The one near the client reads HTTP requests
  that carry telemetry, normalises them (Content-Length instead of chunked bodies), cuts them
  into constants and variable lanes and sends frames; the one near the backend expands the
  frames and writes the requests to the backend. Both are the same program, which decides by the
  first byte of a connection whether to encode or to decode. Responses travel the other way,
  first verbatim and later through the opposite pipeline.

  \<^bold>\<open>Parts and their theories.\<close> Names on the right are files under \<^verbatim>\<open>src/\<close>.

  \<^item> \<^verbatim>\<open>Enzo_Prelude\<close>: bytes and words, the error values, actions that return an error or go on,
    collections of simplification rules.
  \<^item> \<^verbatim>\<open>Go_Streams\<close>, \<^verbatim>\<open>Go_Strings\<close>, \<^verbatim>\<open>Go_Collections\<close>: what the program uses of the Go library.
    A reader is the bytes still to come and the error that ends them (\<^verbatim>\<open>Buffered_Conn\<close> shows
    that a buffered connection is one); a sink is what was written
    and, where it will fail, the room that is left; a segmented reader also knows which pieces
    the reads return. Case folding and trimming beyond ASCII, the iteration order of maps and
    the order \<^verbatim>\<open>sort.Slice\<close> gives to equal elements are parameters; the locales \<^verbatim>\<open>map_range\<close>,
    \<^verbatim>\<open>slice_sort\<close> and \<^verbatim>\<open>capped_store\<close> state what is relied on.
  \<^item> \<^verbatim>\<open>Wire_Frame\<close>, \<^verbatim>\<open>Wire_Template\<close> (\<^verbatim>\<open>internal/protocol\<close>): header, \<^verbatim>\<open>WriteFrame\<close>,
    \<^verbatim>\<open>ReadFrame\<close>, and the payloads of the frame types with their builders and parsers. Slices out
    of range are the error \<open>GoPanic\<close>.
  \<^item> \<^verbatim>\<open>Http_Request\<close> (\<^verbatim>\<open>internal/httpio\<close>): reading one request, chunked bodies included.
  \<^item> \<^verbatim>\<open>Raw_Window\<close>, \<^verbatim>\<open>Mem_Dictionary\<close>, \<^verbatim>\<open>Mem_Eviction\<close> (\<^verbatim>\<open>internal/memory\<close>): the ring buffer that
    observes a direction, and a byte-capped cache with guarded eviction.
  \<^item> \<^verbatim>\<open>Span_Learner\<close>, \<^verbatim>\<open>Span_Extract\<close>, \<^verbatim>\<open>Entry_Dictionary\<close> (\<^verbatim>\<open>internal/dictionary\<close>): the
    aggregation of observed spans and its eviction, the exhaustive span extractor, the bounded
    dictionary of promoted entries.
  \<^item> \<^verbatim>\<open>Conn_State\<close>, \<^verbatim>\<open>Encoder\<close>, \<^verbatim>\<open>Decoder\<close>, \<^verbatim>\<open>Fast_Path\<close>, \<^verbatim>\<open>Machine\<close>, \<^verbatim>\<open>Http_Helpers\<close>
    (\<^verbatim>\<open>internal/state\<close>): templates and counters, \<^verbatim>\<open>runEncodeTemplateV1\<close>,
    \<^verbatim>\<open>runDecodeTemplateV1\<close>, the copy loop of the reverse direction, \<^verbatim>\<open>Run\<close> with its two
    concurrent lanes, and the helpers that no lane calls at present.
  \<^item> \<^verbatim>\<open>Reports\<close> (\<^verbatim>\<open>printStats\<close> of \<^verbatim>\<open>internal/state/stats.go\<close>, the ticker goroutine and the end of
    \<^verbatim>\<open>Run\<close>): the lines a connection logs, as the values they show.
  \<^item> \<^verbatim>\<open>Packet_IO\<close>, \<^verbatim>\<open>Buffered_Conn\<close> (\<^verbatim>\<open>internal/io/framer.go\<close>): packets over a connection, and
    its reading side with the buffer.
  \<^item> \<^verbatim>\<open>Accept\<close>, \<^verbatim>\<open>Server\<close> (\<^verbatim>\<open>internal/accept\<close>, \<^verbatim>\<open>internal/connctx\<close>, \<^verbatim>\<open>cmd/enzo/main.go\<close>): the
    classification and the context of one connection; the start of the program, the accept loop
    with its goroutines and the global connection counter.

  Records, functions and their fields keep the names of the code, in the case Isabelle allows;
  a loop is a recursive function named after its routine, a mutable local or field a component
  of the state it returns.

  \<^bold>\<open>How they interact.\<close> The relation \<^verbatim>\<open>server_step\<close> accepts connections and handles them in any
  order; \<^verbatim>\<open>handle_conn\<close> peeks at the first byte, makes a context and hands it to
  \<^verbatim>\<open>Run\<close>, which is the relation \<^verbatim>\<open>mstep\<close>: a step is one iteration of the forward lane, of the
  reverse copy loop, the hand-over, or one iteration of the reverse pipeline, in any order.
  \<^verbatim>\<open>Shared\<close> is the one dictionary both lanes point to. The encoder lane reads a request with
  \<^verbatim>\<open>read_http_request_body\<close>, emits frames through \<^verbatim>\<open>write_frame_count\<close>, and shows the truth
  stream to the window and the learner; the decoder lane reads frames with \<^verbatim>\<open>read_frame\<close>,
  expands templates and flushes requests when they are complete.
\<close>

text \<open>
  \<^bold>\<open>What the lemmas show.\<close>

  \<^item> Wire level: writing and reading frames and payloads are inverse (the locale
    \<^verbatim>\<open>payload_codec\<close>, once per payload); what is read is canonical; which payloads crash a
    parser.
  \<^item> \<^verbatim>\<open>Http_Request\<close>: a request that is returned was consumed exactly, framed the way its header
    announces; the wire form of a chunked body is the inductive relation \<open>chunked_wire\<close>, which is
    what the reader accepts and which it reads back.
  \<^item> \<^verbatim>\<open>Span_Learner\<close>: counting once per packet, and the eviction of a cheapest candidate outside
    the newest half, for every order of each \<^verbatim>\<open>range\<close> loop.
  \<^item> \<^verbatim>\<open>Raw_Window\<close>: the ring buffer refines "the last bytes of what was appended", stated as the
    locale \<^verbatim>\<open>stream_observer\<close>.
  \<^item> \<^verbatim>\<open>Frame_Semantics\<close>, \<^verbatim>\<open>Encoder_Correct\<close>, \<^verbatim>\<open>Encoder_Discipline\<close>: the meaning of a frame
    sequence as the text it expands to; everything the encoder sends is well-formed, expands to
    the normalised request, and is promoted on the third occurrence of a pattern. The locale
    \<^verbatim>\<open>encoding_steps\<close> carries a property from the elementary acts to the whole encoder and is
    interpreted once for each such property; \<^verbatim>\<open>emission_steps\<close> does so for the frames alone.
  \<^item> \<^verbatim>\<open>Decoder_Correct\<close>, \<^verbatim>\<open>Decoder_Invariant\<close>: the decoder feeds what the frames mean, however they
    are cut, and writes nothing but complete requests, whatever the peer sends.
  \<^item> \<^verbatim>\<open>Codec_Correct\<close>: both together are the identity on normalised sessions, on condition that
    the 16-bit template ids tell the patterns of the session apart; what happens otherwise.
  \<^item> \<^verbatim>\<open>Machine\<close>, \<^verbatim>\<open>Machine_Runs\<close>: the reverse lane cannot disturb an encoder although they share
    a dictionary; what the client holds in every reachable state; every run ends. A decoder does
    depend on the dictionary, and its result on the order of the lanes.
  \<^item> \<^verbatim>\<open>Duplex\<close>, \<^verbatim>\<open>Reverse_Link\<close>: two machines back to back deliver the normalised requests to the
    backend and, as long as fewer than 256 bytes come back, the answers to the client; what a
    decoding connection lets out in every reachable state; beyond 256 bytes the two ends may
    disagree where the verbatim part stops, and then the reverse direction breaks.
  \<^item> \<^verbatim>\<open>Shared_Dict\<close>, \<^verbatim>\<open>Full_Duplex\<close>, \<^verbatim>\<open>End_To_End\<close>: the same with both reverse pipelines running. The
    templates in a shared dictionary only grow and agree with the patterns of both directions,
    so that two machines back to back deliver requests and answers at once, on condition that
    the ids tell the patterns of both directions apart, that the reads of the client's end stop
    where the verbatim part does, and that no reverse lane is cut off.
  \<^item> \<^verbatim>\<open>Observers\<close>: a bisimulation that forgets windows and learner, so these never influence
    what is sent.
  \<^item> \<^verbatim>\<open>Machine_Types\<close>: what is true of every reachable state without any assumption on the peers;
    \<^verbatim>\<open>Reports\<close>: what the log lines say of it; \<^verbatim>\<open>Server\<close>: connection ids, and what any connection
    of the program lets out.
  \<^item> \<^verbatim>\<open>Mem_Eviction\<close>: evicting is least-recently-used and deterministic, because the ranks of the
    entries (an instance of \<^verbatim>\<open>linorder\<close>) are distinct. \<^verbatim>\<open>Buffered_Conn\<close>: the buffer is invisible,
    through the locale \<^verbatim>\<open>byte_source\<close>.
  \<^item> The two byte-capped stores are instances of \<^verbatim>\<open>capped_store\<close>, which gives their bounds, the
    entry dictionary twice: for all calls whatsoever, where only the cap holds, and for
    disciplined ones, where the counter is exact. What each of their evictions removes is stated
    by a separate property.
  \<^item> \<^verbatim>\<open>Fast_Path\<close>, \<^verbatim>\<open>Http_Helpers\<close>: loops over reads, for every segmentation of the stream.

  \<^bold>\<open>Bounds and termination.\<close> There is no fuel: the 100 tries of \<^verbatim>\<open>fill\<close> are a limit of
  \<^verbatim>\<open>bufio\<close>, and the loop of \<^verbatim>\<open>io.ReadFull\<close> on an arbitrary source is a partial function, proved to
  return on the sources the program has. Every other loop is a function with a measure: the
  bytes a reader still has for the request, frame and chunk loops, the bytes and reads of a
  segmented reader for the copy loops, the rest of a line or body for the splitting loops, the
  rest of the text for the write loops. Streams are finite, so a peer that sends for ever is
  covered only up to any point in time. The limits of the code are kept: 64 KiB of header and
  16 MiB of body for a request, 256 KiB for the incremental header reader, the frame limit
  \<open>MaxFramePayloadBytes\<close>, 16-bit length fields and hit counters, 32-bit dictionaries, 64-bit
  counters that wrap. \<open>max_alloc\<close> is the largest request \<^verbatim>\<open>make\<close> accepts.

  \<^bold>\<open>Not modelled.\<close> Parsing of flags and the text and the digits of log lines; the debug lines of
  the decoder; closing of connections, addresses and deadlines, which forward to the socket (the
  model lets the reverse lane go on after the forward lane has returned, where the program soon
  closes the connection; and after a failed accept it stops, as the process does). An iteration
  of a lane is one step, so a data race inside the map (the code takes no lock) is not
  expressed, only the order of whole iterations. \<^verbatim>\<open>Candidate\<close>, \<^verbatim>\<open>CandidateIndex\<close> and the types
  of \<^verbatim>\<open>window.go\<close> have no operations and no users.
\<close>

end
